(* ===== verification/Prelude.thy ===== *)
theory Prelude
  imports Main "HOL-Library.Word" "HOL-Library.List_Lexorder" "HOL-Library.Char_ord"
begin

text \<open>
  Shared vocabulary of the development: Go's integer and byte types, the error-or-value result of
  fallible Go functions, little-endian integer encoding (package \<^verbatim>\<open>encoding/binary\<close>), and the
  generic list, option and word lemmas that the component theories use.
\<close>

unbundle bit_operations_syntax

subsection \<open>Go's machine types\<close>

type_synonym byte = "8 word"
type_synonym bytes = "byte list"
type_synonym u16 = "16 word"
type_synonym u32 = "32 word"
type_synonym u64 = "64 word"

text \<open>A Go \<^verbatim>\<open>int64\<close> is kept as the 64-bit word that \<^verbatim>\<open>uint64(x)\<close> converts it to; its signed reading is
  \<^term>\<open>sint\<close>.\<close>

type_synonym i64 = "64 word"

subsection \<open>Results: \<^verbatim>\<open>(T, error)\<close>\<close>

type_synonym ('e, 'a) result = "'e + 'a"

fun rbind :: "('e, 'a) result \<Rightarrow> ('a \<Rightarrow> ('e, 'b) result) \<Rightarrow> ('e, 'b) result" where
  "rbind (Inl e) f = Inl e"
| "rbind (Inr x) f = f x"

named_theorems codec_simps \<open>length and round-trip equations of the byte codecs\<close>
named_theorems model_defs \<open>definitions of the model that proofs unfold together\<close>

lemma rbind_Inr_iff: "rbind m f = Inr y \<longleftrightarrow> (\<exists>x. m = Inr x \<and> f x = Inr y)"
  by (cases m) auto

lemma rbind_cong [fundef_cong]:
  "m = m' \<Longrightarrow> (\<And>x. m' = Inr x \<Longrightarrow> f x = g x) \<Longrightarrow> rbind m f = rbind m' g"
  by (cases m') auto

definition require :: "bool \<Rightarrow> 'e \<Rightarrow> ('e, unit) result" where
  "require b e = (if b then Inr () else Inl e)"

lemma require_Inr [simp]: "require b e = Inr u \<longleftrightarrow> b"
  by (simp add: require_def)

subsection \<open>Little-endian integers\<close>

text \<open>\<^verbatim>\<open>binary.LittleEndian.PutUintN\<close>: byte \<open>i\<close> is \<^verbatim>\<open>byte(v >> (8*i))\<close>.\<close>

fun le_put :: "nat \<Rightarrow> 'a::len word \<Rightarrow> bytes" where
  "le_put 0 w = []"
| "le_put (Suc n) w = ucast w # le_put n (drop_bit 8 w)"

fun le_get :: "bytes \<Rightarrow> 'a::len word" where
  "le_get [] = 0"
| "le_get (b # bs) = ucast b OR push_bit 8 (le_get bs)"

lemma length_le_put [simp, codec_simps]: "length (le_put n w) = n"
  by (induction n arbitrary: w) auto

lemma le_get_put_take_bit: "le_get (le_put n w) = take_bit (8 * n) (w :: 'a::len word)"
proof (induction n arbitrary: w)
  case 0
  show ?case by simp
next
  case (Suc n)
  show ?case
    by (rule bit_word_eqI) (auto simp: Suc bit_simps)
qed

lemma le_get_put [codec_simps]:
  "LENGTH('a::len) \<le> 8 * n \<Longrightarrow> le_get (le_put n (w :: 'a word)) = w"
  by (rule bit_word_eqI) (simp add: le_get_put_take_bit bit_simps)

lemma le_put_take_bit: "8 * n \<le> k \<Longrightarrow> le_put n (take_bit k w) = le_put n (w :: 'a::len word)"
proof (induction n arbitrary: k w)
  case 0
  show ?case by simp
next
  case (Suc n)
  have "ucast (take_bit k w) = (ucast w :: byte)"
    by (rule bit_word_eqI) (use Suc.prems in \<open>auto simp: bit_simps\<close>)
  moreover have "le_put n (drop_bit 8 (take_bit k w)) = le_put n (drop_bit 8 w)"
    using Suc.IH [of "k - 8" "drop_bit 8 w"] Suc.prems by (simp add: drop_bit_take_bit)
  ultimately show ?case by simp
qed

lemma le_put_get [codec_simps]:
  "8 * length bs \<le> LENGTH('a::len) \<Longrightarrow> le_put (length bs) (le_get bs :: 'a word) = bs"
proof (induction bs)
  case Nil
  show ?case by simp
next
  case (Cons b bs)
  have "ucast (ucast b OR push_bit 8 (le_get bs) :: 'a word) = b"
    by (rule bit_word_eqI) (use Cons.prems in \<open>auto simp: bit_simps\<close>)
  moreover have "drop_bit 8 (ucast b OR push_bit 8 (le_get bs) :: 'a word)
      = take_bit (LENGTH('a) - 8) (le_get bs)"
    by (rule bit_word_eqI) (auto simp: bit_simps dest: bit_imp_le_length)
  ultimately show ?case
    using Cons by (simp add: le_put_take_bit)
qed

lemma le_put_get_width:
  "length bs = n \<Longrightarrow> 8 * n \<le> LENGTH('a::len) \<Longrightarrow> le_put n (le_get bs :: 'a word) = bs"
  using le_put_get [of bs] by auto

subsection \<open>Fixed-width codecs and packed columns\<close>

text \<open>The slices \<^verbatim>\<open>b[i*w : i*w+w]\<close> for \<^verbatim>\<open>i\<close> below \<open>n\<close>.\<close>

definition chunks :: "nat \<Rightarrow> nat \<Rightarrow> 'b list \<Rightarrow> 'b list list" where
  "chunks w n bs = map (\<lambda>i. take w (drop (i * w) bs)) [0..<n]"

lemma length_chunks [simp]: "length (chunks w n bs) = n"
  by (simp add: chunks_def)

lemma chunks_Suc: "chunks w (Suc n) bs = take w bs # chunks w n (drop w bs)"
  unfolding chunks_def
  by (simp only: upt_conv_Cons [OF zero_less_Suc] map_Suc_upt [symmetric] list.map map_map)
    (simp add: comp_def add.commute)

lemma chunks_0 [simp]: "chunks w 0 bs = []"
  by (simp add: chunks_def)

lemma concat_chunks: "length bs = n * w \<Longrightarrow> concat (chunks w n bs) = bs"
  by (induction n arbitrary: bs) (auto simp: chunks_Suc)

lemma chunks_concat:
  "\<forall>xs \<in> set xss. length xs = w \<Longrightarrow> chunks w (length xss) (concat xss) = xss"
  by (induction xss) (auto simp: chunks_Suc)

lemma chunks_width:
  "length bs = n * w \<Longrightarrow> c \<in> set (chunks w n bs) \<Longrightarrow> length c = w"
proof (induction n arbitrary: bs)
  case (Suc n)
  then show ?case using Suc.IH [of "drop w bs"] by (auto simp: chunks_Suc)
qed simp

lemma length_concat_const: "\<forall>xs \<in> set xss. length xs = w \<Longrightarrow> length (concat xss) = length xss * w"
  by (induction xss) auto

text \<open>
  The contract of a fixed-width encoding: every value takes exactly \<open>width\<close> bytes, decoding
  inverts encoding, and every byte string of that width is the encoding of what it decodes to.
  The client lemmas are about columns: values packed one after the other.
\<close>

locale fixed_codec =
  fixes width :: nat and enc :: "'v \<Rightarrow> bytes" and dec :: "bytes \<Rightarrow> 'v"
  assumes enc_width: "length (enc v) = width"
    and dec_enc: "dec (enc v) = v"
    and enc_dec: "length bs = width \<Longrightarrow> enc (dec bs) = bs"
begin

lemma column_length: "length (concat (map enc vs)) = length vs * width"
  by (subst length_concat_const) (auto simp: enc_width)

lemma column_decode: "map dec (chunks width (length vs) (concat (map enc vs))) = vs"
proof -
  have "chunks width (length (map enc vs)) (concat (map enc vs)) = map enc vs"
    by (rule chunks_concat) (simp add: enc_width)
  then show ?thesis by (simp add: dec_enc comp_def)
qed

lemma column_encode:
  assumes "length bs = n * width"
  shows "concat (map enc (map dec (chunks width n bs))) = bs"
proof -
  have "map enc (map dec (chunks width n bs)) = chunks width n bs"
    by (rule nth_equalityI) (auto simp: enc_dec chunks_width [OF assms])
  then show ?thesis by (simp only: concat_chunks [OF assms])
qed

end

interpretation u16: fixed_codec 2 "le_put 2 :: u16 \<Rightarrow> bytes" le_get
  by unfold_locales (auto simp: le_get_put le_put_get_width)

interpretation u32: fixed_codec 4 "le_put 4 :: u32 \<Rightarrow> bytes" le_get
  by unfold_locales (auto simp: le_get_put le_put_get_width)

interpretation u64: fixed_codec 8 "le_put 8 :: u64 \<Rightarrow> bytes" le_get
  by unfold_locales (auto simp: le_get_put le_put_get_width)

subsection \<open>Length-delimited slices\<close>

text \<open>Cutting a blob into consecutive slices of the given lengths.\<close>

fun cut :: "nat list \<Rightarrow> 'b list \<Rightarrow> 'b list list" where
  "cut [] bs = []"
| "cut (l # ls) bs = take l bs # cut ls (drop l bs)"

lemma length_cut [simp]: "length (cut ls bs) = length ls"
  by (induction ls bs rule: cut.induct) auto

lemma cut_concat: "cut (map length xss) (concat xss) = xss"
  by (induction xss) auto

lemma concat_cut: "sum_list ls = length bs \<Longrightarrow> concat (cut ls bs) = bs"
  by (induction ls bs rule: cut.induct) auto

lemma map_length_cut: "sum_list ls = length bs \<Longrightarrow> map length (cut ls bs) = ls"
  by (induction ls bs rule: cut.induct) auto

lemma map_of_length_cut:
  "sum_list ls = length bs \<Longrightarrow> map (\<lambda>x. g (length x)) (cut ls bs) = map g ls"
  using arg_cong [OF map_length_cut [of ls bs], of "map g"] by (simp add: comp_def)

lemma unat_of_nat_less: "n < 2 ^ LENGTH('a::len) \<Longrightarrow> unat (of_nat n :: 'a word) = n"
  by (simp add: unat_of_nat)

lemma unat_of_nat_le: "n \<le> 2 ^ LENGTH('a::len) - 1 \<Longrightarrow> unat (of_nat n :: 'a word) = n"
  by (rule unat_of_nat_less) (metis One_nat_def Suc_pred less_Suc_eq_le zero_less_numeral zero_less_power)

lemma of_nat_unat_word: "of_nat (unat w) = (w :: 'a::len word)"
  by simp

subsection \<open>Files\<close>

text \<open>Writing \<open>data\<close> at offset \<open>off\<close> of a file, \<open>off\<close> within or at the end of it.\<close>

definition WriteAt :: "bytes \<Rightarrow> nat \<Rightarrow> bytes \<Rightarrow> bytes" where
  "WriteAt data off file = take off file @ data @ drop (off + length data) file"

lemma WriteAt_end [simp]: "WriteAt data (length file) file = file @ data"
  by (simp add: WriteAt_def)

lemma WriteAt_middle: "length old = length data \<Longrightarrow> WriteAt data (length pre) (pre @ old @ post) = pre @ data @ post"
  by (simp add: WriteAt_def)

subsection \<open>State machines and their invariants\<close>

text \<open>The states a machine with initial states \<open>init\<close> and steps \<open>step\<close> can be in.\<close>

inductive reachable :: "('s \<Rightarrow> bool) \<Rightarrow> ('s \<Rightarrow> 's \<Rightarrow> bool) \<Rightarrow> 's \<Rightarrow> bool"
  for init :: "'s \<Rightarrow> bool" and step :: "'s \<Rightarrow> 's \<Rightarrow> bool" where
  reachable_init: "init s \<Longrightarrow> reachable init step s"
| reachable_step: "reachable init step s \<Longrightarrow> step s s' \<Longrightarrow> reachable init step s'"

text \<open>The contract of an inductive invariant: it holds at the start and every step keeps it.\<close>

locale inductive_invariant =
  fixes init :: "'s \<Rightarrow> bool" and step :: "'s \<Rightarrow> 's \<Rightarrow> bool" and inv :: "'s \<Rightarrow> bool"
  assumes inv_init: "init s \<Longrightarrow> inv s"
    and inv_step: "step s s' \<Longrightarrow> inv s \<Longrightarrow> inv s'"
begin

lemma reachable_inv: "reachable init step s \<Longrightarrow> inv s"
  by (induction rule: reachable.induct) (auto intro: inv_init inv_step)

end

end
