(* ===== verification/SegmentBlock.thy ===== *)
theory SegmentBlock
  imports Prelude
begin

text \<open>
  The columnar block body of a Jetstream segment (\<^verbatim>\<open>jetstream/segment/event.go\<close>,
  \<^verbatim>\<open>jetstream/segment/block.go\<close>): the event row and its kinds, validation against the on-disk
  column widths, the encoder over the \<^verbatim>\<open>columns\<close> interface, and the decoder. Go's
  \<^verbatim>\<open>nil\<close> and empty byte slices are the same list. The decoder's read offset is kept as the
  unread suffix of the buffer.
\<close>

subsection \<open>Events (event.go)\<close>

type_synonym kind = byte

definition KindCreate :: kind where "KindCreate = 1"
definition KindUpdate :: kind where "KindUpdate = 2"
definition KindDelete :: kind where "KindDelete = 3"
definition KindIdentity :: kind where "KindIdentity = 4"
definition KindAccount :: kind where "KindAccount = 5"
definition KindSync :: kind where "KindSync = 6"
definition KindCreateResync :: kind where "KindCreateResync = 7"

lemmas kind_defs = KindCreate_def KindUpdate_def KindDelete_def KindIdentity_def
  KindAccount_def KindSync_def KindCreateResync_def

definition kind_Valid :: "kind \<Rightarrow> bool" where
  "kind_Valid k \<longleftrightarrow> k \<ge> KindCreate \<and> k \<le> KindCreateResync"

definition kind_IsCommit :: "kind \<Rightarrow> bool" where
  "kind_IsCommit k \<longleftrightarrow> k = KindCreate \<or> k = KindUpdate \<or> k = KindDelete \<or> k = KindCreateResync"

definition kind_IsMaterialization :: "kind \<Rightarrow> bool" where
  "kind_IsMaterialization k \<longleftrightarrow> k = KindCreate \<or> k = KindUpdate \<or> k = KindCreateResync"

record event =
  Seq :: u64
  WitnessedAt :: i64
  IndexedAt :: i64
  UpstreamRelayCursor :: i64
  Kind :: kind
  DID :: bytes
  Collection :: bytes
  Rkey :: bytes
  Rev :: bytes
  Payload :: bytes

definition DisplayTimeUS :: "event \<Rightarrow> i64" where
  "DisplayTimeUS e = (if IndexedAt e \<noteq> 0 then IndexedAt e else WitnessedAt e)"

datatype seg_error =
    ErrInvalidKind
  | ErrFieldTooLong
  | ErrZeroEvents
  | ErrTruncatedBlock
  | ErrInvalidFooter
  | ErrCorruptSegment
  | ErrActiveSegment
  | ErrSegmentSealed
  | ErrInvalidBlockIndex
  | ErrInvalidConfig
  | ErrBlockOutOfRange
  | ErrBufferFull
  | ErrClosed
  | ErrWrite
  | ErrSync
  | ErrFileClose
  | ErrRead
  | ErrPreparedOwner
  | ErrPreparedCommitted
  | ErrPreparedOrder
  | ErrPreparedOutstanding
  | ErrDecompress

definition ValidateEvent :: "event \<Rightarrow> (seg_error, unit) result" where
  "ValidateEvent ev =
     (if \<not> kind_Valid (Kind ev) then Inl ErrInvalidKind
      else if length (DID ev) > 65535 then Inl ErrFieldTooLong
      else if length (Collection ev) > 255 then Inl ErrFieldTooLong
      else if length (Rkey ev) > 255 then Inl ErrFieldTooLong
      else if length (Rev ev) > 255 then Inl ErrFieldTooLong
      else if length (Payload ev) > 4294967295 then Inl ErrFieldTooLong
      else Inr ())"

subsection \<open>The encoder (block.go)\<close>

text \<open>The \<^verbatim>\<open>columns\<close> interface: what the encoder reads from a block.\<close>

record columns =
  c_Len :: nat
  c_Seq :: "nat \<Rightarrow> u64"
  c_WitnessedAt :: "nat \<Rightarrow> i64"
  c_IndexedAt :: "nat \<Rightarrow> i64"
  c_Kind :: "nat \<Rightarrow> byte"
  c_CollectionLen :: "nat \<Rightarrow> byte"
  c_DIDLen :: "nat \<Rightarrow> u16"
  c_RkeyLen :: "nat \<Rightarrow> byte"
  c_RevLen :: "nat \<Rightarrow> byte"
  c_PayloadLen :: "nat \<Rightarrow> u32"
  c_AppendCollections :: "bytes \<Rightarrow> bytes"
  c_AppendDIDs :: "bytes \<Rightarrow> bytes"
  c_AppendRkeys :: "bytes \<Rightarrow> bytes"
  c_AppendRevs :: "bytes \<Rightarrow> bytes"
  c_AppendPayloads :: "bytes \<Rightarrow> bytes"

text \<open>The loop \<^verbatim>\<open>for i := range n { dst = append(dst, f(i)...) }\<close>.\<close>

definition append_each :: "nat \<Rightarrow> (nat \<Rightarrow> bytes) \<Rightarrow> bytes \<Rightarrow> bytes" where
  "append_each n f dst = foldl (\<lambda>d i. d @ f i) dst [0..<n]"

definition encodeBlockInto :: "bytes \<Rightarrow> columns \<Rightarrow> bytes" where
  "encodeBlockInto dst c =
     (let n = c_Len c;
          dst = dst @ le_put 4 (of_nat n :: u32);
          dst = append_each n (\<lambda>i. le_put 8 (c_Seq c i)) dst;
          dst = append_each n (\<lambda>i. le_put 8 (c_WitnessedAt c i)) dst;
          dst = append_each n (\<lambda>i. le_put 8 (c_IndexedAt c i)) dst;
          dst = append_each n (\<lambda>i. [c_Kind c i]) dst;
          dst = append_each n (\<lambda>i. [c_CollectionLen c i]) dst;
          dst = append_each n (\<lambda>i. le_put 2 (c_DIDLen c i)) dst;
          dst = append_each n (\<lambda>i. [c_RkeyLen c i]) dst;
          dst = append_each n (\<lambda>i. [c_RevLen c i]) dst;
          dst = append_each n (\<lambda>i. le_put 4 (c_PayloadLen c i)) dst;
          dst = c_AppendCollections c dst;
          dst = c_AppendDIDs c dst;
          dst = c_AppendRkeys c dst;
          dst = c_AppendRevs c dst;
          dst = c_AppendPayloads c dst
      in dst)"

text \<open>The adapter from a slice of events.\<close>

definition append_field :: "(event \<Rightarrow> bytes) \<Rightarrow> event list \<Rightarrow> bytes \<Rightarrow> bytes" where
  "append_field f evs dst = foldl (\<lambda>d e. d @ f e) dst evs"

definition eventColumns :: "event list \<Rightarrow> columns" where
  "eventColumns e =
     \<lparr> c_Len = length e,
       c_Seq = (\<lambda>i. Seq (e ! i)),
       c_WitnessedAt = (\<lambda>i. WitnessedAt (e ! i)),
       c_IndexedAt = (\<lambda>i. IndexedAt (e ! i)),
       c_Kind = (\<lambda>i. Kind (e ! i)),
       c_CollectionLen = (\<lambda>i. of_nat (length (Collection (e ! i)))),
       c_DIDLen = (\<lambda>i. of_nat (length (DID (e ! i)))),
       c_RkeyLen = (\<lambda>i. of_nat (length (Rkey (e ! i)))),
       c_RevLen = (\<lambda>i. of_nat (length (Rev (e ! i)))),
       c_PayloadLen = (\<lambda>i. of_nat (length (Payload (e ! i)))),
       c_AppendCollections = append_field Collection e,
       c_AppendDIDs = append_field DID e,
       c_AppendRkeys = append_field Rkey e,
       c_AppendRevs = append_field Rev e,
       c_AppendPayloads = append_field Payload e \<rparr>"

definition encodeBlock :: "event list \<Rightarrow> (seg_error, bytes) result" where
  "encodeBlock events =
     (if length events = 0 then Inl ErrZeroEvents
      else Inr (encodeBlockInto [] (eventColumns events)))"

definition encodeEmptyBlock :: bytes where
  "encodeEmptyBlock = [0, 0, 0, 0]"

subsection \<open>The decoder (block.go)\<close>

definition maxBlockEventsLimit :: nat where
  "maxBlockEventsLimit = 262144"

definition fixedPerEvent :: nat where
  "fixedPerEvent = 8 + 8 + 8 + 1 + 1 + 2 + 1 + 1 + 4"

definition maxInt :: nat where
  "maxInt = 9223372036854775807"

text \<open>\<^verbatim>\<open>read(n)\<close>: the next \<open>n\<close> bytes, or the truncation error.\<close>

definition read_n :: "nat \<Rightarrow> bytes \<Rightarrow> (seg_error, bytes \<times> bytes) result" where
  "read_n n buf = (if n > length buf then Inl ErrTruncatedBlock else Inr (take n buf, drop n buf))"

text \<open>\<^verbatim>\<open>sumU8\<close>, \<^verbatim>\<open>sumU16\<close> and \<^verbatim>\<open>sumU32\<close>: the overflow-trapping sum of a length column.\<close>

fun sum_lens :: "nat \<Rightarrow> nat list \<Rightarrow> (seg_error, nat) result" where
  "sum_lens t [] = Inr t"
| "sum_lens t (v # vs) = (if t + v > maxInt then Inl ErrTruncatedBlock else sum_lens (t + v) vs)"

definition sumU8 :: "bytes \<Rightarrow> (seg_error, nat) result" where
  "sumU8 b = sum_lens 0 (map unat b)"

definition u16_column :: "bytes \<Rightarrow> nat list" where
  "u16_column b = map (\<lambda>c. unat (le_get c :: u16)) (chunks 2 (length b div 2) b)"

definition u32_column :: "bytes \<Rightarrow> nat list" where
  "u32_column b = map (\<lambda>c. unat (le_get c :: u32)) (chunks 4 (length b div 4) b)"

definition sumU16 :: "bytes \<Rightarrow> (seg_error, nat) result" where
  "sumU16 b = sum_lens 0 (u16_column b)"

definition sumU32 :: "bytes \<Rightarrow> (seg_error, nat) result" where
  "sumU32 b = sum_lens 0 (u32_column b)"

text \<open>The row loop at the end of \<^verbatim>\<open>decodeBlock\<close>: row \<open>i\<close> takes its slice of every blob.\<close>

definition make_events ::
  "u64 list \<Rightarrow> i64 list \<Rightarrow> i64 list \<Rightarrow> byte list \<Rightarrow> bytes list \<Rightarrow> bytes list \<Rightarrow> bytes list \<Rightarrow>
   bytes list \<Rightarrow> bytes list \<Rightarrow> event list" where
  "make_events seqs ws is ks colls dids rkeys revs payloads =
     map (\<lambda>i. \<lparr> Seq = seqs ! i, WitnessedAt = ws ! i, IndexedAt = is ! i,
                UpstreamRelayCursor = 0, Kind = ks ! i, DID = dids ! i,
                Collection = colls ! i, Rkey = rkeys ! i, Rev = revs ! i,
                Payload = payloads ! i \<rparr>) [0..<length seqs]"

definition decodeBlock :: "bytes \<Rightarrow> (seg_error, event list) result" where
  "decodeBlock buf =
     (if length buf < 4 then Inl ErrTruncatedBlock
      else
        let n = unat (le_get (take 4 buf) :: u32); buf = drop 4 buf in
        if n > maxBlockEventsLimit then Inl ErrTruncatedBlock
        else if length buf < n * fixedPerEvent then Inl ErrTruncatedBlock
        else if n = 0 then (if buf \<noteq> [] then Inl ErrTruncatedBlock else Inr [])
        else
          rbind (read_n (n * 8) buf) (\<lambda>(seqC, buf).
          rbind (read_n (n * 8) buf) (\<lambda>(witC, buf).
          rbind (read_n (n * 8) buf) (\<lambda>(idxC, buf).
          rbind (read_n n buf) (\<lambda>(kindC, buf).
          if \<not> list_all kind_Valid kindC then Inl ErrTruncatedBlock
          else
          rbind (read_n n buf) (\<lambda>(collLenBytes, buf).
          rbind (read_n (n * 2) buf) (\<lambda>(didLenBytes, buf).
          rbind (read_n n buf) (\<lambda>(rkeyLenBytes, buf).
          rbind (read_n n buf) (\<lambda>(revLenBytes, buf).
          rbind (read_n (n * 4) buf) (\<lambda>(eventLenBytes, buf).
          rbind (sumU8 collLenBytes) (\<lambda>totalCollLen.
          rbind (sumU16 didLenBytes) (\<lambda>totalDIDLen.
          rbind (sumU8 rkeyLenBytes) (\<lambda>totalRkeyLen.
          rbind (sumU8 revLenBytes) (\<lambda>totalRevLen.
          rbind (sumU32 eventLenBytes) (\<lambda>totalPayloadLen.
          rbind (read_n totalCollLen buf) (\<lambda>(collBlob, buf).
          rbind (read_n totalDIDLen buf) (\<lambda>(didBlob, buf).
          rbind (read_n totalRkeyLen buf) (\<lambda>(rkeyBlob, buf).
          rbind (read_n totalRevLen buf) (\<lambda>(revBlob, buf).
          rbind (read_n totalPayloadLen buf) (\<lambda>(payloadBlob, buf).
          if buf \<noteq> [] then Inl ErrTruncatedBlock
          else Inr (make_events
                 (map le_get (chunks 8 n seqC))
                 (map le_get (chunks 8 n witC))
                 (map le_get (chunks 8 n idxC))
                 kindC
                 (cut (map unat collLenBytes) collBlob)
                 (cut (u16_column didLenBytes) didBlob)
                 (cut (map unat rkeyLenBytes) rkeyBlob)
                 (cut (map unat revLenBytes) revBlob)
                 (cut (u32_column eventLenBytes) payloadBlob))))))))))))))))))))))"

subsection \<open>Layout of the encoding\<close>

lemma append_each_eq: "append_each n f dst = dst @ concat (map f [0..<n])"
  unfolding append_each_def by (induction n) auto

lemma append_field_eq: "append_field f evs dst = dst @ concat (map f evs)"
  unfolding append_field_def by (induction evs arbitrary: dst) auto

lemma map_upt_nth: "map (\<lambda>i. g (xs ! i)) [0..<length xs] = map g xs"
  by (rule nth_equalityI) auto

lemma map_singleton_concat: "concat (map (\<lambda>x. [f x]) xs) = map f xs"
  by (induction xs) auto

definition block_layout :: "event list \<Rightarrow> bytes" where
  "block_layout evs =
     le_put 4 (of_nat (length evs) :: u32) @
     concat (map (le_put 8) (map Seq evs)) @
     concat (map (le_put 8) (map WitnessedAt evs)) @
     concat (map (le_put 8) (map IndexedAt evs)) @
     map Kind evs @
     map (\<lambda>e. of_nat (length (Collection e))) evs @
     concat (map (le_put 2) (map (\<lambda>e. of_nat (length (DID e)) :: u16) evs)) @
     map (\<lambda>e. of_nat (length (Rkey e))) evs @
     map (\<lambda>e. of_nat (length (Rev e))) evs @
     concat (map (le_put 4) (map (\<lambda>e. of_nat (length (Payload e)) :: u32) evs)) @
     concat (map Collection evs) @ concat (map DID evs) @ concat (map Rkey evs) @
     concat (map Rev evs) @ concat (map Payload evs)"

lemma column_of_events:
  "concat (map (\<lambda>i. le_put w (g (evs ! i))) [0..<length evs]) = concat (map (le_put w) (map g evs))"
  using map_upt_nth [of "\<lambda>e. le_put w (g e)" evs] by (simp add: comp_def)

lemma byte_column_of_events:
  "concat (map (\<lambda>i. [g (evs ! i)]) [0..<length evs]) = map g evs"
  using map_upt_nth [of "\<lambda>e. [g e]" evs] by (simp add: map_singleton_concat)

lemma encodeBlockInto_layout: "encodeBlockInto dst (eventColumns evs) = dst @ block_layout evs"
  unfolding encodeBlockInto_def Let_def eventColumns_def append_each_eq block_layout_def
  by (simp only: columns.simps append_field_eq append.assoc
      column_of_events [of _ Seq] column_of_events [of _ WitnessedAt]
      column_of_events [of _ IndexedAt] byte_column_of_events [of Kind]
      column_of_events [of _ "\<lambda>e. of_nat (length (DID e))"]
      column_of_events [of _ "\<lambda>e. of_nat (length (Payload e))"]
      byte_column_of_events [of "\<lambda>e. of_nat (length (Collection e))"]
      byte_column_of_events [of "\<lambda>e. of_nat (length (Rkey e))"]
      byte_column_of_events [of "\<lambda>e. of_nat (length (Rev e))"])

subsection \<open>Decoding what was encoded\<close>

lemma read_n_append: "length xs = n \<Longrightarrow> read_n n (xs @ ys) = Inr (xs, ys)"
  by (simp add: read_n_def)

lemma read_n_all: "length xs = n \<Longrightarrow> read_n n xs = Inr (xs, [])"
  by (simp add: read_n_def)

lemma read_n_Inr: "read_n n buf = Inr (xs, ys) \<longleftrightarrow> buf = xs @ ys \<and> length xs = n"
  by (auto simp: read_n_def)

lemma sum_lens_eq: "t + sum_list vs \<le> maxInt \<Longrightarrow> sum_lens t vs = Inr (t + sum_list vs)"
  by (induction vs arbitrary: t) (auto simp: add.assoc)

lemma sum_lens_Inr: "sum_lens t vs = Inr s \<Longrightarrow> s = t + sum_list vs"
  by (induction vs arbitrary: t) (fastforce split: if_splits)+

lemma sum_list_bound: "\<forall>x\<in>set xs. f x \<le> c \<Longrightarrow> sum_list (map f xs) \<le> length xs * (c :: nat)"
  by (induction xs) auto

lemma ValidateEvent_ok:
  "ValidateEvent ev = Inr () \<longleftrightarrow>
     kind_Valid (Kind ev) \<and> length (DID ev) \<le> 65535 \<and> length (Collection ev) \<le> 255 \<and>
     length (Rkey ev) \<le> 255 \<and> length (Rev ev) \<le> 255 \<and> length (Payload ev) \<le> 4294967295"
  by (auto simp: ValidateEvent_def)

lemma u16_column_put:
  assumes "\<forall>e\<in>set evs. f e \<le> 65535"
  shows "u16_column (concat (map (le_put 2) (map (\<lambda>e. of_nat (f e) :: u16) evs))) = map f evs"
proof -
  define vs where "vs = map (\<lambda>e. of_nat (f e) :: u16) evs"
  have "u16_column (concat (map (le_put 2) vs))
      = map unat (map le_get (chunks 2 (length vs) (concat (map (le_put 2) vs))) :: u16 list)"
    unfolding u16_column_def u16.column_length by simp
  also have "\<dots> = map unat vs"
    by (simp only: u16.column_decode)
  also have "\<dots> = map f evs"
    using assms by (simp add: vs_def unat_of_nat_le)
  finally show ?thesis unfolding vs_def .
qed

lemma u32_column_put:
  assumes "\<forall>e\<in>set evs. f e \<le> 4294967295"
  shows "u32_column (concat (map (le_put 4) (map (\<lambda>e. of_nat (f e) :: u32) evs))) = map f evs"
proof -
  define vs where "vs = map (\<lambda>e. of_nat (f e) :: u32) evs"
  have "u32_column (concat (map (le_put 4) vs))
      = map unat (map le_get (chunks 4 (length vs) (concat (map (le_put 4) vs))) :: u32 list)"
    unfolding u32_column_def u32.column_length by simp
  also have "\<dots> = map unat vs"
    by (simp only: u32.column_decode)
  also have "\<dots> = map f evs"
    using assms by (simp add: vs_def unat_of_nat_le)
  finally show ?thesis unfolding vs_def .
qed

lemma u8_column_put:
  assumes "\<forall>e\<in>set evs. f e \<le> 255"
  shows "map unat (map (\<lambda>e. of_nat (f e) :: byte) evs) = map f evs"
  using assms by (simp add: unat_of_nat_le)

lemma make_events_map:
  "make_events (map Seq evs) (map WitnessedAt evs) (map IndexedAt evs) (map Kind evs)
     (map Collection evs) (map DID evs) (map Rkey evs) (map Rev evs) (map Payload evs)
   = map (\<lambda>e. e\<lparr>UpstreamRelayCursor := 0\<rparr>) evs"
  unfolding make_events_def by (rule nth_equalityI) auto

lemma cut_field: "cut (map (\<lambda>e. length (f e)) evs) (concat (map f evs)) = map f evs"
  using cut_concat [of "map f evs"] by (simp add: comp_def)

lemma length_concat_field: "length (concat (map f evs)) = sum_list (map (\<lambda>e. length (f e)) evs)"
  by (simp add: length_concat comp_def)

lemma sum_field_bound:
  assumes "\<forall>e\<in>set evs. f e \<le> 4294967295" and "length evs \<le> maxBlockEventsLimit"
  shows "sum_list (map f evs) \<le> maxInt"
proof -
  have "sum_list (map f evs) \<le> length evs * 4294967295"
    by (rule sum_list_bound [OF assms(1)])
  also have "\<dots> \<le> 262144 * 4294967295"
    using assms(2) by (simp add: maxBlockEventsLimit_def)
  finally show ?thesis by (simp add: maxInt_def)
qed

lemma decodeBlock_layout:
  assumes valid: "\<forall>e\<in>set evs. ValidateEvent e = Inr ()"
    and len: "0 < length evs" "length evs \<le> maxBlockEventsLimit"
  shows "decodeBlock (block_layout evs) = Inr (map (\<lambda>e. e\<lparr>UpstreamRelayCursor := 0\<rparr>) evs)"
proof -
  have widths: "\<forall>e\<in>set evs. length (DID e) \<le> 65535" "\<forall>e\<in>set evs. length (Collection e) \<le> 255"
      "\<forall>e\<in>set evs. length (Rkey e) \<le> 255" "\<forall>e\<in>set evs. length (Rev e) \<le> 255"
      "\<forall>e\<in>set evs. length (Payload e) \<le> 4294967295"
    and kinds: "list_all kind_Valid (map Kind evs)"
    using valid by (auto simp: ValidateEvent_ok list_all_iff)
  have sums: "sum_list (map (\<lambda>e. length (f e)) evs) \<le> maxInt"
    if "\<forall>e\<in>set evs. length (f e) \<le> 4294967295" for f :: "event \<Rightarrow> bytes"
    using that len(2) by (rule sum_field_bound)
  have "length evs < 2 ^ 32"
    using len(2) by (simp add: maxBlockEventsLimit_def)
  then have count: "unat (of_nat (length evs) :: u32) = length evs"
    by (intro unat_of_nat_less) simp
  have s: "sumU8 (map (\<lambda>e. of_nat (length (f e))) evs) = Inr (length (concat (map f evs)))"
    if "\<forall>e\<in>set evs. length (f e) \<le> 255" for f :: "event \<Rightarrow> bytes"
    using that sums [of f] unfolding sumU8_def length_concat_field
    by (subst u8_column_put) (force simp: sum_lens_eq)+
  have sd: "sumU16 (concat (map (le_put 2) (map (\<lambda>e. of_nat (length (DID e)) :: u16) evs)))
      = Inr (length (concat (map DID evs)))"
    unfolding sumU16_def u16_column_put [OF widths(1)] length_concat_field
    using sums [of DID] widths(1) by (force simp: sum_lens_eq)
  have sp: "sumU32 (concat (map (le_put 4) (map (\<lambda>e. of_nat (length (Payload e)) :: u32) evs)))
      = Inr (length (concat (map Payload evs)))"
    unfolding sumU32_def u32_column_put [OF widths(5)] length_concat_field
    using sums [of Payload] widths(5) by (force simp: sum_lens_eq)
  have c8: "cut (map unat (map (\<lambda>e. of_nat (length (f e)) :: byte) evs)) (concat (map f evs)) = map f evs"
    if "\<forall>e\<in>set evs. length (f e) \<le> 255" for f :: "event \<Rightarrow> bytes"
    using that by (simp only: u8_column_put cut_field)
  have cl: "length (concat (map (le_put 8) vs)) = length vs * 8" for vs :: "u64 list"
    by (rule u64.column_length)
  have g: "map le_get (chunks 8 (length evs) (concat (map (le_put 8) (map f evs)))) = map f evs"
    for f :: "event \<Rightarrow> u64"
    using u64.column_decode [of "map f evs"] by simp
  show ?thesis
    unfolding decodeBlock_def block_layout_def
    using len count kinds
    by (simp add: Let_def fixedPerEvent_def le_get_put read_n_append read_n_all cl
        u16.column_length u32.column_length s sd sp widths
        del: map_map)
      (simp add: g c8 widths u16_column_put u32_column_put cut_field make_events_map del: map_map)
qed

subsection \<open>Encoding what was decoded\<close>

lemma map_make_events:
  assumes "length ws = length ss" "length is = length ss" "length ks = length ss"
    "length cs = length ss" "length ds = length ss" "length rs = length ss"
    "length vs = length ss" "length ps = length ss"
  shows "map Seq (make_events ss ws is ks cs ds rs vs ps) = ss"
    and "map WitnessedAt (make_events ss ws is ks cs ds rs vs ps) = ws"
    and "map IndexedAt (make_events ss ws is ks cs ds rs vs ps) = is"
    and "map Kind (make_events ss ws is ks cs ds rs vs ps) = ks"
    and "map Collection (make_events ss ws is ks cs ds rs vs ps) = cs"
    and "map DID (make_events ss ws is ks cs ds rs vs ps) = ds"
    and "map Rkey (make_events ss ws is ks cs ds rs vs ps) = rs"
    and "map Rev (make_events ss ws is ks cs ds rs vs ps) = vs"
    and "map Payload (make_events ss ws is ks cs ds rs vs ps) = ps"
    and "length (make_events ss ws is ks cs ds rs vs ps) = length ss"
    and "map UpstreamRelayCursor (make_events ss ws is ks cs ds rs vs ps) = replicate (length ss) 0"
  using assms unfolding make_events_def by (auto intro!: nth_equalityI)

lemma u16_column_back:
  assumes "length b = n * 2" "sum_list (u16_column b) = length blob"
  shows "concat (map (le_put 2) (map (\<lambda>x. of_nat (length x) :: u16) (cut (u16_column b) blob))) = b"
proof -
  have "map (\<lambda>x. of_nat (length x) :: u16) (cut (u16_column b) blob) = map of_nat (u16_column b)"
    by (rule map_of_length_cut [OF assms(2)])
  also have "\<dots> = map le_get (chunks 2 n b)"
    using assms(1) by (simp add: u16_column_def comp_def)
  finally show ?thesis using u16.column_encode [OF assms(1)] by simp
qed

lemma u32_column_back:
  assumes "length b = n * 4" "sum_list (u32_column b) = length blob"
  shows "concat (map (le_put 4) (map (\<lambda>x. of_nat (length x) :: u32) (cut (u32_column b) blob))) = b"
proof -
  have "map (\<lambda>x. of_nat (length x) :: u32) (cut (u32_column b) blob) = map of_nat (u32_column b)"
    by (rule map_of_length_cut [OF assms(2)])
  also have "\<dots> = map le_get (chunks 4 n b)"
    using assms(1) by (simp add: u32_column_def comp_def)
  finally show ?thesis using u32.column_encode [OF assms(1)] by simp
qed

lemma u8_column_back:
  assumes "sum_list (map unat b) = length blob"
  shows "map (\<lambda>x. of_nat (length x) :: byte) (cut (map unat b) blob) = b"
proof -
  have "map (\<lambda>x. of_nat (length x) :: byte) (cut (map unat b) blob) = map of_nat (map unat b)"
    by (rule map_of_length_cut [OF assms])
  then show ?thesis by (simp add: comp_def)
qed

lemma map_field_comp: "map f evs = xs \<Longrightarrow> map (\<lambda>e. g (f e)) evs = map g xs"
  by auto

lemma bound_by_column:
  assumes "map f evs = xs" "\<forall>x\<in>set xs. P x"
  shows "\<forall>e\<in>set evs. P (f e)"
  using assms by auto

lemma cut_bound:
  assumes "sum_list ls = length blob" "\<forall>l\<in>set ls. l \<le> m"
  shows "\<forall>x\<in>set (cut ls blob). length x \<le> m"
  using map_length_cut [OF assms(1)] assms(2) by (metis image_eqI list.set_map)

lemma unat_byte_bound: "unat (w :: byte) \<le> 255"
  using unsigned_less [of w, where 'a = nat] by simp

lemma unat_u16_bound: "unat (w :: u16) \<le> 65535"
  using unsigned_less [of w, where 'a = nat] by simp

lemma unat_u32_bound: "unat (w :: u32) \<le> 4294967295"
  using unsigned_less [of w, where 'a = nat] by simp

lemma rbind_read_E:
  assumes "rbind (read_n n buf) (\<lambda>(xs, ys). F xs ys) = Inr r"
  obtains xs ys where "buf = xs @ ys" "length xs = n" "F xs ys = Inr r"
  using assms by (auto simp: rbind_Inr_iff read_n_Inr)

lemma rbind_sum_E:
  assumes "rbind (sum_lens 0 vs) F = Inr r"
  obtains "F (sum_list vs) = Inr r"
  using assms by (auto simp: rbind_Inr_iff dest: sum_lens_Inr)

lemma if_Inl_E:
  assumes "(if b then Inl e else m) = Inr r"
  obtains "\<not> b" "m = Inr r"
  using assms by (auto split: if_splits)

lemma decodeBlock_nonempty:
  assumes "decodeBlock buf = Inr evs" "evs \<noteq> []"
  obtains hdr seqC witC idxC kindC cl dl kl vl pl cb db kb vb pb n where
    "buf = hdr @ seqC @ witC @ idxC @ kindC @ cl @ dl @ kl @ vl @ pl @ cb @ db @ kb @ vb @ pb"
    "length hdr = 4" "n = unat (le_get hdr :: u32)" "0 < n" "n \<le> maxBlockEventsLimit"
    "length seqC = n * 8" "length witC = n * 8" "length idxC = n * 8" "length kindC = n"
    "length cl = n" "length dl = n * 2" "length kl = n" "length vl = n" "length pl = n * 4"
    "list_all kind_Valid kindC"
    "sum_list (map unat cl) = length cb" "sum_list (u16_column dl) = length db"
    "sum_list (map unat kl) = length kb" "sum_list (map unat vl) = length vb"
    "sum_list (u32_column pl) = length pb"
    "evs = make_events (map le_get (chunks 8 n seqC)) (map le_get (chunks 8 n witC))
       (map le_get (chunks 8 n idxC)) kindC (cut (map unat cl) cb) (cut (u16_column dl) db)
       (cut (map unat kl) kb) (cut (map unat vl) vb) (cut (u32_column pl) pb)"
proof -
  define n where "n = unat (le_get (take 4 buf) :: u32)"
  note d = assms(1) [unfolded decodeBlock_def Let_def, folded n_def]
  from d assms(2) have pre: "4 \<le> length buf" "0 < n" "n \<le> maxBlockEventsLimit"
    by (auto split: if_splits)
  have buf: "buf = take 4 buf @ drop 4 buf" "length (take 4 buf) = 4"
    using pre(1) by auto
  have nz: "(n = 0) = False" "(length buf < 4) = False" "(maxBlockEventsLimit < n) = False"
    using pre by auto
  have sz: "(length (drop 4 buf) < n * fixedPerEvent) = False"
    using d assms(2) by (auto split: if_splits)
  show thesis
    using d [unfolded nz sz if_False]
    apply (elim rbind_read_E if_Inl_E)
    apply (unfold sumU8_def sumU16_def sumU32_def)
    apply (elim rbind_sum_E rbind_read_E if_Inl_E)
    subgoal for sq _ wt _ ix _ kn _ cl _ dl _ kl _ vl _ pl _ cb _ db _ kb _ vb _ pb _
      using buf by (intro that [of "take 4 buf" sq wt ix kn cl dl kl vl pl cb db kb vb pb n,
            OF _ _ n_def pre(2,3)]) simp_all
    done
qed

lemma decodeBlock_canonical:
  assumes "decodeBlock buf = Inr evs" "evs \<noteq> []"
  shows "buf = block_layout evs" and "\<forall>e\<in>set evs. ValidateEvent e = Inr () \<and> UpstreamRelayCursor e = 0"
    and "length evs \<le> maxBlockEventsLimit"
proof -
  obtain hdr seqC witC idxC kindC cl dl kl vl pl cb db kb vb pb n where
    buf: "buf = hdr @ seqC @ witC @ idxC @ kindC @ cl @ dl @ kl @ vl @ pl @ cb @ db @ kb @ vb @ pb"
    and hdr: "length hdr = 4" "n = unat (le_get hdr :: u32)" and n: "0 < n" "n \<le> maxBlockEventsLimit"
    and len: "length seqC = n * 8" "length witC = n * 8" "length idxC = n * 8" "length kindC = n"
    "length cl = n" "length dl = n * 2" "length kl = n" "length vl = n" "length pl = n * 4"
    and kinds: "list_all kind_Valid kindC"
    and sums: "sum_list (map unat cl) = length cb" "sum_list (u16_column dl) = length db"
    "sum_list (map unat kl) = length kb" "sum_list (map unat vl) = length vb"
    "sum_list (u32_column pl) = length pb"
    and evs: "evs = make_events (map le_get (chunks 8 n seqC)) (map le_get (chunks 8 n witC))
       (map le_get (chunks 8 n idxC)) kindC (cut (map unat cl) cb) (cut (u16_column dl) db)
       (cut (map unat kl) kb) (cut (map unat vl) vb) (cut (u32_column pl) pb)"
    using assms by (rule decodeBlock_nonempty)
  have lc: "length (u16_column dl) = n" "length (u32_column pl) = n"
    using len by (simp_all add: u16_column_def u32_column_def)
  have ev: "map Seq evs = map le_get (chunks 8 n seqC)"
      "map WitnessedAt evs = map le_get (chunks 8 n witC)"
      "map IndexedAt evs = map le_get (chunks 8 n idxC)"
      "map Kind evs = kindC"
      "map Collection evs = cut (map unat cl) cb"
      "map DID evs = cut (u16_column dl) db"
      "map Rkey evs = cut (map unat kl) kb"
      "map Rev evs = cut (map unat vl) vb"
      "map Payload evs = cut (u32_column pl) pb"
      "length evs = n"
      "map UpstreamRelayCursor evs = replicate n 0"
    unfolding evs by (simp_all add: map_make_events len lc del: map_map)
  have hdr': "le_put 4 (of_nat (length evs) :: u32) = hdr"
    unfolding ev(10) hdr(2) by (simp add: le_put_get_width hdr(1))
  show "buf = block_layout evs"
    unfolding buf block_layout_def hdr' ev(1-4)
      map_field_comp [OF ev(5), of "\<lambda>x. of_nat (length x)"] map_field_comp [OF ev(6), of "\<lambda>x. of_nat (length x)"] map_field_comp [OF ev(7), of "\<lambda>x. of_nat (length x)"]
      map_field_comp [OF ev(8), of "\<lambda>x. of_nat (length x)"] map_field_comp [OF ev(9), of "\<lambda>x. of_nat (length x)"] ev(5-9)
      u64.column_encode [OF len(1)] u64.column_encode [OF len(2)] u64.column_encode [OF len(3)]
      u8_column_back [OF sums(1)] u8_column_back [OF sums(3)] u8_column_back [OF sums(4)]
      u16_column_back [OF len(6) sums(2)] u32_column_back [OF len(9) sums(5)]
      concat_cut [OF sums(1)] concat_cut [OF sums(2)] concat_cut [OF sums(3)]
      concat_cut [OF sums(4)] concat_cut [OF sums(5)] ..
  show "length evs \<le> maxBlockEventsLimit"
    using ev(10) n by simp
  have "\<forall>e\<in>set evs. kind_Valid (Kind e)"
    by (rule bound_by_column [OF ev(4)]) (use kinds in \<open>simp add: list_all_iff\<close>)
  moreover have "\<forall>e\<in>set evs. length (Collection e) \<le> 255"
    by (rule bound_by_column [OF ev(5)], rule cut_bound [OF sums(1)]) (auto simp: unat_byte_bound)
  moreover have "\<forall>e\<in>set evs. length (DID e) \<le> 65535"
    by (rule bound_by_column [OF ev(6)], rule cut_bound [OF sums(2)])
      (auto simp: u16_column_def unat_u16_bound)
  moreover have "\<forall>e\<in>set evs. length (Rkey e) \<le> 255"
    by (rule bound_by_column [OF ev(7)], rule cut_bound [OF sums(3)]) (auto simp: unat_byte_bound)
  moreover have "\<forall>e\<in>set evs. length (Rev e) \<le> 255"
    by (rule bound_by_column [OF ev(8)], rule cut_bound [OF sums(4)]) (auto simp: unat_byte_bound)
  moreover have "\<forall>e\<in>set evs. length (Payload e) \<le> 4294967295"
    by (rule bound_by_column [OF ev(9)], rule cut_bound [OF sums(5)])
      (auto simp: u32_column_def unat_u32_bound)
  moreover have "\<forall>e\<in>set evs. UpstreamRelayCursor e = 0"
    by (rule bound_by_column [OF ev(11)]) simp
  ultimately show "\<forall>e\<in>set evs. ValidateEvent e = Inr () \<and> UpstreamRelayCursor e = 0"
    by (auto simp: ValidateEvent_ok)
qed

lemma decodeBlock_empty:
  assumes "decodeBlock buf = Inr []"
  shows "buf = encodeEmptyBlock"
proof -
  have n: "unat (le_get (take 4 buf) :: u32) = 0"
  proof (rule ccontr)
    assume "unat (le_get (take 4 buf) :: u32) \<noteq> 0"
    then show False
      using assms unfolding decodeBlock_def Let_def sumU8_def sumU16_def sumU32_def
      by (elim if_Inl_E) (auto elim!: rbind_read_E if_Inl_E rbind_sum_E simp: make_events_def)
  qed
  with assms have "length (take 4 buf) = 4" "drop 4 buf = []"
    by (auto simp: decodeBlock_def split: if_splits)
  then have "take 4 buf = buf" "length buf = 4" by auto
  then have "buf = le_put 4 (le_get buf :: u32)"
    by (simp add: le_put_get_width)
  also have "\<dots> = encodeEmptyBlock"
    using n \<open>take 4 buf = buf\<close> by (simp add: unat_eq_0 encodeEmptyBlock_def numeral_eq_Suc)
  finally show ?thesis .
qed

subsection \<open>Properties of the block codec\<close>

text \<open>C15: round trip of a block. Any non-empty list of at most \<^verbatim>\<open>maxBlockEventsLimit\<close> events that pass
  \<^verbatim>\<open>ValidateEvent\<close> is encoded, and decoding the encoding returns the same events, field by field, except
  for the upstream relay cursor, which the block format does not store.\<close>

theorem encodeBlock_roundtrip:
  assumes "\<forall>e\<in>set evs. ValidateEvent e = Inr ()"
    and "0 < length evs" and "length evs \<le> maxBlockEventsLimit"
  shows "\<exists>buf. encodeBlock evs = Inr buf \<and>
           decodeBlock buf = Inr (map (\<lambda>e. e\<lparr>UpstreamRelayCursor := 0\<rparr>) evs)"
  using decodeBlock_layout [OF assms] assms(2)
  by (simp add: encodeBlock_def encodeBlockInto_layout)

definition sample_event :: event where
  "sample_event = \<lparr> Seq = 258, WitnessedAt = 5, IndexedAt = 0, UpstreamRelayCursor = 9, Kind = 1,
     DID = [100, 105, 100], Collection = [97], Rkey = [98, 99], Rev = [], Payload = [1, 2, 3] \<rparr>"

theorem encodeBlock_roundtrip_witness:
  "\<exists>buf. encodeBlock [sample_event, sample_event] = Inr buf \<and>
     decodeBlock buf = Inr (map (\<lambda>e. e\<lparr>UpstreamRelayCursor := 0\<rparr>) [sample_event, sample_event])"
  by (rule encodeBlock_roundtrip)
    (simp_all add: ValidateEvent_ok sample_event_def kind_Valid_def kind_defs maxBlockEventsLimit_def)

text \<open>C29: the decoder accepts exactly the encoder's output. Whenever \<^verbatim>\<open>decodeBlock\<close> accepts a buffer, every
  row it returns passes \<^verbatim>\<open>ValidateEvent\<close>, the row count is within the limit, and the buffer is
  bit for bit the encoding of the returned rows (or the explicit empty block): no truncated, padded or
  otherwise malformed body is ever read as events.\<close>

theorem decodeBlock_exact:
  assumes "decodeBlock buf = Inr evs"
  shows "(if evs = [] then buf = encodeEmptyBlock else encodeBlock evs = Inr buf) \<and>
         length evs \<le> maxBlockEventsLimit \<and> (\<forall>e\<in>set evs. ValidateEvent e = Inr ())"
proof (cases "evs = []")
  case True
  with assms show ?thesis by (simp add: decodeBlock_empty)
next
  case False
  with decodeBlock_canonical [OF assms False] show ?thesis
    by (simp add: encodeBlock_def encodeBlockInto_layout)
qed

theorem decodeBlock_exact_witness:
  "decodeBlock [0, 0, 0, 0] = Inr [] \<and> [0, 0, 0, 0] = encodeEmptyBlock"
proof -
  have d: "decodeBlock [0, 0, 0, 0] = Inr []"
    by (simp add: decodeBlock_def maxBlockEventsLimit_def)
  from decodeBlock_exact [OF d] d show ?thesis by simp
qed

end
