(* ===== verification/SegmentWriter.thy ===== *)
theory SegmentWriter
  imports SegmentBlock
begin

text \<open>
  The active segment file and its writer (\<^verbatim>\<open>jetstream/segment/writer.go\<close>, and the active-file scan of
  \<^verbatim>\<open>jetstream/segment/scan.go\<close>). The file is the byte list the operating system holds; every operation
  that writes takes the outcome of its \<^verbatim>\<open>WriteAt\<close> and of its fsync as an argument. The zstd codec is a
  third-party package: \<open>zc\<close> compresses a block body and \<open>dz\<close> decompresses a frame.
\<close>

subsection \<open>State (writer.go)\<close>

record BlockInfo =
  Offset :: u64
  CompressedSize :: u32
  UncompressedSize :: u32
  EventCount :: u32
  MinSeq :: u64
  MaxSeq :: u64
  MinWitnessedAt :: i64
  MaxWitnessedAt :: i64

record pendingBlock =
  p_seq :: "u64 list"
  p_witnessedAt :: "i64 list"
  p_indexedAt :: "i64 list"
  p_kind :: "byte list"
  p_collLen :: "byte list"
  p_didLen :: "u16 list"
  p_rkeyLen :: "byte list"
  p_revLen :: "byte list"
  p_eventLen :: "u32 list"
  p_collections :: bytes
  p_dids :: bytes
  p_rkeys :: bytes
  p_revs :: bytes
  p_payloads :: bytes
  p_minSeq :: u64
  p_maxSeq :: u64
  p_minWitnessedAt :: i64
  p_maxWitnessedAt :: i64
  p_sawAny :: bool

definition pending_reset :: pendingBlock where
  "pending_reset = \<lparr> p_seq = [], p_witnessedAt = [], p_indexedAt = [], p_kind = [], p_collLen = [],
     p_didLen = [], p_rkeyLen = [], p_revLen = [], p_eventLen = [], p_collections = [], p_dids = [],
     p_rkeys = [], p_revs = [], p_payloads = [], p_minSeq = 0, p_maxSeq = 0,
     p_minWitnessedAt = 0, p_maxWitnessedAt = 0, p_sawAny = False \<rparr>"

definition pending_count :: "pendingBlock \<Rightarrow> nat" where
  "pending_count p = length (p_seq p)"

text \<open>The pending block as the encoder sees it: the \<^verbatim>\<open>columns\<close> methods of \<^verbatim>\<open>pendingBlock\<close>.\<close>

definition pendingColumns :: "pendingBlock \<Rightarrow> columns" where
  "pendingColumns p =
     \<lparr> c_Len = pending_count p,
       c_Seq = (\<lambda>i. p_seq p ! i),
       c_WitnessedAt = (\<lambda>i. p_witnessedAt p ! i),
       c_IndexedAt = (\<lambda>i. p_indexedAt p ! i),
       c_Kind = (\<lambda>i. p_kind p ! i),
       c_CollectionLen = (\<lambda>i. p_collLen p ! i),
       c_DIDLen = (\<lambda>i. p_didLen p ! i),
       c_RkeyLen = (\<lambda>i. p_rkeyLen p ! i),
       c_RevLen = (\<lambda>i. p_revLen p ! i),
       c_PayloadLen = (\<lambda>i. p_eventLen p ! i),
       c_AppendCollections = (\<lambda>dst. dst @ p_collections p),
       c_AppendDIDs = (\<lambda>dst. dst @ p_dids p),
       c_AppendRkeys = (\<lambda>dst. dst @ p_rkeys p),
       c_AppendRevs = (\<lambda>dst. dst @ p_revs p),
       c_AppendPayloads = (\<lambda>dst. dst @ p_payloads p) \<rparr>"

text \<open>A prepared block; that it belongs to this writer is the boolean \<open>pb_owned\<close>.\<close>

record PreparedBlock =
  pb_Body :: bytes
  pb_info :: BlockInfo
  pb_owned :: bool
  pb_id :: nat
  pb_committed :: bool

record segwriter =
  w_MaxEventsPerBlock :: nat
  w_file :: bytes
  w_pending :: pendingBlock
  w_closed :: bool
  w_stickyErr :: "seg_error option"
  w_flushedBlocks :: "BlockInfo list"
  w_nextBlockOffset :: nat
  w_nextPreparedBlockID :: nat
  w_nextPreparedCommitID :: nat
  w_preparedOutstanding :: nat

text \<open>The outcome of one \<^verbatim>\<open>WriteAt\<close>, which may fail after \<open>k\<close> bytes, of the fsync after it and of the
  file close that \<^verbatim>\<open>Close\<close> ends with.\<close>

record io =
  io_write_fail :: "nat option"
  io_sync_ok :: bool
  io_close_ok :: bool

definition ReservedHeaderBytes :: nat where
  "ReservedHeaderBytes = 256"

definition segmentMagic :: bytes where
  "segmentMagic = [106, 115, 115, 48]"

definition initializeNewSegment :: bytes where
  "initializeNewSegment = segmentMagic @ replicate (ReservedHeaderBytes - length segmentMagic) 0"

subsection \<open>Append\<close>

definition pending_append :: "event \<Rightarrow> pendingBlock \<Rightarrow> pendingBlock" where
  "pending_append ev p =
     (let p = p\<lparr> p_seq := p_seq p @ [Seq ev],
                 p_witnessedAt := p_witnessedAt p @ [WitnessedAt ev],
                 p_indexedAt := p_indexedAt p @ [IndexedAt ev],
                 p_kind := p_kind p @ [Kind ev],
                 p_collLen := p_collLen p @ [of_nat (length (Collection ev))],
                 p_didLen := p_didLen p @ [of_nat (length (DID ev))],
                 p_rkeyLen := p_rkeyLen p @ [of_nat (length (Rkey ev))],
                 p_revLen := p_revLen p @ [of_nat (length (Rev ev))],
                 p_eventLen := p_eventLen p @ [of_nat (length (Payload ev))],
                 p_collections := p_collections p @ Collection ev,
                 p_dids := p_dids p @ DID ev,
                 p_rkeys := p_rkeys p @ Rkey ev,
                 p_revs := p_revs p @ Rev ev,
                 p_payloads := p_payloads p @ Payload ev \<rparr>
      in if \<not> p_sawAny p
         then p\<lparr> p_minSeq := Seq ev, p_maxSeq := Seq ev,
                 p_minWitnessedAt := WitnessedAt ev, p_maxWitnessedAt := WitnessedAt ev,
                 p_sawAny := True \<rparr>
         else p\<lparr> p_minSeq := (if Seq ev < p_minSeq p then Seq ev else p_minSeq p),
                 p_maxSeq := (if Seq ev > p_maxSeq p then Seq ev else p_maxSeq p),
                 p_minWitnessedAt := (if sint (WitnessedAt ev) < sint (p_minWitnessedAt p)
                                      then WitnessedAt ev else p_minWitnessedAt p),
                 p_maxWitnessedAt := (if sint (WitnessedAt ev) > sint (p_maxWitnessedAt p)
                                      then WitnessedAt ev else p_maxWitnessedAt p) \<rparr>)"

definition seg_Append :: "event \<Rightarrow> segwriter \<Rightarrow> (seg_error, bool) result \<times> segwriter" where
  "seg_Append ev w =
     (if w_closed w then (Inl ErrClosed, w)
      else case w_stickyErr w of Some e \<Rightarrow> (Inl e, w) | None \<Rightarrow>
        if pending_count (w_pending w) \<ge> w_MaxEventsPerBlock w then (Inl ErrBufferFull, w)
        else case ValidateEvent ev of Inl e \<Rightarrow> (Inl e, w) | Inr _ \<Rightarrow>
          let p = pending_append ev (w_pending w)
          in (Inr (pending_count p \<ge> w_MaxEventsPerBlock w), w\<lparr>w_pending := p\<rparr>))"

subsection \<open>Flush, PrepareFlush, CommitPreparedFlush, Close\<close>

definition pending_info :: "pendingBlock \<Rightarrow> bytes \<Rightarrow> BlockInfo" where
  "pending_info p body = \<lparr> Offset = 0, CompressedSize = 0,
     UncompressedSize = of_nat (length body), EventCount = of_nat (pending_count p),
     MinSeq = p_minSeq p, MaxSeq = p_maxSeq p,
     MinWitnessedAt = p_minWitnessedAt p, MaxWitnessedAt = p_maxWitnessedAt p \<rparr>"

definition flushLocked ::
  "(bytes \<Rightarrow> bytes) \<Rightarrow> io \<Rightarrow> segwriter \<Rightarrow> (seg_error, unit) result \<times> segwriter" where
  "flushLocked zc io w =
     (case w_stickyErr w of Some e \<Rightarrow> (Inl e, w) | None \<Rightarrow>
      if pending_count (w_pending w) = 0 then (Inr (), w)
      else
        let body = encodeBlockInto [] (pendingColumns (w_pending w));
            frame = zc body;
            wire = le_put 8 (of_nat (length frame) :: u64) @ frame
        in case io_write_fail io of
             Some k \<Rightarrow> (Inl ErrWrite, w\<lparr> w_file := WriteAt (take k wire) (w_nextBlockOffset w) (w_file w),
                                         w_stickyErr := Some ErrWrite \<rparr>)
           | None \<Rightarrow>
             let info = (pending_info (w_pending w) body)
                          \<lparr> Offset := of_nat (w_nextBlockOffset w),
                            CompressedSize := of_nat (length frame) \<rparr>;
                 w = w\<lparr> w_file := WriteAt wire (w_nextBlockOffset w) (w_file w),
                        w_flushedBlocks := w_flushedBlocks w @ [info],
                        w_nextBlockOffset := w_nextBlockOffset w + length wire,
                        w_pending := pending_reset \<rparr>
             in if io_sync_ok io then (Inr (), w)
                else (Inl ErrSync, w\<lparr>w_stickyErr := Some ErrSync\<rparr>))"

definition seg_Flush ::
  "(bytes \<Rightarrow> bytes) \<Rightarrow> io \<Rightarrow> segwriter \<Rightarrow> (seg_error, unit) result \<times> segwriter" where
  "seg_Flush zc io w =
     (if w_closed w then (Inl ErrClosed, w)
      else case w_stickyErr w of Some e \<Rightarrow> (Inl e, w) | None \<Rightarrow> flushLocked zc io w)"

definition seg_Close ::
  "(bytes \<Rightarrow> bytes) \<Rightarrow> io \<Rightarrow> segwriter \<Rightarrow> (seg_error, unit) result \<times> segwriter" where
  "seg_Close zc io w =
     (if w_closed w then (Inr (), w)
      else case w_stickyErr w of Some e \<Rightarrow> (Inl e, w) | None \<Rightarrow>
        if w_preparedOutstanding w > 0 then (Inl ErrPreparedOutstanding, w)
        else case flushLocked zc io (w\<lparr>w_closed := True\<rparr>) of
          (Inl e, w) \<Rightarrow> (Inl e, w)
        | (Inr _, w) \<Rightarrow> (if io_close_ok io then Inr () else Inl ErrFileClose, w))"

definition PrepareFlush :: "segwriter \<Rightarrow> (seg_error, PreparedBlock option) result \<times> segwriter" where
  "PrepareFlush w =
     (case w_stickyErr w of Some e \<Rightarrow> (Inl e, w) | None \<Rightarrow>
      if pending_count (w_pending w) = 0 then (Inr None, w)
      else
        let body = encodeBlockInto [] (pendingColumns (w_pending w));
            prepared = \<lparr> pb_Body = body, pb_info = pending_info (w_pending w) body, pb_owned = True,
                         pb_id = w_nextPreparedBlockID w, pb_committed = False \<rparr>
        in (Inr (Some prepared),
            w\<lparr> w_pending := pending_reset,
               w_nextPreparedBlockID := w_nextPreparedBlockID w + 1,
               w_preparedOutstanding := w_preparedOutstanding w + 1 \<rparr>))"

text \<open>The commit returns the prepared block with its new \<^verbatim>\<open>committed\<close> flag as well.\<close>

definition commitPreparedFlushLocked ::
  "io \<Rightarrow> PreparedBlock \<Rightarrow> bytes \<Rightarrow> segwriter \<Rightarrow> (seg_error, unit) result \<times> PreparedBlock \<times> segwriter" where
  "commitPreparedFlushLocked io prepared frame w =
     (case w_stickyErr w of Some e \<Rightarrow> (Inl e, prepared, w) | None \<Rightarrow>
      if \<not> pb_owned prepared then (Inl ErrPreparedOwner, prepared, w)
      else if pb_committed prepared then (Inl ErrPreparedCommitted, prepared, w)
      else if pb_id prepared \<noteq> w_nextPreparedCommitID w then (Inl ErrPreparedOrder, prepared, w)
      else
        let wire = le_put 8 (of_nat (length frame) :: u64) @ frame
        in case io_write_fail io of
             Some k \<Rightarrow> (Inl ErrWrite, prepared,
                        w\<lparr> w_file := WriteAt (take k wire) (w_nextBlockOffset w) (w_file w),
                           w_stickyErr := Some ErrWrite \<rparr>)
           | None \<Rightarrow>
             let info = (pb_info prepared)\<lparr> Offset := of_nat (w_nextBlockOffset w),
                                            CompressedSize := of_nat (length frame) \<rparr>;
                 w = w\<lparr> w_file := WriteAt wire (w_nextBlockOffset w) (w_file w),
                        w_flushedBlocks := w_flushedBlocks w @ [info],
                        w_nextBlockOffset := w_nextBlockOffset w + length wire \<rparr>
             in if io_sync_ok io
                then (Inr (), prepared\<lparr>pb_committed := True\<rparr>,
                      w\<lparr> w_nextPreparedCommitID := w_nextPreparedCommitID w + 1,
                         w_preparedOutstanding := w_preparedOutstanding w - 1 \<rparr>)
                else (Inl ErrSync, prepared, w\<lparr>w_stickyErr := Some ErrSync\<rparr>))"

definition CommitPreparedFlush ::
  "io \<Rightarrow> PreparedBlock option \<Rightarrow> bytes \<Rightarrow> segwriter \<Rightarrow>
   (seg_error, unit) result \<times> PreparedBlock option \<times> segwriter" where
  "CommitPreparedFlush io prepared frame w =
     (case prepared of None \<Rightarrow> (Inr (), None, w)
      | Some pb \<Rightarrow> (case commitPreparedFlushLocked io pb frame w of (r, pb', w') \<Rightarrow> (r, Some pb', w')))"

subsection \<open>SnapshotPending, Blocks, FlushedRangeFromSeq\<close>

definition seg_Blocks :: "segwriter \<Rightarrow> BlockInfo list" where
  "seg_Blocks w = (if w_closed w then [] else w_flushedBlocks w)"

definition SnapshotPending :: "segwriter \<Rightarrow> event list" where
  "SnapshotPending w =
     (let p = w_pending w in
      make_events (p_seq p) (p_witnessedAt p) (p_indexedAt p) (p_kind p)
        (cut (map unat (p_collLen p)) (p_collections p))
        (cut (map unat (p_didLen p)) (p_dids p))
        (cut (map unat (p_rkeyLen p)) (p_rkeys p))
        (cut (map unat (p_revLen p)) (p_revs p))
        (cut (map unat (p_eventLen p)) (p_payloads p)))"

text \<open>\<^verbatim>\<open>sort.Search\<close>: the smallest index in \<open>[i, j)\<close> at which \<open>f\<close> holds, by bisection.\<close>

function sort_Search :: "nat \<Rightarrow> nat \<Rightarrow> (nat \<Rightarrow> bool) \<Rightarrow> nat" where
  "sort_Search i j f =
     (if i < j then (let h = (i + j) div 2 in if \<not> f h then sort_Search (h + 1) j f else sort_Search i h f)
      else i)"
  by pat_completeness auto
termination
  by (relation "measure (\<lambda>(i, j, f). j - i)") (auto simp: Let_def)

declare sort_Search.simps [simp del]

definition FlushedRangeFromSeq :: "u64 \<Rightarrow> segwriter \<Rightarrow> (u64 \<times> nat) option" where
  "FlushedRangeFromSeq seq w =
     (if w_closed w \<or> length (w_flushedBlocks w) = 0 then None
      else
        let i = sort_Search 0 (length (w_flushedBlocks w)) (\<lambda>i. MaxSeq (w_flushedBlocks w ! i) \<ge> seq)
        in if i = length (w_flushedBlocks w) then None
           else Some (Offset (w_flushedBlocks w ! i), w_nextBlockOffset w))"

subsection \<open>Recovery and scanning of an active file\<close>

text \<open>\<^verbatim>\<open>lastGoodOffset\<close>. File sizes are below \<open>2\<^sup>6\<^sup>3\<close>, so the test \<^verbatim>\<open>next < off\<close> can hold only
  together with the test before it.\<close>

function lastGoodOffset :: "bytes \<Rightarrow> nat \<Rightarrow> nat" where
  "lastGoodOffset file off =
     (if off < length file then
        if length file - off < 8 then off
        else
          let frameLen = unat (le_get (take 8 (drop off file)) :: u64) in
          if frameLen > length file - off - 8 then off
          else lastGoodOffset file (off + 8 + frameLen)
      else off)"
  by pat_completeness auto
termination
  by (relation "measure (\<lambda>(file, off). length file - off)") auto

declare lastGoodOffset.simps [simp del]

text \<open>\<^verbatim>\<open>resumeExistingSegment\<close>: the file after the torn tail is cut off.\<close>

definition resumeExistingSegment :: "bytes \<Rightarrow> (seg_error, bytes) result" where
  "resumeExistingSegment file =
     (if length file < ReservedHeaderBytes then Inl ErrCorruptSegment
      else if take (length segmentMagic) file \<noteq> segmentMagic then Inl ErrCorruptSegment
      else if (le_get (take 8 (drop 4 file)) :: u64) \<noteq> 0 then Inl ErrSegmentSealed
      else Inr (take (lastGoodOffset file ReservedHeaderBytes) file))"

text \<open>\<^verbatim>\<open>blockDecoder.DecodeAll\<close>: the decoder is set up with \<^verbatim>\<open>WithDecoderMaxMemory(maxDecodedBlockBytes)\<close>, which
  refuses a frame whose decoded size is larger.\<close>

definition maxDecodedBlockBytes :: nat where
  "maxDecodedBlockBytes = 1073741824"

definition DecodeAll :: "(bytes \<Rightarrow> bytes option) \<Rightarrow> bytes \<Rightarrow> bytes option" where
  "DecodeAll dz frame =
     (case dz frame of None \<Rightarrow> None | Some body \<Rightarrow> if length body > maxDecodedBlockBytes then None else Some body)"

definition decodeBlockCompressed :: "(bytes \<Rightarrow> bytes option) \<Rightarrow> bytes \<Rightarrow> (seg_error, event list) result" where
  "decodeBlockCompressed dz frame =
     (case DecodeAll dz frame of None \<Rightarrow> Inl ErrDecompress | Some body \<Rightarrow> decodeBlock body)"

definition scanActiveBlock ::
  "(bytes \<Rightarrow> bytes option) \<Rightarrow> bytes \<Rightarrow> nat \<Rightarrow> (seg_error, event list \<times> nat) result" where
  "scanActiveBlock dz file off =
     (if length file - off < 8 then Inr ([], off)
      else
        let frameLen = unat (le_get (take 8 (drop off file)) :: u64) in
        if frameLen > length file - off - 8 \<or> frameLen > maxInt then Inr ([], off)
        else
          rbind (decodeBlockCompressed dz (take frameLen (drop (off + 8) file))) (\<lambda>events.
            if length events = 0 then Inr ([], off) else Inr (events, off + 8 + frameLen)))"

lemma scanActiveBlock_progress:
  "scanActiveBlock dz file off = Inr (evs, next) \<Longrightarrow> evs \<noteq> [] \<Longrightarrow> off < next"
  by (auto simp: scanActiveBlock_def Let_def rbind_Inr_iff split: if_splits)

definition accumulateScanSequences :: "event list \<Rightarrow> u64 \<times> bool \<Rightarrow> u64 \<times> bool" where
  "accumulateScanSequences events st =
     fold (\<lambda>ev (maxSeq, found). if \<not> found \<or> Seq ev > maxSeq then (Seq ev, True) else (maxSeq, found))
       events st"

text \<open>The loop of \<^verbatim>\<open>extractScanActiveFS\<close>; \<open>acc\<close> collects the blocks handed to \<^verbatim>\<open>visit\<close>.\<close>

function scan_loop ::
  "(bytes \<Rightarrow> bytes option) \<Rightarrow> bytes \<Rightarrow> nat \<Rightarrow> event list list \<Rightarrow> u64 \<times> bool \<Rightarrow>
   (seg_error, event list list \<times> u64 \<times> bool) result" where
  "scan_loop dz file off acc st =
     (if off < length file then
        case scanActiveBlock dz file off of
          Inl e \<Rightarrow> Inl e
        | Inr (events, next) \<Rightarrow>
            if length events = 0 then Inr (acc, st)
            else scan_loop dz file next (acc @ [events]) (accumulateScanSequences events st)
      else Inr (acc, st))"
  by pat_completeness auto
termination
  by (relation "measure (\<lambda>(dz, file, off, acc, st). length file - off)")
    (auto dest: scanActiveBlock_progress)

declare scan_loop.simps [simp del]

definition extractScanActive ::
  "(bytes \<Rightarrow> bytes option) \<Rightarrow> bytes \<Rightarrow> (seg_error, event list list \<times> u64 \<times> bool) result" where
  "extractScanActive dz file =
     (if length file < ReservedHeaderBytes then Inl ErrCorruptSegment
      else if (le_get (take 8 (drop 4 file)) :: u64) \<noteq> 0 then Inl ErrSegmentSealed
      else scan_loop dz file ReservedHeaderBytes [] (0, False))"

subsection \<open>Reading a range of an active file (scan.go, seal.go)\<close>

text \<open>\<^verbatim>\<open>readFrameAt\<close>: \<^verbatim>\<open>ReadAt\<close> fails when the file ends before the bytes it asks for. The remaining size is an
  unsigned difference, which wraps round when fewer than eight bytes are left before \<open>maxOff\<close>.\<close>

definition readFrameAt :: "bytes \<Rightarrow> nat \<Rightarrow> nat \<Rightarrow> (seg_error, bytes \<times> nat) result" where
  "readFrameAt file off maxOff =
     (if length file < off + 8 then Inl ErrRead
      else
        let frameSize = (le_get (take 8 (drop off file)) :: u64);
            remaining = (of_nat maxOff - of_nat off - 8 :: u64) in
        if frameSize > remaining then Inl ErrCorruptSegment
        else if length file < off + 8 + unat frameSize then Inl ErrRead
        else Inr (take (unat frameSize) (drop (off + 8) file), 8 + unat frameSize))"

lemma readFrameAt_progress: "readFrameAt file off maxOff = Inr (frame, n) \<Longrightarrow> 0 < n"
  by (auto simp: readFrameAt_def Let_def split: if_splits)

definition decodeBlockCompressedSized ::
  "(bytes \<Rightarrow> bytes option) \<Rightarrow> bytes \<Rightarrow> (seg_error, event list \<times> nat) result" where
  "decodeBlockCompressedSized dz frame =
     (case DecodeAll dz frame of None \<Rightarrow> Inl ErrDecompress
      | Some body \<Rightarrow> rbind (decodeBlock body) (\<lambda>events. Inr (events, length body)))"

text \<open>The loop of \<^verbatim>\<open>WalkActiveRangeFS\<close>; \<open>acc\<close> collects the blocks handed to \<^verbatim>\<open>fn\<close>.\<close>

function walk_range_loop ::
  "(bytes \<Rightarrow> bytes option) \<Rightarrow> bytes \<Rightarrow> nat \<Rightarrow> nat \<Rightarrow> event list list \<Rightarrow> (seg_error, event list list) result" where
  "walk_range_loop dz file off end acc =
     (if off < end then
        if end - off < 8 then Inl ErrCorruptSegment
        else case readFrameAt file off end of
          Inl e \<Rightarrow> Inl e
        | Inr (frame, frameLen) \<Rightarrow>
          (case decodeBlockCompressedSized dz frame of
             Inl e \<Rightarrow> Inl e
           | Inr (events, _) \<Rightarrow>
               if length events = 0 then Inl ErrCorruptSegment
               else walk_range_loop dz file (off + frameLen) end (acc @ [events]))
      else if off \<noteq> end then Inl ErrCorruptSegment else Inr acc)"
  by pat_completeness auto
termination
  by (relation "measure (\<lambda>(dz, file, off, end, acc). end - off)") (auto dest: readFrameAt_progress)

declare walk_range_loop.simps [simp del]

definition WalkActiveRange ::
  "(bytes \<Rightarrow> bytes option) \<Rightarrow> bytes \<Rightarrow> nat \<Rightarrow> nat \<Rightarrow> (seg_error, event list list) result" where
  "WalkActiveRange dz file start end =
     (if start < ReservedHeaderBytes \<or> start > end \<or> end > maxInt then Inl ErrCorruptSegment
      else if length file < 12 then Inl ErrRead
      else if (le_get (take 8 (drop 4 file)) :: u64) \<noteq> 0 then Inl ErrSegmentSealed
      else walk_range_loop dz file start end [])"

subsection \<open>The pending block holds the appended events\<close>

definition pending_of :: "event list \<Rightarrow> pendingBlock" where
  "pending_of evs = fold pending_append evs pending_reset"

lemma pending_of_Nil [simp]: "pending_of [] = pending_reset"
  by (simp add: pending_of_def)

lemma pending_of_snoc: "pending_of (evs @ [ev]) = pending_append ev (pending_of evs)"
  by (simp add: pending_of_def)

lemma pending_append_columns:
  "p_seq (pending_append ev p) = p_seq p @ [Seq ev]"
  "p_witnessedAt (pending_append ev p) = p_witnessedAt p @ [WitnessedAt ev]"
  "p_indexedAt (pending_append ev p) = p_indexedAt p @ [IndexedAt ev]"
  "p_kind (pending_append ev p) = p_kind p @ [Kind ev]"
  "p_collLen (pending_append ev p) = p_collLen p @ [of_nat (length (Collection ev))]"
  "p_didLen (pending_append ev p) = p_didLen p @ [of_nat (length (DID ev))]"
  "p_rkeyLen (pending_append ev p) = p_rkeyLen p @ [of_nat (length (Rkey ev))]"
  "p_revLen (pending_append ev p) = p_revLen p @ [of_nat (length (Rev ev))]"
  "p_eventLen (pending_append ev p) = p_eventLen p @ [of_nat (length (Payload ev))]"
  "p_collections (pending_append ev p) = p_collections p @ Collection ev"
  "p_dids (pending_append ev p) = p_dids p @ DID ev"
  "p_rkeys (pending_append ev p) = p_rkeys p @ Rkey ev"
  "p_revs (pending_append ev p) = p_revs p @ Rev ev"
  "p_payloads (pending_append ev p) = p_payloads p @ Payload ev"
  "p_sawAny (pending_append ev p)"
  by (simp_all add: pending_append_def Let_def)

lemma pending_of_columns:
  "p_seq (pending_of evs) = map Seq evs"
  "p_witnessedAt (pending_of evs) = map WitnessedAt evs"
  "p_indexedAt (pending_of evs) = map IndexedAt evs"
  "p_kind (pending_of evs) = map Kind evs"
  "p_collLen (pending_of evs) = map (\<lambda>e. of_nat (length (Collection e))) evs"
  "p_didLen (pending_of evs) = map (\<lambda>e. of_nat (length (DID e))) evs"
  "p_rkeyLen (pending_of evs) = map (\<lambda>e. of_nat (length (Rkey e))) evs"
  "p_revLen (pending_of evs) = map (\<lambda>e. of_nat (length (Rev e))) evs"
  "p_eventLen (pending_of evs) = map (\<lambda>e. of_nat (length (Payload e))) evs"
  "p_collections (pending_of evs) = concat (map Collection evs)"
  "p_dids (pending_of evs) = concat (map DID evs)"
  "p_rkeys (pending_of evs) = concat (map Rkey evs)"
  "p_revs (pending_of evs) = concat (map Rev evs)"
  "p_payloads (pending_of evs) = concat (map Payload evs)"
  "p_sawAny (pending_of evs) = (evs \<noteq> [])"
  by (induction evs rule: rev_induct;
      simp add: pending_of_snoc pending_append_columns pending_reset_def)+

lemma pending_of_count [simp]: "pending_count (pending_of evs) = length evs"
  by (simp add: pending_count_def pending_of_columns)

lemma pending_count_reset [simp]: "pending_count pending_reset = 0"
  by (simp add: pending_count_def pending_reset_def)

lemma encode_pending: "encodeBlockInto dst (pendingColumns (pending_of evs)) = dst @ block_layout evs"
proof -
  have nth: "concat (map (\<lambda>i. f (xs ! i)) [0..<length evs]) = concat (map f xs)"
    if "length xs = length evs" for f :: "'b \<Rightarrow> bytes" and xs
    using map_upt_nth [of f xs] that by simp
  have col: "map ((!) (map g evs)) [0..<length evs] = map g evs" for g :: "event \<Rightarrow> byte"
    using map_nth [of "map g evs"] by simp
  show ?thesis
    unfolding encodeBlockInto_def Let_def pendingColumns_def append_each_eq block_layout_def
    by (simp add: pending_of_columns nth [of "map _ evs"] col map_singleton_concat comp_def)
qed

lemma pending_of_unat_lens:
  assumes "\<forall>e\<in>set evs. ValidateEvent e = Inr ()"
  shows "map unat (p_collLen (pending_of evs)) = map (\<lambda>e. length (Collection e)) evs"
    "map unat (p_didLen (pending_of evs)) = map (\<lambda>e. length (DID e)) evs"
    "map unat (p_rkeyLen (pending_of evs)) = map (\<lambda>e. length (Rkey e)) evs"
    "map unat (p_revLen (pending_of evs)) = map (\<lambda>e. length (Rev e)) evs"
    "map unat (p_eventLen (pending_of evs)) = map (\<lambda>e. length (Payload e)) evs"
  using assms by (auto simp: pending_of_columns ValidateEvent_ok intro!: unat_of_nat_less)

lemma snapshot_pending_of:
  assumes "w_pending w = pending_of evs" "\<forall>e\<in>set evs. ValidateEvent e = Inr ()"
  shows "SnapshotPending w = map (\<lambda>e. e\<lparr>UpstreamRelayCursor := 0\<rparr>) evs"
  unfolding SnapshotPending_def Let_def assms(1) pending_of_unat_lens [OF assms(2)]
  by (simp add: pending_of_columns cut_field make_events_map)

subsection \<open>The layout of an active file\<close>

definition wire :: "bytes \<Rightarrow> bytes" where
  "wire frame = le_put 8 (of_nat (length frame) :: u64) @ frame"

definition frame_wire :: "(bytes \<Rightarrow> bytes) \<Rightarrow> event list \<Rightarrow> bytes" where
  "frame_wire zc evs = wire (zc (block_layout evs))"

definition seg_file :: "(bytes \<Rightarrow> bytes) \<Rightarrow> event list list \<Rightarrow> bytes" where
  "seg_file zc blocks = initializeNewSegment @ concat (map (frame_wire zc) blocks)"

text \<open>The rows as a reader sees them: the block format does not store the upstream relay cursor.\<close>

definition stored :: "event \<Rightarrow> event" where
  "stored e = e\<lparr>UpstreamRelayCursor := 0\<rparr>"

definition block_ok :: "event list \<Rightarrow> bool" where
  "block_ok evs \<longleftrightarrow> evs \<noteq> [] \<and> length evs \<le> maxBlockEventsLimit \<and> list_all (\<lambda>e. ValidateEvent e = Inr ()) evs"

text \<open>A block whose body the decoder's size limit lets through.\<close>

definition block_fits :: "event list \<Rightarrow> bool" where
  "block_fits evs \<longleftrightarrow> length (block_layout evs) \<le> maxDecodedBlockBytes"

text \<open>What the writer and the readers rely on of zstd: a frame decompresses to the body it was made from, and the
  frame of a block the writer can produce is a Go slice, whose length is an \<^verbatim>\<open>int\<close>.\<close>

definition zstd_ok :: "(bytes \<Rightarrow> bytes) \<Rightarrow> (bytes \<Rightarrow> bytes option) \<Rightarrow> bool" where
  "zstd_ok zc dz \<longleftrightarrow>
     (\<forall>b. dz (zc b) = Some b) \<and> (\<forall>evs. block_ok evs \<longrightarrow> length (zc (block_layout evs)) \<le> maxInt)"

text \<open>What a write that stops early leaves behind.\<close>

definition torn :: "bytes \<Rightarrow> bool" where
  "torn t \<longleftrightarrow> (\<exists>frame k. length frame \<le> maxInt \<and> k < length (wire frame) \<and> t = take k (wire frame))"

lemma length_wire [simp]: "length (wire frame) = 8 + length frame"
  by (simp add: wire_def length_le_put)

lemma length_frame_wire [simp]: "length (frame_wire zc evs) = 8 + length (zc (block_layout evs))"
  by (simp add: frame_wire_def)

lemma length_initializeNewSegment [simp]: "length initializeNewSegment = ReservedHeaderBytes"
  by (simp add: initializeNewSegment_def segmentMagic_def ReservedHeaderBytes_def)

lemma wire_prefix:
  "length frame \<le> maxInt \<Longrightarrow>
     unat (le_get (take 8 (drop (length pre) (pre @ wire frame @ post))) :: u64) = length frame"
  by (simp add: wire_def length_le_put le_get_put unat_of_nat_less maxInt_def)

lemma wire_length_field [simp]:
  "length frame \<le> maxInt \<Longrightarrow> unat (le_get (take 8 (wire frame)) :: u64) = length frame"
  using wire_prefix [of frame "[]" "[]"] by simp

lemma wire_body:
  "take (length frame) (drop (length pre + 8) (pre @ wire frame @ post)) = frame"
  by (simp add: wire_def length_le_put)

lemma torn_Nil: "torn []"
  unfolding torn_def by (intro exI [of _ "[]"] exI [of _ 0]) (simp add: maxInt_def)

lemma torn_short:
  assumes "torn t" "8 \<le> length t"
  shows "length t - 8 < unat (le_get (take 8 (drop (length pre) (pre @ t))) :: u64)"
proof -
  from assms(1) obtain frame k where f: "length frame \<le> maxInt" "k < 8 + length frame"
    and t: "t = take k (wire frame)"
    by (auto simp: torn_def)
  from assms(2) t have "take 8 t = le_put 8 (of_nat (length frame) :: u64)"
    by (simp add: wire_def length_le_put min_def split: if_splits)
  with f t assms(2) show ?thesis
    by (simp add: le_get_put unat_of_nat_less maxInt_def)
qed

subsection \<open>Recovery\<close>

lemma lastGoodOffset_step:
  assumes "length frame \<le> maxInt"
  shows "lastGoodOffset (pre @ wire frame @ post) (length pre)
           = lastGoodOffset (pre @ wire frame @ post) (length (pre @ wire frame))"
  using assms by (subst lastGoodOffset.simps) (simp add: Let_def add.assoc)

lemma lastGoodOffset_frames:
  assumes "list_all (\<lambda>f. length f \<le> maxInt) fs"
  shows "lastGoodOffset (pre @ concat (map wire fs) @ t) (length pre)
           = lastGoodOffset (pre @ concat (map wire fs) @ t) (length (pre @ concat (map wire fs)))"
  using assms
proof (induction fs arbitrary: pre)
  case (Cons f fs)
  then show ?case
    using lastGoodOffset_step [of f pre "concat (map wire fs) @ t"] Cons.IH [of "pre @ wire f"]
    by simp
qed simp

lemma lastGoodOffset_torn: "torn t \<Longrightarrow> lastGoodOffset (pre @ t) (length pre) = length pre"
  using torn_short [of t pre] by (subst lastGoodOffset.simps) (auto simp: Let_def not_less)

lemma header_zero: "take 8 (drop 4 (initializeNewSegment @ xs)) = replicate 8 0"
  by (simp add: initializeNewSegment_def segmentMagic_def ReservedHeaderBytes_def eval_nat_numeral)

lemma le_get_zeros: "le_get (replicate n 0) = (0 :: 'a::len word)"
  by (induction n) auto

lemma seg_file_active:
  "take (length segmentMagic) (seg_file zc blocks @ t) = segmentMagic"
  "(le_get (take 8 (drop 4 (seg_file zc blocks @ t))) :: u64) = 0"
  "ReservedHeaderBytes \<le> length (seg_file zc blocks)"
  unfolding seg_file_def append.assoc header_zero le_get_zeros
  by (simp_all add: initializeNewSegment_def)

lemma resume_seg_file:
  assumes "zstd_ok zc dz" "list_all block_ok blocks" "torn t"
  shows "resumeExistingSegment (seg_file zc blocks @ t) = Inr (seg_file zc blocks)"
proof -
  define fs where "fs = map (\<lambda>evs. zc (block_layout evs)) blocks"
  have fw: "map (frame_wire zc) blocks = map wire fs"
    by (simp add: fs_def frame_wire_def)
  have "list_all (\<lambda>f. length f \<le> maxInt) fs"
    using assms(1,2) by (simp add: fs_def list_all_iff zstd_ok_def)
  from lastGoodOffset_frames [OF this, of initializeNewSegment t]
    lastGoodOffset_torn [OF assms(3), of "initializeNewSegment @ concat (map wire fs)"]
  have "lastGoodOffset (seg_file zc blocks @ t) ReservedHeaderBytes = length (seg_file zc blocks)"
    by (simp add: seg_file_def fw)
  then show ?thesis
    by (simp add: resumeExistingSegment_def seg_file_active del: take_append drop_append)
      (simp add: seg_file_def)
qed

subsection \<open>Reading an active file back\<close>

lemma decode_frame:
  assumes "zstd_ok zc dz" "block_ok evs" "block_fits evs"
  shows "decodeBlockCompressed dz (zc (block_layout evs)) = Inr (map stored evs)"
    and "decodeBlockCompressedSized dz (zc (block_layout evs))
           = Inr (map stored evs, length (block_layout evs))"
  using assms decodeBlock_layout [of evs]
  by (auto simp: decodeBlockCompressed_def decodeBlockCompressedSized_def DecodeAll_def zstd_ok_def
      block_ok_def block_fits_def
      list_all_iff stored_def)

lemma scanActiveBlock_frame:
  assumes "zstd_ok zc dz" "block_ok evs" "block_fits evs"
  shows "scanActiveBlock dz (pre @ frame_wire zc evs @ post) (length pre)
           = Inr (map stored evs, length (pre @ frame_wire zc evs))"
proof -
  have len: "length (zc (block_layout evs)) \<le> maxInt"
    using assms(1,2) by (simp add: zstd_ok_def)
  have "evs \<noteq> []"
    using assms(2) by (simp add: block_ok_def)
  then show ?thesis
    using len wire_body [of "zc (block_layout evs)" pre post] decode_frame [OF assms]
    by (simp add: scanActiveBlock_def frame_wire_def Let_def add.assoc)
qed

lemma scanActiveBlock_torn: "torn t \<Longrightarrow> scanActiveBlock dz (pre @ t) (length pre) = Inr ([], length pre)"
  using torn_short [of t pre] by (auto simp: scanActiveBlock_def Let_def not_less)

lemma accumulate_stored: "accumulateScanSequences (map stored evs) st = accumulateScanSequences evs st"
  unfolding accumulateScanSequences_def by (induction evs arbitrary: st) (auto simp: stored_def)

lemma scan_loop_frames:
  assumes "zstd_ok zc dz" "list_all block_ok blocks" "list_all block_fits blocks" "torn t"
  shows "scan_loop dz (pre @ concat (map (frame_wire zc) blocks) @ t) (length pre) acc st
           = Inr (acc @ map (map stored) blocks, fold accumulateScanSequences blocks st)"
  using assms(2,3)
proof (induction blocks arbitrary: pre acc st)
  case Nil
  then show ?case
    using scanActiveBlock_torn [OF assms(4)] by (subst scan_loop.simps) simp
next
  case (Cons evs blocks)
  then have "evs \<noteq> []" "block_ok evs" "block_fits evs" by (simp_all add: block_ok_def)
  then show ?case
    using scanActiveBlock_frame [OF assms(1), of evs pre "concat (map (frame_wire zc) blocks) @ t"]
      Cons.IH [of "pre @ frame_wire zc evs"] Cons.prems
    by (subst scan_loop.simps) (simp add: accumulate_stored)
qed

lemma scan_seg_file:
  assumes "zstd_ok zc dz" "list_all block_ok blocks" "list_all block_fits blocks" "torn t"
  shows "extractScanActive dz (seg_file zc blocks @ t)
           = Inr (map (map stored) blocks, fold accumulateScanSequences blocks (0, False))"
  using scan_loop_frames [OF assms, where pre = initializeNewSegment and acc = "[]"] seg_file_active(2) [of zc blocks t]
    seg_file_active(3) [of zc blocks]
  by (simp add: extractScanActive_def del: take_append drop_append) (simp add: seg_file_def)

lemma readFrameAt_wire:
  assumes "length pre + 8 + length frame \<le> end" "end \<le> maxInt"
  shows "readFrameAt (pre @ wire frame @ post) (length pre) end = Inr (frame, 8 + length frame)"
proof -
  have len: "length frame \<le> maxInt" using assms by simp
  have eq: "(of_nat end - of_nat (length pre) - 8 :: u64) = of_nat (end - length pre - 8)"
    using assms by (simp add: of_nat_diff)
  have rem: "unat (of_nat (end - length pre - 8) :: u64) = end - length pre - 8"
    using assms by (intro unat_of_nat_less) (simp add: maxInt_def)
  have fits: "(le_get (take 8 (wire frame)) :: u64) \<le> of_nat end - of_nat (length pre) - 8"
    unfolding eq word_le_nat_alt rem wire_length_field [OF len] using assms by simp
  then show ?thesis
    using wire_body [of frame pre post] wire_length_field [OF len]
    by (simp add: readFrameAt_def Let_def not_less)
qed

lemma walk_range_frames:
  assumes "zstd_ok zc dz" "list_all block_ok blocks" "list_all block_fits blocks"
    and "end = length (pre @ concat (map (frame_wire zc) blocks))" "end \<le> maxInt"
  shows "walk_range_loop dz (pre @ concat (map (frame_wire zc) blocks) @ post) (length pre) end acc
           = Inr (acc @ map (map stored) blocks)"
  using assms(2,3,4)
proof (induction blocks arbitrary: pre acc)
  case Nil
  then show ?case by (subst walk_range_loop.simps) simp
next
  case (Cons evs blocks)
  let ?rest = "concat (map (frame_wire zc) blocks)"
  have ok: "block_ok evs" "block_fits evs" "evs \<noteq> []" using Cons.prems by (simp_all add: block_ok_def)
  have "readFrameAt (pre @ frame_wire zc evs @ ?rest @ post) (length pre) end
          = Inr (zc (block_layout evs), 8 + length (zc (block_layout evs)))"
    unfolding frame_wire_def using Cons.prems(3) assms(5)
    by (intro readFrameAt_wire) simp_all
  then show ?case
    using Cons.IH [of "pre @ frame_wire zc evs"] Cons.prems ok decode_frame(2) [OF assms(1) ok(1,2)]
    by (subst walk_range_loop.simps) (simp add: add.assoc)
qed

lemma sort_Search_least:
  assumes "\<forall>k l. k \<le> l \<and> l < j \<and> f k \<longrightarrow> f l" "i \<le> j"
  shows "i \<le> sort_Search i j f \<and> sort_Search i j f \<le> j \<and>
         (\<forall>k. i \<le> k \<and> k < sort_Search i j f \<longrightarrow> \<not> f k) \<and>
         (sort_Search i j f < j \<longrightarrow> f (sort_Search i j f))"
  using assms
proof (induction i j f rule: sort_Search.induct)
  case (1 i j f)
  let ?h = "(i + j) div 2"
  consider "i = j" | "i < j" "f ?h" | "i < j" "\<not> f ?h" using 1(4) by linarith
  then show ?case
  proof cases
    case 1 then show ?thesis by (subst (1 2 3 4 5) sort_Search.simps) auto
  next
    case 2
    then have eq: "sort_Search i j f = sort_Search i ?h f" by (subst sort_Search.simps) simp
    have h: "?h < j" "i \<le> ?h" using 2(1) by auto
    have "\<forall>k l. k \<le> l \<and> l < ?h \<and> f k \<longrightarrow> f l" using 1(3) h(1) less_trans by blast
    from 1(2) [OF 2(1) refl _ this h(2)] 2(2)
    have IH: "i \<le> sort_Search i j f" "sort_Search i j f \<le> ?h"
      "\<forall>k. i \<le> k \<and> k < sort_Search i j f \<longrightarrow> \<not> f k"
      "sort_Search i j f < ?h \<longrightarrow> f (sort_Search i j f)"
      unfolding eq by simp_all
    have "f (sort_Search i j f)"
      using IH(2,4) 2(2) by (cases "sort_Search i j f = ?h") auto
    with IH(1-3) h(1) show ?thesis by auto
  next
    case 3
    then have eq: "sort_Search i j f = sort_Search (?h + 1) j f" by (subst sort_Search.simps) simp
    have "?h < j" using 3(1) by linarith
    then have low: "\<not> f k" if "k \<le> ?h" for k using 3(2) 1(3) that by blast
    have "?h + 1 \<le> j" using 3 by linarith
    from 1(1) [OF 3(1) refl 3(2) 1(3) this]
    have IH: "?h + 1 \<le> sort_Search i j f" "sort_Search i j f \<le> j"
      "\<And>k. ?h + 1 \<le> k \<Longrightarrow> k < sort_Search i j f \<Longrightarrow> \<not> f k"
      "sort_Search i j f < j \<longrightarrow> f (sort_Search i j f)"
      unfolding eq by blast+
    have "\<not> f k" if "k < sort_Search i j f" for k
      using IH(3) [of k] low [of k] that by (cases "k \<le> ?h") auto
    with IH(1,2,4) 3(1) show ?thesis by auto
  qed
qed

subsection \<open>A writer and its caller as a state machine\<close>

definition info_of :: "(bytes \<Rightarrow> bytes) \<Rightarrow> nat \<Rightarrow> event list \<Rightarrow> BlockInfo" where
  "info_of zc off evs = (pending_info (pending_of evs) (block_layout evs))
     \<lparr> Offset := of_nat off, CompressedSize := of_nat (length (zc (block_layout evs))) \<rparr>"

fun block_infos :: "(bytes \<Rightarrow> bytes) \<Rightarrow> nat \<Rightarrow> event list list \<Rightarrow> BlockInfo list" where
  "block_infos zc off [] = []"
| "block_infos zc off (evs # blocks) =
     info_of zc off evs # block_infos zc (off + length (frame_wire zc evs)) blocks"

text \<open>The caller of the writer keeps the prepared blocks it has not committed yet in order. \<open>ws_evs\<close> records the
  events \<^verbatim>\<open>Append\<close> accepted and \<open>ws_acked\<close> how many of them a successful flush reported durable.\<close>

record wsys =
  ws_w :: segwriter
  ws_q :: "PreparedBlock list"
  ws_evs :: "event list"
  ws_acked :: nat

definition fresh_writer :: "nat \<Rightarrow> segwriter" where
  "fresh_writer cap = \<lparr> w_MaxEventsPerBlock = cap, w_file = initializeNewSegment, w_pending = pending_reset,
     w_closed = False, w_stickyErr = None, w_flushedBlocks = [],
     w_nextBlockOffset = ReservedHeaderBytes, w_nextPreparedBlockID = 0, w_nextPreparedCommitID = 0,
     w_preparedOutstanding = 0 \<rparr>"

definition wsys_init :: "wsys \<Rightarrow> bool" where
  "wsys_init s \<longleftrightarrow> (\<exists>cap \<le> maxBlockEventsLimit.
     s = \<lparr> ws_w = fresh_writer cap, ws_q = [], ws_evs = [], ws_acked = 0 \<rparr>)"

text \<open>The caller flushes or closes directly only when it holds no prepared block; \<^verbatim>\<open>CommitPreparedFlush\<close> is
  called on the oldest one, with the frame \<^verbatim>\<open>CompressPreparedBlock\<close> returns.\<close>

inductive wstep :: "(bytes \<Rightarrow> bytes) \<Rightarrow> wsys \<Rightarrow> wsys \<Rightarrow> bool" for zc where
  wappend: "seg_Append ev (ws_w s) = (r, w') \<Longrightarrow>
     wstep zc s (s\<lparr> ws_w := w', ws_evs := (case r of Inl _ \<Rightarrow> ws_evs s | Inr _ \<Rightarrow> ws_evs s @ [ev]) \<rparr>)"
| wflush: "ws_q s = [] \<Longrightarrow> seg_Flush zc io (ws_w s) = (r, w') \<Longrightarrow>
     wstep zc s (s\<lparr> ws_w := w', ws_acked := (case r of Inl _ \<Rightarrow> ws_acked s | Inr _ \<Rightarrow> length (ws_evs s)) \<rparr>)"
| wclose: "seg_Close zc io (ws_w s) = (r, w') \<Longrightarrow>
     wstep zc s (s\<lparr> ws_w := w' \<rparr>)"
| wprepare: "PrepareFlush (ws_w s) = (r, w') \<Longrightarrow>
     wstep zc s (s\<lparr> ws_w := w', ws_q := (case r of Inr (Some pb) \<Rightarrow> ws_q s @ [pb] | _ \<Rightarrow> ws_q s) \<rparr>)"
| wcommit: "ws_q s = pb # q \<Longrightarrow>
     CommitPreparedFlush io (Some pb) (zc (pb_Body pb)) (ws_w s) = (r, Some pb', w') \<Longrightarrow>
     wstep zc s (case r of
         Inl _ \<Rightarrow> s\<lparr> ws_w := w', ws_q := pb' # q \<rparr>
       | Inr _ \<Rightarrow> s\<lparr> ws_w := w', ws_q := q, ws_acked := ws_acked s + unat (EventCount (pb_info pb)) \<rparr>)"

text \<open>The invariant of a writer that has not failed: the file, the prepared blocks and the pending block
  hold the accepted events, in order.\<close>

definition prepared_of :: "nat \<Rightarrow> event list \<Rightarrow> PreparedBlock" where
  "prepared_of i evs = \<lparr> pb_Body = block_layout evs, pb_info = pending_info (pending_of evs) (block_layout evs),
     pb_owned = True, pb_id = i, pb_committed = False \<rparr>"

definition live_inv :: "(bytes \<Rightarrow> bytes) \<Rightarrow> wsys \<Rightarrow> event list list \<Rightarrow> event list list \<Rightarrow> event list \<Rightarrow> bool" where
  "live_inv zc s blocks qs pend \<longleftrightarrow>
     (let w = ws_w s in
      w_file w = seg_file zc blocks \<and> w_nextBlockOffset w = length (seg_file zc blocks) \<and>
      w_flushedBlocks w = block_infos zc ReservedHeaderBytes blocks \<and>
      w_pending w = pending_of pend \<and>
      ws_evs s = concat blocks @ concat qs @ pend \<and>
      list_all block_ok blocks \<and> list_all block_ok qs \<and>
      list_all (\<lambda>e. ValidateEvent e = Inr ()) pend \<and> length pend \<le> w_MaxEventsPerBlock w \<and>
      w_MaxEventsPerBlock w \<le> maxBlockEventsLimit \<and>
      list_all (\<lambda>b. length b \<le> w_MaxEventsPerBlock w) (blocks @ qs) \<and>
      ws_q s = map2 prepared_of [w_nextPreparedCommitID w..<w_nextPreparedCommitID w + length qs] qs \<and>
      w_nextPreparedBlockID w = w_nextPreparedCommitID w + length qs \<and>
      w_preparedOutstanding w = length qs \<and>
      ws_acked s \<le> length (concat blocks))"

text \<open>The invariant of a writer that has latched an error.\<close>

definition failed_inv :: "(bytes \<Rightarrow> bytes) \<Rightarrow> wsys \<Rightarrow> event list list \<Rightarrow> event list \<Rightarrow> bool" where
  "failed_inv zc s blocks rest \<longleftrightarrow>
     (\<exists>t. torn t \<and> w_file (ws_w s) = seg_file zc blocks @ t \<and> list_all block_ok blocks \<and>
      list_all (\<lambda>b. length b \<le> w_MaxEventsPerBlock (ws_w s)) blocks \<and>
      ws_evs s = concat blocks @ rest \<and> ws_acked s \<le> length (concat blocks))"

definition wsys_inv :: "(bytes \<Rightarrow> bytes) \<Rightarrow> wsys \<Rightarrow> bool" where
  "wsys_inv zc s \<longleftrightarrow>
     (case w_stickyErr (ws_w s) of
        None \<Rightarrow> (\<exists>blocks qs pend. live_inv zc s blocks qs pend)
      | Some _ \<Rightarrow> (\<exists>blocks rest. failed_inv zc s blocks rest))"

lemma seg_file_snoc: "seg_file zc (blocks @ [b]) = seg_file zc blocks @ frame_wire zc b"
  by (simp add: seg_file_def)

lemma block_infos_snoc:
  "block_infos zc off (blocks @ [b]) =
     block_infos zc off blocks @ [info_of zc (off + length (concat (map (frame_wire zc) blocks))) b]"
  by (induction blocks arbitrary: off) (simp_all add: add.assoc)

lemma length_seg_file: "length (seg_file zc blocks) = ReservedHeaderBytes + length (concat (map (frame_wire zc) blocks))"
  by (simp add: seg_file_def)

lemma write_fail_torn:
  assumes "zstd_ok zc dz" "list_all block_ok blocks" "block_ok b"
  shows "\<exists>blocks' t. torn t \<and> list_all block_ok blocks' \<and> (blocks' = blocks \<or> blocks' = blocks @ [b]) \<and>
           seg_file zc blocks @ take k (frame_wire zc b) = seg_file zc blocks' @ t"
proof (cases "k < length (frame_wire zc b)")
  case True
  moreover have "length (zc (block_layout b)) \<le> maxInt" using assms by (simp add: zstd_ok_def)
  ultimately have "torn (take k (frame_wire zc b))" unfolding torn_def frame_wire_def by blast
  then show ?thesis using assms(2) by blast
next
  case False
  then show ?thesis using assms(2,3) torn_Nil
    by (intro exI [of _ "blocks @ [b]"] exI [of _ "[]"]) (simp add: seg_file_snoc)
qed

lemma block_ok_pending:
  "live_inv zc s blocks qs pend \<Longrightarrow> pend \<noteq> [] \<Longrightarrow> block_ok pend"
  by (simp add: live_inv_def block_ok_def Let_def)

lemma append_inv:
  assumes "seg_Append ev (ws_w s) = (r, w')" "wsys_inv zc s"
  shows "wsys_inv zc (s\<lparr> ws_w := w', ws_evs := (case r of Inl _ \<Rightarrow> ws_evs s | Inr _ \<Rightarrow> ws_evs s @ [ev]) \<rparr>)"
proof (cases r)
  case (Inl e)
  with assms(1) have "w' = ws_w s"
    by (auto simp: seg_Append_def Let_def split: if_splits option.splits sum.splits)
  with Inl assms(2) show ?thesis by simp
next
  case (Inr full)
  with assms(1) have ok: "w_stickyErr (ws_w s) = None" "ValidateEvent ev = Inr ()"
    "\<not> pending_count (w_pending (ws_w s)) \<ge> w_MaxEventsPerBlock (ws_w s)"
    "w' = (ws_w s)\<lparr>w_pending := pending_append ev (w_pending (ws_w s))\<rparr>"
    by (auto simp: seg_Append_def Let_def split: if_splits option.splits sum.splits)
  with assms(2) obtain blocks qs pend where "live_inv zc s blocks qs pend"
    by (auto simp: wsys_inv_def)
  with ok Inr have "live_inv zc (s\<lparr> ws_w := w', ws_evs := ws_evs s @ [ev] \<rparr>) blocks qs (pend @ [ev])"
    by (simp add: live_inv_def Let_def pending_of_snoc)
  with ok Inr show ?thesis by (auto simp: wsys_inv_def)
qed

lemma wsys_inv_of_live:
  assumes "live_inv zc (s\<lparr> ws_w := w'\<lparr>w_stickyErr := None\<rparr>, ws_acked := ack \<rparr>) blocks qs pend"
  shows "wsys_inv zc (s\<lparr> ws_w := w', ws_acked := ack \<rparr>)"
proof (cases "w_stickyErr w'")
  case None
  then have "live_inv zc (s\<lparr> ws_w := w', ws_acked := ack \<rparr>) blocks qs pend"
    using assms by (simp add: live_inv_def Let_def)
  with None show ?thesis by (auto simp: wsys_inv_def)
next
  case (Some e)
  have "failed_inv zc (s\<lparr> ws_w := w', ws_acked := ack \<rparr>) blocks (concat qs @ pend)"
    using assms torn_Nil by (simp add: live_inv_def failed_inv_def Let_def)
  with Some show ?thesis by (auto simp: wsys_inv_def)
qed

lemma flush_inv:
  assumes "flushLocked zc io w = (r, w')" "ws_q s = []" "zstd_ok zc dz"
    and "wsys_inv zc (s\<lparr>ws_w := w\<rparr>)"
    and "ack = ws_acked s \<or> r = Inr () \<and> ack = length (ws_evs s)"
  shows "wsys_inv zc (s\<lparr> ws_w := w', ws_acked := ack \<rparr>)"
proof (cases "w_stickyErr w")
  case (Some e)
  with assms(1,5) have "w' = w" "ack = ws_acked s" by (auto simp: flushLocked_def)
  with assms(4) show ?thesis by simp
next
  case None
  with assms(4) obtain blocks qs pend where L: "live_inv zc (s\<lparr>ws_w := w\<rparr>) blocks qs pend"
    by (auto simp: wsys_inv_def)
  with assms(2) have qs: "qs = []" by (auto simp: live_inv_def Let_def)
  show ?thesis
  proof (cases "pend = []")
    case True
    with None L assms(1) have "w' = w" by (simp add: flushLocked_def live_inv_def Let_def)
    moreover have "live_inv zc (s\<lparr>ws_w := w, ws_acked := ack\<rparr>) blocks qs pend"
      using L True qs assms(5) by (auto simp: live_inv_def Let_def)
    ultimately show ?thesis using None by (auto simp: wsys_inv_def)
  next
    case False
    note ok = block_ok_pending [OF L False]
    have w: "w_pending w = pending_of pend" "w_file w = seg_file zc blocks"
      "w_nextBlockOffset w = length (seg_file zc blocks)" "list_all block_ok blocks"
      "ws_evs s = concat blocks @ pend" "ws_acked s \<le> length (concat blocks)"
      using L qs by (simp_all add: live_inv_def Let_def)
    have fw: "le_put 8 (of_nat (length (zc (block_layout pend))) :: u64) @ zc (block_layout pend)
                = frame_wire zc pend"
      by (simp add: frame_wire_def wire_def)
    show ?thesis
    proof (cases "io_write_fail io")
      case (Some k)
      obtain blocks' t where t: "torn t" "list_all block_ok blocks'" "blocks' = blocks \<or> blocks' = blocks @ [pend]"
        "seg_file zc blocks @ take k (frame_wire zc pend) = seg_file zc blocks' @ t"
        using write_fail_torn [OF assms(3) w(4) ok] by blast
      have "r = Inl ErrWrite" "w_stickyErr w' = Some ErrWrite" "w_file w' = seg_file zc blocks' @ t"
        using assms(1) None False Some w t(4)
        by (auto simp: flushLocked_def encode_pending fw Let_def simp del: take_append)
      moreover obtain rest where "ws_evs s = concat blocks' @ rest" using t(3) w(5) by auto
      moreover have "ack \<le> length (concat blocks')" using t(3) w(6) assms(5) calculation(1) by auto
      moreover have "list_all (\<lambda>b. length b \<le> w_MaxEventsPerBlock w') blocks'"
        using t(3) L assms(1) None False Some w(1)
        by (auto simp: flushLocked_def live_inv_def Let_def)
      ultimately have "failed_inv zc (s\<lparr> ws_w := w', ws_acked := ack \<rparr>) blocks' rest"
        using t(1,2) unfolding failed_inv_def by simp
      then show ?thesis using \<open>w_stickyErr w' = Some ErrWrite\<close> by (auto simp: wsys_inv_def)
    next
      case none: None
      let ?L = "live_inv zc (s\<lparr> ws_w := w'\<lparr>w_stickyErr := None\<rparr>, ws_acked := ack \<rparr>) (blocks @ [pend]) [] []"
      have w': "w'\<lparr>w_stickyErr := None\<rparr> = w\<lparr> w_file := seg_file zc (blocks @ [pend]),
          w_flushedBlocks := w_flushedBlocks w @ [info_of zc (length (seg_file zc blocks)) pend],
          w_nextBlockOffset := length (seg_file zc (blocks @ [pend])), w_pending := pending_reset \<rparr>"
        using assms(1) None none False w
        by (auto simp: flushLocked_def encode_pending fw Let_def seg_file_snoc info_of_def split: if_splits)
      have ?L
        unfolding w' using L qs ok assms(5) False
        by (auto simp: live_inv_def Let_def block_infos_snoc length_seg_file)
      then show ?thesis by (rule wsys_inv_of_live)
    qed
  qed
qed

lemma wsys_inv_closed:
  "wsys_inv zc (s\<lparr>ws_w := w\<lparr>w_closed := c\<rparr>\<rparr>) = wsys_inv zc (s\<lparr>ws_w := w\<rparr>)"
proof -
  have "live_inv zc (s\<lparr>ws_w := w\<lparr>w_closed := c\<rparr>\<rparr>) = live_inv zc (s\<lparr>ws_w := w\<rparr>)"
    "failed_inv zc (s\<lparr>ws_w := w\<lparr>w_closed := c\<rparr>\<rparr>) = failed_inv zc (s\<lparr>ws_w := w\<rparr>)"
    by (intro ext, simp add: live_inv_def failed_inv_def Let_def)+
  then show ?thesis by (cases "w_stickyErr w") (simp_all add: wsys_inv_def)
qed

lemma close_inv:
  assumes "seg_Close zc io (ws_w s) = (r, w')" "zstd_ok zc dz" "wsys_inv zc s"
  shows "wsys_inv zc (s\<lparr>ws_w := w'\<rparr>)"
proof (cases "w_closed (ws_w s) \<or> w_stickyErr (ws_w s) \<noteq> None \<or> w_preparedOutstanding (ws_w s) > 0")
  case True
  with assms(1) have "w' = ws_w s" by (auto simp: seg_Close_def split: if_splits option.splits)
  with assms(3) show ?thesis by simp
next
  case False
  then obtain blocks qs pend where "live_inv zc s blocks qs pend"
    using assms(3) by (auto simp: wsys_inv_def)
  with False have q: "ws_q s = []" by (auto simp: live_inv_def Let_def)
  from False assms(1) obtain r' where "flushLocked zc io ((ws_w s)\<lparr>w_closed := True\<rparr>) = (r', w')"
    by (auto simp: seg_Close_def split: prod.splits sum.splits)
  from flush_inv [OF this q assms(2), of "ws_acked s"] assms(3)
  show ?thesis by (simp add: wsys_inv_closed)
qed

lemma prepare_inv:
  assumes "PrepareFlush (ws_w s) = (r, w')" "wsys_inv zc s"
  shows "wsys_inv zc (s\<lparr> ws_w := w', ws_q := (case r of Inr (Some pb) \<Rightarrow> ws_q s @ [pb] | _ \<Rightarrow> ws_q s) \<rparr>)"
proof (cases "w_stickyErr (ws_w s) \<noteq> None \<or> pending_count (w_pending (ws_w s)) = 0")
  case True
  with assms(1) have "w' = ws_w s" "r = Inr None \<or> (\<exists>e. r = Inl e)"
    by (auto simp: PrepareFlush_def split: if_splits option.splits)
  with assms(2) show ?thesis by auto
next
  case False
  then obtain blocks qs pend where L: "live_inv zc s blocks qs pend"
    using assms(2) by (auto simp: wsys_inv_def)
  with False have "pend \<noteq> []" by (auto simp: live_inv_def Let_def)
  note ok = block_ok_pending [OF L this]
  have r: "r = Inr (Some (prepared_of (w_nextPreparedBlockID (ws_w s)) pend))"
    "w' = (ws_w s)\<lparr> w_pending := pending_reset,
       w_nextPreparedBlockID := w_nextPreparedBlockID (ws_w s) + 1,
       w_preparedOutstanding := w_preparedOutstanding (ws_w s) + 1 \<rparr>"
    using assms(1) False L
    by (auto simp: PrepareFlush_def Let_def live_inv_def encode_pending prepared_of_def)
  have "live_inv zc (s\<lparr> ws_w := w', ws_q := ws_q s @ [prepared_of (w_nextPreparedBlockID (ws_w s)) pend] \<rparr>)
          blocks (qs @ [pend]) []"
    unfolding r(2) using L ok by (simp add: live_inv_def Let_def)
  with r False show ?thesis by (auto simp: wsys_inv_def)
qed

lemma commit_inv:
  assumes "CommitPreparedFlush io (Some pb) (zc (pb_Body pb)) (ws_w s) = (r, Some pb', w')"
    and "ws_q s = pb # q" "zstd_ok zc dz" "wsys_inv zc s"
  shows "wsys_inv zc (case r of
         Inl _ \<Rightarrow> s\<lparr> ws_w := w', ws_q := pb' # q \<rparr>
       | Inr _ \<Rightarrow> s\<lparr> ws_w := w', ws_q := q, ws_acked := ws_acked s + unat (EventCount (pb_info pb)) \<rparr>)"
proof (cases "w_stickyErr (ws_w s)")
  case (Some e)
  with assms(1) have "w' = ws_w s" "r = Inl e" "pb' = pb"
    by (auto simp: CommitPreparedFlush_def commitPreparedFlushLocked_def)
  moreover have "s\<lparr>ws_w := ws_w s, ws_q := pb # q\<rparr> = s" unfolding assms(2) [symmetric] by simp
  ultimately show ?thesis using assms(4) by simp
next
  case None
  with assms(4) obtain blocks qs pend where L: "live_inv zc s blocks qs pend"
    by (auto simp: wsys_inv_def)
  with assms(2) obtain b qs' where qs: "qs = b # qs'" by (cases qs) (auto simp: live_inv_def Let_def)
  let ?n = "w_nextPreparedCommitID (ws_w s)"
  have pb: "pb = prepared_of ?n b" "q = map2 prepared_of [Suc ?n..<Suc ?n + length qs'] qs'"
    using L assms(2) unfolding qs by (auto simp: live_inv_def Let_def upt_conv_Cons simp del: upt_Suc)
  have w: "w_file (ws_w s) = seg_file zc blocks" "w_nextBlockOffset (ws_w s) = length (seg_file zc blocks)"
    "list_all block_ok blocks" "block_ok b" "ws_evs s = concat blocks @ b @ concat qs' @ pend"
    "ws_acked s \<le> length (concat blocks)"
    using L qs by (simp_all add: live_inv_def Let_def)
  have fw: "le_put 8 (of_nat (length (zc (block_layout b))) :: u64) @ zc (block_layout b) = frame_wire zc b"
    by (simp add: frame_wire_def wire_def)
  have cnt: "unat (EventCount (pb_info pb)) = length b"
    using w(4) unat_of_nat_less [of "length b", where 'a = 32]
    by (simp add: pb prepared_of_def pending_info_def block_ok_def maxBlockEventsLimit_def)
  show ?thesis
  proof (cases "io_write_fail io")
    case (Some k)
    obtain blocks' t where t: "torn t" "list_all block_ok blocks'" "blocks' = blocks \<or> blocks' = blocks @ [b]"
      "seg_file zc blocks @ take k (frame_wire zc b) = seg_file zc blocks' @ t"
      using write_fail_torn [OF assms(3) w(3,4)] by blast
    have "r = Inl ErrWrite" "w_stickyErr w' = Some ErrWrite" "w_file w' = seg_file zc blocks' @ t"
      using assms(1) None Some w t(4) pb(1)
      by (auto simp: CommitPreparedFlush_def commitPreparedFlushLocked_def prepared_of_def fw Let_def
          simp del: take_append)
    moreover obtain rest where "ws_evs s = concat blocks' @ rest" using t(3) w(5) by auto
    moreover have "ws_acked s \<le> length (concat blocks')" using t(3) w(6) by auto
    moreover have "list_all (\<lambda>b. length b \<le> w_MaxEventsPerBlock w') blocks'"
      using t(3) L assms(1) None Some pb(1) qs
      by (auto simp: CommitPreparedFlush_def commitPreparedFlushLocked_def prepared_of_def live_inv_def Let_def)
    ultimately have "failed_inv zc (s\<lparr> ws_w := w', ws_q := pb' # q \<rparr>) blocks' rest"
      using t(1,2) by (simp add: failed_inv_def)
    then show ?thesis using \<open>r = Inl ErrWrite\<close> \<open>w_stickyErr w' = Some ErrWrite\<close>
      by (auto simp: wsys_inv_def)
  next
    case none: None
    let ?w = "(ws_w s)\<lparr> w_file := seg_file zc (blocks @ [b]),
        w_flushedBlocks := w_flushedBlocks (ws_w s) @ [info_of zc (length (seg_file zc blocks)) b],
        w_nextBlockOffset := length (seg_file zc (blocks @ [b])) \<rparr>"
    have out: "if io_sync_ok io
         then r = Inr () \<and> w' = ?w\<lparr> w_nextPreparedCommitID := ?n + 1,
                w_preparedOutstanding := w_preparedOutstanding (ws_w s) - 1 \<rparr>
         else r = Inl ErrSync \<and> w' = ?w\<lparr>w_stickyErr := Some ErrSync\<rparr>"
      using assms(1) None none w(1,2) pb(1)
      by (auto simp: CommitPreparedFlush_def commitPreparedFlushLocked_def prepared_of_def fw Let_def
          seg_file_snoc info_of_def split: if_splits)
    show ?thesis
    proof (cases "io_sync_ok io")
      case True
      have "live_inv zc (s\<lparr> ws_w := w', ws_q := q, ws_acked := ws_acked s + length b \<rparr>) (blocks @ [b]) qs' pend"
        using out True L qs pb(2) by (simp add: live_inv_def Let_def block_infos_snoc length_seg_file)
      then show ?thesis using out True None cnt by (auto simp: wsys_inv_def)
    next
      case False
      have "failed_inv zc (s\<lparr> ws_w := w', ws_q := pb' # q \<rparr>) (blocks @ [b]) (concat qs' @ pend)"
        using out False L qs torn_Nil by (simp add: failed_inv_def live_inv_def Let_def)
      then show ?thesis using out False by (auto simp: wsys_inv_def)
    qed
  qed
qed

lemma init_inv: "wsys_init s \<Longrightarrow> wsys_inv zc s"
  unfolding wsys_init_def wsys_inv_def fresh_writer_def live_inv_def
  by (auto simp: seg_file_def intro!: exI [of _ "[]"])

lemma wstep_inv: "wstep zc s s' \<Longrightarrow> zstd_ok zc dz \<Longrightarrow> wsys_inv zc s \<Longrightarrow> wsys_inv zc s'"
proof (induction rule: wstep.induct)
  case (wflush s io r w')
  show ?case
  proof (cases "w_closed (ws_w s) \<or> w_stickyErr (ws_w s) \<noteq> None")
    case True
    with wflush(2) have "w' = ws_w s" "\<exists>e. r = Inl e" by (auto simp: seg_Flush_def split: if_splits)
    with wflush(4) show ?thesis by auto
  next
    case False
    with wflush(2) have "flushLocked zc io (ws_w s) = (r, w')" by (auto simp: seg_Flush_def)
    from flush_inv [OF this wflush(1,3)] wflush(4) show ?thesis by (cases r) auto
  qed
qed (auto intro: append_inv close_inv prepare_inv commit_inv)

interpretation writer_inv: inductive_invariant wsys_init "wstep zc" "\<lambda>s. zstd_ok zc dz \<longrightarrow> wsys_inv zc s"
  for zc dz
  by unfold_locales (auto intro: init_inv wstep_inv)

subsection \<open>Bounds of a block\<close>

lemma pending_of_single:
  "p_minSeq (pending_of [ev]) = Seq ev" "p_maxSeq (pending_of [ev]) = Seq ev"
  "p_minWitnessedAt (pending_of [ev]) = WitnessedAt ev" "p_maxWitnessedAt (pending_of [ev]) = WitnessedAt ev"
  by (simp_all add: pending_of_def pending_append_def pending_reset_def)

lemma pending_of_bounds_snoc:
  assumes "evs \<noteq> []"
  shows "p_minSeq (pending_of (evs @ [ev])) = min (Seq ev) (p_minSeq (pending_of evs))"
    "p_maxSeq (pending_of (evs @ [ev])) = max (Seq ev) (p_maxSeq (pending_of evs))"
    "sint (p_minWitnessedAt (pending_of (evs @ [ev])))
       = min (sint (WitnessedAt ev)) (sint (p_minWitnessedAt (pending_of evs)))"
    "sint (p_maxWitnessedAt (pending_of (evs @ [ev])))
       = max (sint (WitnessedAt ev)) (sint (p_maxWitnessedAt (pending_of evs)))"
proof -
  have "p_sawAny (pending_of evs)" using assms by (simp add: pending_of_columns)
  then show "p_minSeq (pending_of (evs @ [ev])) = min (Seq ev) (p_minSeq (pending_of evs))"
    "p_maxSeq (pending_of (evs @ [ev])) = max (Seq ev) (p_maxSeq (pending_of evs))"
    "sint (p_minWitnessedAt (pending_of (evs @ [ev])))
       = min (sint (WitnessedAt ev)) (sint (p_minWitnessedAt (pending_of evs)))"
    "sint (p_maxWitnessedAt (pending_of (evs @ [ev])))
       = max (sint (WitnessedAt ev)) (sint (p_maxWitnessedAt (pending_of evs)))"
    unfolding pending_of_snoc pending_append_def Let_def by (auto simp: min_def max_def)
qed

lemma pending_bounds:
  assumes "evs \<noteq> []"
  shows "p_minSeq (pending_of evs) = Min (Seq ` set evs)"
    "p_maxSeq (pending_of evs) = Max (Seq ` set evs)"
    "sint (p_minWitnessedAt (pending_of evs)) = Min ((\<lambda>e. sint (WitnessedAt e)) ` set evs)"
    "sint (p_maxWitnessedAt (pending_of evs)) = Max ((\<lambda>e. sint (WitnessedAt e)) ` set evs)"
  using assms
  by (induction evs rule: rev_nonempty_induct) (simp_all add: pending_of_single pending_of_bounds_snoc)

lemma length_block_infos [simp]: "length (block_infos zc off blocks) = length blocks"
  by (induction blocks arbitrary: off) simp_all

lemma block_infos_nth:
  "i < length blocks \<Longrightarrow>
     block_infos zc off blocks ! i
       = info_of zc (off + length (concat (map (frame_wire zc) (take i blocks)))) (blocks ! i)"
  by (induction blocks arbitrary: off i) (auto simp: nth_Cons add.assoc split: nat.splits)

lemma info_of_fields [simp]:
  "Offset (info_of zc off evs) = of_nat off"
  "CompressedSize (info_of zc off evs) = of_nat (length (zc (block_layout evs)))"
  "UncompressedSize (info_of zc off evs) = of_nat (length (block_layout evs))"
  "EventCount (info_of zc off evs) = of_nat (length evs)"
  "MinSeq (info_of zc off evs) = p_minSeq (pending_of evs)"
  "MaxSeq (info_of zc off evs) = p_maxSeq (pending_of evs)"
  "MinWitnessedAt (info_of zc off evs) = p_minWitnessedAt (pending_of evs)"
  "MaxWitnessedAt (info_of zc off evs) = p_maxWitnessedAt (pending_of evs)"
  by (simp_all add: info_of_def pending_info_def)

subsection \<open>What the invariant gives\<close>

text \<open>The size of a row in a block body, and rows small enough for a full block of them to stay within the decoder's
  limit.\<close>

definition event_size :: "event \<Rightarrow> nat" where
  "event_size e = fixedPerEvent + length (Collection e) + length (DID e) + length (Rkey e) + length (Rev e)
     + length (Payload e)"

definition rows_fit :: "wsys \<Rightarrow> bool" where
  "rows_fit s \<longleftrightarrow>
     list_all (\<lambda>e. 4 + w_MaxEventsPerBlock (ws_w s) * event_size e \<le> maxDecodedBlockBytes) (ws_evs s)"

lemma sum_event_size:
  "sum_list (map event_size evs) = fixedPerEvent * length evs + sum_list (map (\<lambda>e. length (Collection e)) evs)
     + sum_list (map (\<lambda>e. length (DID e)) evs) + sum_list (map (\<lambda>e. length (Rkey e)) evs)
     + sum_list (map (\<lambda>e. length (Rev e)) evs) + sum_list (map (\<lambda>e. length (Payload e)) evs)"
  by (induction evs) (simp_all add: event_size_def)

lemma length_block_layout: "length (block_layout evs) = 4 + sum_list (map event_size evs)"
  by (simp add: block_layout_def length_le_put length_concat comp_def sum_list_triv sum_event_size
      fixedPerEvent_def)

lemma block_fits_rows:
  assumes "\<forall>e\<in>set b. 4 + cap * event_size e \<le> maxDecodedBlockBytes" "b \<noteq> []" "length b \<le> cap"
  shows "block_fits b"
proof -
  let ?m = "(maxDecodedBlockBytes - 4) div cap"
  have "0 < cap" using assms(2,3) by (cases b) auto
  then have "\<forall>e\<in>set b. event_size e \<le> ?m"
    using assms(1) by (auto simp: less_eq_div_iff_mult_less_eq mult.commute)
  then have "sum_list (map event_size b) \<le> length b * ?m" by (rule sum_list_bound)
  also have "\<dots> \<le> cap * ?m" using assms(3) by simp
  also have "\<dots> \<le> maxDecodedBlockBytes - 4" by simp
  finally show ?thesis by (simp add: block_fits_def length_block_layout maxDecodedBlockBytes_def)
qed

lemma rows_fit_blocks:
  assumes "rows_fit s" "ws_evs s = concat blocks @ rest" "list_all block_ok blocks"
    and "list_all (\<lambda>b. length b \<le> w_MaxEventsPerBlock (ws_w s)) blocks"
  shows "list_all block_fits blocks"
  unfolding list_all_iff
proof
  fix b assume b: "b \<in> set blocks"
  then have "set b \<subseteq> set (ws_evs s)" using assms(2) by auto
  then show "block_fits b"
    using assms b by (intro block_fits_rows [of b "w_MaxEventsPerBlock (ws_w s)"])
      (auto simp: rows_fit_def list_all_iff block_ok_def)
qed

lemma wsys_inv_file:
  assumes "wsys_inv zc s"
  shows "\<exists>blocks t rest. torn t \<and> w_file (ws_w s) = seg_file zc blocks @ t \<and> list_all block_ok blocks \<and>
           list_all (\<lambda>b. length b \<le> w_MaxEventsPerBlock (ws_w s)) blocks \<and>
           ws_evs s = concat blocks @ rest \<and> ws_acked s \<le> length (concat blocks)"
proof (cases "w_stickyErr (ws_w s)")
  case None
  with assms obtain blocks qs pend where L: "live_inv zc s blocks qs pend" by (auto simp: wsys_inv_def)
  then show ?thesis using torn_Nil
    by (intro exI [of _ blocks] exI [of _ "[]"] exI [of _ "concat qs @ pend"]) (simp add: live_inv_def Let_def)
next
  case (Some e)
  with assms obtain blocks rest where "failed_inv zc s blocks rest" by (auto simp: wsys_inv_def)
  then show ?thesis unfolding failed_inv_def by blast
qed

lemma reachable_file:
  assumes "reachable wsys_init (wstep zc) s" "zstd_ok zc dz" "rows_fit s"
  obtains blocks t rest where "w_file (ws_w s) = seg_file zc blocks @ t" "list_all block_ok blocks"
    "list_all block_fits blocks" "torn t"
    "ws_evs s = concat blocks @ rest" "ws_acked s \<le> length (concat blocks)"
  using wsys_inv_file [of zc s] writer_inv.reachable_inv [OF assms(1), of dz] assms(2)
    rows_fit_blocks [OF assms(3)] by blast

lemma reachable_live:
  assumes "reachable wsys_init (wstep zc) s" "zstd_ok zc dz" "rows_fit s" "w_stickyErr (ws_w s) = None"
  obtains blocks qs pend where "live_inv zc s blocks qs pend" "list_all block_ok blocks" "list_all block_fits blocks"
proof -
  obtain blocks qs pend where L: "live_inv zc s blocks qs pend"
    using writer_inv.reachable_inv [OF assms(1), of dz] assms(2,4) by (auto simp: wsys_inv_def)
  moreover from L have "list_all block_fits blocks" "list_all block_ok blocks"
    using rows_fit_blocks [OF assms(3), of blocks "concat qs @ pend"]
    by (simp_all add: live_inv_def Let_def)
  ultimately show ?thesis using that by blast
qed

lemma concat_map_stored: "concat (map (map stored) blocks) = map stored (concat blocks)"
  by (simp add: map_concat)

lemma accumulate_eq:
  "accumulateScanSequences evs (m, f) =
     (if evs = [] then (m, f)
      else (if f then max m (Max (Seq ` set evs)) else Max (Seq ` set evs), True))"
proof (induction evs arbitrary: m f)
  case (Cons ev evs)
  then show ?case
    by (cases "evs = []"; cases f)
      (auto simp: accumulateScanSequences_def max_def max.assoc simp del: Max_less_iff Max_ge_iff)
qed (simp add: accumulateScanSequences_def)

lemma accumulate_blocks: "fold accumulateScanSequences blocks st = accumulateScanSequences (concat blocks) st"
  by (induction blocks arbitrary: st) (simp_all add: accumulateScanSequences_def)

lemma block_layout_maxInt:
  assumes "block_ok evs"
  shows "length (block_layout evs) \<le> maxInt"
proof -
  have v: "\<forall>e\<in>set evs. ValidateEvent e = Inr ()" and n: "length evs \<le> 262144"
    using assms by (auto simp: block_ok_def list_all_iff maxBlockEventsLimit_def)
  have "length (block_layout evs) = 4 + sum_list (map event_size evs)" by (rule length_block_layout)
  also have "\<dots> \<le> 4 + length evs * 4295033629"
    using v by (intro add_left_mono sum_list_bound)
      (fastforce simp: ValidateEvent_ok event_size_def fixedPerEvent_def)
  also have "\<dots> \<le> maxInt" using n by (simp add: maxInt_def)
  finally show ?thesis .
qed

lemma zstd_ok_identity: "zstd_ok (\<lambda>b. b) Some"
  by (simp add: zstd_ok_def block_layout_maxInt)

text \<open>A small run that the witnesses evaluate: one event appended and flushed, a second one pending. The
  codec of the run is the identity.\<close>

definition io_fine :: io where
  "io_fine = \<lparr> io_write_fail = None, io_sync_ok = True, io_close_ok = True \<rparr>"

definition sample_w1 :: segwriter where
  "sample_w1 = snd (seg_Append sample_event (fresh_writer 8))"

definition sample_w2 :: segwriter where
  "sample_w2 = snd (seg_Flush (\<lambda>b. b) io_fine sample_w1)"

definition sample_w3 :: segwriter where
  "sample_w3 = snd (seg_Append sample_event sample_w2)"

definition sample_sys :: wsys where
  "sample_sys = \<lparr> ws_w = sample_w3, ws_q = [],
     ws_evs = [sample_event, sample_event], ws_acked = 1 \<rparr>"

lemma sample_valid: "ValidateEvent sample_event = Inr ()"
  by (simp add: ValidateEvent_ok sample_event_def kind_Valid_def kind_defs)

lemma sample_w1_eq: "seg_Append sample_event (fresh_writer 8) = (Inr False, sample_w1)"
  "sample_w1 = (fresh_writer 8)\<lparr>w_pending := pending_of [sample_event]\<rparr>"
  by (simp_all add: sample_w1_def seg_Append_def fresh_writer_def sample_valid Let_def pending_of_def
      pending_count_def pending_append_columns) (simp_all add: pending_reset_def)

lemma sample_w2_eq:
  "seg_Flush (\<lambda>b. b) io_fine sample_w1 = (Inr (), sample_w2)"
  "w_closed sample_w2 = False" "w_stickyErr sample_w2 = None" "w_MaxEventsPerBlock sample_w2 = 8"
  "w_pending sample_w2 = pending_reset"
  by (simp_all add: sample_w2_def seg_Flush_def flushLocked_def sample_w1_eq(2) fresh_writer_def io_fine_def Let_def)

lemma sample_w3_eq:
  "seg_Append sample_event sample_w2 = (Inr False, sample_w3)"
  "w_stickyErr (ws_w sample_sys) = None"
  by (simp_all add: sample_sys_def sample_w3_def seg_Append_def sample_w2_eq sample_valid Let_def pending_count_def
      pending_append_columns) (simp_all add: pending_reset_def)

lemma sample_fits: "rows_fit sample_sys"
  by (simp add: rows_fit_def sample_sys_def sample_w3_def seg_Append_def sample_w2_eq sample_valid Let_def
      event_size_def fixedPerEvent_def maxDecodedBlockBytes_def) (simp add: sample_event_def)

lemma sample_reachable: "reachable wsys_init (wstep (\<lambda>b. b)) sample_sys"
proof -
  let ?s0 = "\<lparr> ws_w = fresh_writer 8, ws_q = [], ws_evs = [], ws_acked = 0 \<rparr>"
  have "reachable wsys_init (wstep (\<lambda>b. b)) ?s0"
    by (rule reachable_init) (auto simp: wsys_init_def maxBlockEventsLimit_def intro!: exI [of _ 8])
  from reachable_step [OF this wappend [of sample_event]] sample_w1_eq(1)
  have "reachable wsys_init (wstep (\<lambda>b. b))
      \<lparr> ws_w = sample_w1, ws_q = [], ws_evs = [sample_event], ws_acked = 0 \<rparr>" by fastforce
  from reachable_step [OF this wflush] sample_w2_eq(1)
  have "reachable wsys_init (wstep (\<lambda>b. b))
      \<lparr> ws_w = sample_w2, ws_q = [], ws_evs = [sample_event], ws_acked = 1 \<rparr>" by fastforce
  from reachable_step [OF this wappend [of sample_event]] sample_w3_eq(1)
  show ?thesis unfolding sample_sys_def by fastforce
qed

definition describes :: "BlockInfo \<Rightarrow> event list \<Rightarrow> bool" where
  "describes info evs \<longleftrightarrow> evs \<noteq> [] \<and> unat (EventCount info) = length evs \<and>
     MinSeq info = Min (Seq ` set evs) \<and> MaxSeq info = Max (Seq ` set evs) \<and>
     sint (MinWitnessedAt info) = Min ((\<lambda>e. sint (WitnessedAt e)) ` set evs) \<and>
     sint (MaxWitnessedAt info) = Max ((\<lambda>e. sint (WitnessedAt e)) ` set evs)"

lemma info_describes:
  assumes "block_ok evs"
  shows "describes (info_of zc off evs) (map stored evs)"
proof -
  have "Seq ` set (map stored evs) = Seq ` set evs"
    "(\<lambda>e. sint (WitnessedAt e)) ` set (map stored evs) = (\<lambda>e. sint (WitnessedAt e)) ` set evs"
    by (simp_all add: image_image stored_def)
  moreover have "unat (of_nat (length evs) :: u32) = length evs" "evs \<noteq> []"
    using assms unat_of_nat_less [of "length evs", where 'a = 32]
    by (simp_all add: block_ok_def maxBlockEventsLimit_def)
  ultimately show ?thesis
    unfolding describes_def info_of_fields using pending_bounds [of evs] by simp
qed

lemma block_infos_describe:
  "list_all block_ok blocks \<Longrightarrow> list_all2 describes (block_infos zc off blocks) (map (map stored) blocks)"
  by (induction blocks arbitrary: off) (simp_all add: info_describes)

subsection \<open>The flushed range\<close>

lemma maxSeq_le:
  assumes "block_ok evs"
  shows "p_maxSeq (pending_of evs) \<ge> seq \<longleftrightarrow> (\<exists>e\<in>set evs. Seq e \<ge> seq)"
proof -
  have "evs \<noteq> []" using assms by (simp add: block_ok_def)
  then show ?thesis by (subst pending_bounds(2)) (simp_all add: Max_ge_iff)
qed

lemma sorted_blocks_mono:
  assumes "sorted (map Seq (concat bs))" "list_all block_ok bs" "i \<le> j" "j < length bs"
    and "\<exists>e\<in>set (bs ! i). Seq e \<ge> seq"
  shows "\<exists>e\<in>set (bs ! j). Seq e \<ge> seq"
proof (cases "i = j")
  case False
  then have ij: "i < j" using assms(3) by simp
  obtain e where e: "e \<in> set (bs ! i)" "Seq e \<ge> seq" using assms(5) by blast
  have "bs ! j \<noteq> []" using assms(2,4) by (auto simp: list_all_length block_ok_def)
  then obtain e' where e': "e' \<in> set (bs ! j)" by fastforce
  have "bs = take j bs @ drop j bs" by simp
  then have srt: "sorted (map Seq (concat (take j bs)) @ map Seq (concat (drop j bs)))"
    using assms(1) by (metis concat_append map_append)
  have "bs ! i \<in> set (take j bs)"
    unfolding in_set_conv_nth [of "bs ! i"] using ij assms(4) by (auto intro!: exI [of _ i])
  then have te: "e \<in> set (concat (take j bs))" using e(1) by auto
  have "bs ! j \<in> set (drop j bs)"
    unfolding in_set_conv_nth [of "bs ! j"] using assms(4) by (auto intro!: exI [of _ 0])
  then have de: "e' \<in> set (concat (drop j bs))" using e' by auto
  have "Seq e \<le> Seq e'" using srt te de by (auto simp: sorted_append)
  with e(2) e' show ?thesis using order_trans by blast
qed (use assms(5) in simp)

lemma WalkActiveRange_tail:
  assumes "zstd_ok zc dz" "list_all block_ok bs" "list_all block_fits bs" "length (seg_file zc bs) \<le> maxInt"
  shows "WalkActiveRange dz (seg_file zc bs) (length (seg_file zc (take i bs))) (length (seg_file zc bs))
           = Inr (map (map stored) (drop i bs))"
proof -
  have split: "seg_file zc bs = seg_file zc (take i bs) @ concat (map (frame_wire zc) (drop i bs))"
    by (simp add: seg_file_def flip: concat_append map_append)
  have "list_all block_ok (drop i bs)" "list_all block_fits (drop i bs)"
    using assms(2,3) by (metis append_take_drop_id list_all_append)+
  from walk_range_frames [OF assms(1) this _ assms(4), of "seg_file zc (take i bs)" "[]" "[]"] split
  have "walk_range_loop dz (seg_file zc bs) (length (seg_file zc (take i bs))) (length (seg_file zc bs)) []
      = Inr (map (map stored) (drop i bs))" by simp
  moreover have "length (seg_file zc (take i bs)) \<le> length (seg_file zc bs)" using split by simp
  moreover have "ReservedHeaderBytes \<le> length (seg_file zc (take i bs))" by (simp add: length_seg_file)
  moreover have "12 \<le> length (seg_file zc bs)" by (simp add: length_seg_file ReservedHeaderBytes_def)
  ultimately show ?thesis
    using assms(4) seg_file_active(2) [of zc bs "[]"] by (simp add: WalkActiveRange_def not_less)
qed

lemma flushed_range_of_blocks:
  fixes seq :: u64
  assumes "zstd_ok zc dz" "list_all block_ok bs" "list_all block_fits bs" "sorted (map Seq (concat bs))"
    and "length (seg_file zc bs) \<le> maxInt"
  defines "infos \<equiv> block_infos zc ReservedHeaderBytes bs"
  defines "i \<equiv> sort_Search 0 (length bs) (\<lambda>i. MaxSeq (infos ! i) \<ge> seq)"
  shows "i \<le> length bs"
    and "i < length bs \<Longrightarrow> WalkActiveRange dz (seg_file zc bs) (unat (Offset (infos ! i))) (length (seg_file zc bs))
           = Inr (map (map stored) (drop i bs))"
    and "filter (\<lambda>e. Seq e \<ge> seq) (concat (map (map stored) (take i bs))) = []"
proof -
  let ?f = "\<lambda>i. MaxSeq (infos ! i) \<ge> seq"
  have f: "?f k \<longleftrightarrow> (\<exists>e\<in>set (bs ! k). Seq e \<ge> seq)" if "k < length bs" for k
    using that assms(2) by (simp add: infos_def block_infos_nth maxSeq_le list_all_length)
  have "\<forall>k l. k \<le> l \<and> l < length bs \<and> ?f k \<longrightarrow> ?f l"
    using f sorted_blocks_mono [OF assms(4,2)] by (meson le_less_trans)
  from sort_Search_least [OF this, of 0]
  have S: "i \<le> length bs" "\<forall>k<i. \<not> ?f k" by (auto simp: i_def)
  then show "i \<le> length bs" by simp
  have "\<not> Seq e \<ge> seq" if "e \<in> set (concat (take i bs))" for e
  proof -
    from that obtain b where b: "b \<in> set (take i bs)" "e \<in> set b" by auto
    then obtain k where "k < i" "k < length bs" "bs ! k = b" unfolding in_set_conv_nth [of b] by auto
    with S f b(2) show ?thesis by blast
  qed
  then show "filter (\<lambda>e. Seq e \<ge> seq) (concat (map (map stored) (take i bs))) = []"
    unfolding concat_map_stored filter_empty_conv by (auto simp: stored_def)
  assume lt: "i < length bs"
  have "length (seg_file zc (take i bs)) \<le> length (seg_file zc bs)"
    by (metis append_take_drop_id concat_append length_append length_seg_file le_add1 map_append add_le_mono order_refl)
  then have "unat (Offset (infos ! i)) = length (seg_file zc (take i bs))"
    using lt assms(5) by (simp add: infos_def block_infos_nth length_seg_file [symmetric])
      (simp add: maxInt_def unat_of_nat_less)
  with WalkActiveRange_tail [OF assms(1,2,3,5)]
  show "WalkActiveRange dz (seg_file zc bs) (unat (Offset (infos ! i))) (length (seg_file zc bs))
      = Inr (map (map stored) (drop i bs))" by simp
qed

subsection \<open>Properties of the active segment\<close>





text \<open>C18: recovery. Reopening the file a writer left behind, torn tail included, succeeds: the recovered file
  holds the blocks a scan of the old one returns, and a block written at its end is read back after them.\<close>

theorem resume_recovers:
  assumes "reachable wsys_init (wstep zc) s" and "zstd_ok zc dz" and "rows_fit s"
  shows "\<exists>f blocks st. resumeExistingSegment (w_file (ws_w s)) = Inr f \<and>
           extractScanActive dz (w_file (ws_w s)) = Inr (blocks, st) \<and>
           extractScanActive dz f = Inr (blocks, st) \<and>
           (\<forall>evs. block_ok evs \<and> block_fits evs \<longrightarrow> extractScanActive dz (f @ frame_wire zc evs)
              = Inr (blocks @ [map stored evs], accumulateScanSequences evs st))"
proof -
  obtain blocks t rest where b: "w_file (ws_w s) = seg_file zc blocks @ t" "list_all block_ok blocks"
    "list_all block_fits blocks" "torn t"
    by (rule reachable_file [OF assms])
  have "extractScanActive dz (seg_file zc blocks @ frame_wire zc evs)
      = Inr (map (map stored) blocks @ [map stored evs],
             accumulateScanSequences evs (fold accumulateScanSequences blocks (0, False)))"
    if "block_ok evs" "block_fits evs" for evs
    using scan_seg_file [OF assms(2) _ _ torn_Nil, of "blocks @ [evs]"] b(2,3) that by (simp add: seg_file_snoc)
  then show ?thesis
    using resume_seg_file [OF assms(2) b(2,4)] scan_seg_file [OF assms(2) b(2-4)]
      scan_seg_file [OF assms(2) b(2,3) torn_Nil] b(1) by auto
qed

theorem resume_recovers_witness:
  "\<exists>f blocks st. resumeExistingSegment (w_file (ws_w sample_sys)) = Inr f \<and>
     extractScanActive Some f = Inr (blocks, st) \<and>
     extractScanActive Some (f @ frame_wire (\<lambda>b. b) [sample_event])
       = Inr (blocks @ [[stored sample_event]], accumulateScanSequences [sample_event] st)"
proof -
  have "block_ok [sample_event]" by (simp add: block_ok_def maxBlockEventsLimit_def sample_valid)
  moreover have "block_fits [sample_event]"
    by (simp add: block_fits_def length_block_layout event_size_def fixedPerEvent_def maxDecodedBlockBytes_def)
      (simp add: sample_event_def)
  ultimately show ?thesis using resume_recovers [OF sample_reachable zstd_ok_identity sample_fits] by fastforce
qed

text \<open>C26: the in-memory block index describes the file. While no write has failed, the writer has one
  \<^verbatim>\<open>BlockInfo\<close> per block a scan returns, and each carries that block's row count and exact sequence and
  witnessed-at bounds, the latter in the signed order.\<close>

theorem block_index_sound:
  assumes "reachable wsys_init (wstep zc) s" and "zstd_ok zc dz" and "rows_fit s" and "w_stickyErr (ws_w s) = None"
  shows "\<exists>blocks st. extractScanActive dz (w_file (ws_w s)) = Inr (blocks, st) \<and>
           list_all2 describes (w_flushedBlocks (ws_w s)) blocks"
proof -
  obtain blocks qs pend where L: "live_inv zc s blocks qs pend"
    and fit: "list_all block_ok blocks" "list_all block_fits blocks" by (rule reachable_live [OF assms])
  then have b: "w_file (ws_w s) = seg_file zc blocks @ []"
    "w_flushedBlocks (ws_w s) = block_infos zc ReservedHeaderBytes blocks"
    by (simp_all add: live_inv_def Let_def)
  show ?thesis
    using scan_seg_file [OF assms(2) fit torn_Nil] block_infos_describe [OF fit(1)] b by auto
qed

theorem block_index_sound_witness:
  "\<exists>blocks st. extractScanActive Some (w_file (ws_w sample_sys)) = Inr (blocks, st) \<and>
     list_all2 describes (w_flushedBlocks (ws_w sample_sys)) blocks"
  by (rule block_index_sound [OF sample_reachable zstd_ok_identity sample_fits sample_w3_eq(2)])

text \<open>\<^verbatim>\<open>ScanMaxSeq\<close> on a file a writer left behind reports the greatest sequence number of the scanned
  events, and reports no event exactly when there is none.\<close>

lemma scan_max_seq:
  assumes "reachable wsys_init (wstep zc) s" and "zstd_ok zc dz" and "rows_fit s"
  shows "\<exists>blocks m found. extractScanActive dz (w_file (ws_w s)) = Inr (blocks, m, found) \<and>
           (found \<longleftrightarrow> concat blocks \<noteq> []) \<and> (found \<longrightarrow> m = Max (Seq ` set (concat blocks)))"
proof -
  obtain blocks t rest where b: "w_file (ws_w s) = seg_file zc blocks @ t" "list_all block_ok blocks"
    "list_all block_fits blocks" "torn t"
    by (rule reachable_file [OF assms])
  define sb where "sb = map (map stored) blocks"
  have m: "Seq ` set (concat sb) = Seq ` set (concat blocks)" "concat sb = [] \<longleftrightarrow> concat blocks = []"
    unfolding sb_def concat_map_stored list.set_map image_image list.map_disc_iff by (simp_all add: stored_def)
  have scan: "extractScanActive dz (w_file (ws_w s)) = Inr (sb, accumulateScanSequences (concat blocks) (0, False))"
    using scan_seg_file [OF assms(2) b(2-4)] b(1) by (simp add: sb_def accumulate_blocks)
  show ?thesis
  proof (cases "concat blocks = []")
    case True
    with scan have "extractScanActive dz (w_file (ws_w s)) = Inr (sb, 0, False)"
      by (simp only: accumulate_eq if_True refl)
    with True m(2) show ?thesis by blast
  next
    case False
    with scan have "extractScanActive dz (w_file (ws_w s)) = Inr (sb, Max (Seq ` set (concat blocks)), True)"
      by (simp only: accumulate_eq if_False if_True)
    with False m show ?thesis by (intro exI [of _ sb] exI [of _ "Max (Seq ` set (concat blocks))"] exI [of _ True]) simp
  qed
qed



text \<open>C37: the writer has no limit on the size of a block in bytes, but the decoder has. A pending block whose body is
  larger than \<^verbatim>\<open>maxDecodedBlockBytes\<close> is written, fsynced and acknowledged, and the segment can then no longer be
  scanned: every later read of the file ends in a decompression error.\<close>

theorem oversized_block_unreadable:
  assumes "zstd_ok zc dz" and "block_ok evs" and "length (block_layout evs) > maxDecodedBlockBytes"
    and "w = (fresh_writer cap)\<lparr>w_pending := pending_of evs\<rparr>"
  shows "\<exists>w'. seg_Flush zc io_fine w = (Inr (), w') \<and> extractScanActive dz (w_file w') = Inl ErrDecompress"
proof -
  let ?w' = "snd (seg_Flush zc io_fine w)"
  have ne: "evs \<noteq> []" using assms(2) by (simp add: block_ok_def)
  have off: "ReservedHeaderBytes = length initializeNewSegment" by simp
  have fl: "seg_Flush zc io_fine w = (Inr (), ?w')" "w_file ?w' = initializeNewSegment @ frame_wire zc evs @ []"
    using ne WriteAt_end [of _ initializeNewSegment]
    by (simp_all add: assms(4) seg_Flush_def flushLocked_def fresh_writer_def io_fine_def Let_def encode_pending
        frame_wire_def wire_def)
  have len: "length (zc (block_layout evs)) \<le> maxInt" using assms(1,2) by (simp add: zstd_ok_def)
  have dz: "dz (zc (block_layout evs)) = Some (block_layout evs)" using assms(1) by (simp add: zstd_ok_def)
  have "scanActiveBlock dz (initializeNewSegment @ frame_wire zc evs @ []) (length initializeNewSegment)
      = Inl ErrDecompress"
    using len wire_body [of "zc (block_layout evs)" initializeNewSegment "[]"] dz assms(3)
    by (simp add: scanActiveBlock_def frame_wire_def Let_def decodeBlockCompressed_def DecodeAll_def)
  then have "extractScanActive dz (w_file ?w') = Inl ErrDecompress"
    using seg_file_active(2) [of zc "[evs]" "[]"] unfolding extractScanActive_def fl(2) off
    by (subst scan_loop.simps) (simp add: seg_file_def)
  with fl(1) show ?thesis by blast
qed

theorem oversized_block_unreadable_witness:
  "\<exists>w'. seg_Flush (\<lambda>b. b) io_fine
          ((fresh_writer 8)\<lparr>w_pending := pending_of [sample_event\<lparr>Payload := replicate 1073741825 0\<rparr>]\<rparr>) = (Inr (), w') \<and>
        extractScanActive Some (w_file w') = Inl ErrDecompress"
proof (rule oversized_block_unreadable [OF zstd_ok_identity _ _ refl])
  show "block_ok [sample_event\<lparr>Payload := replicate 1073741825 0\<rparr>]"
    by (simp add: block_ok_def maxBlockEventsLimit_def ValidateEvent_ok sample_event_def kind_Valid_def kind_defs)
  show "length (block_layout [sample_event\<lparr>Payload := replicate 1073741825 0\<rparr>]) > maxDecodedBlockBytes"
    by (simp add: length_block_layout event_size_def maxDecodedBlockBytes_def)
qed

end
