(* ===== verification/DiskLog.thy ===== *)
theory DiskLog
  imports Prelude "HOL-Library.Sublist"
begin

text \<open>
  The relay's output log (\<^verbatim>\<open>cmd/relay/stream/persist/diskpersist/diskpersist.go\<close>): append-only log files
  with a 28-byte record header, rotation, restart with recovery of a torn tail, playback, takedown and garbage
  collection. File names \<^verbatim>\<open>evts-<n>\<close> are represented by their number. The CBOR codec of the event types and the
  resolver of account numbers are parameters: \<open>mar\<close> marshals an event, \<open>unm\<close> unmarshals a record body and says how many
  bytes it read, \<open>uids\<close> is the account number of a DID. Every operation that changes a file or the database
  takes the outcomes of those calls as an argument.
\<close>

subsection \<open>Events, records and state\<close>

datatype xkind = RepoCommit | RepoSync | RepoIdentity | RepoAccount | XOther

text \<open>\<^verbatim>\<open>XRPCStreamEvent\<close>: which pointer is set, the DID and sequence number of the message, and its other fields.\<close>

record xevt =
  x_kind :: xkind
  x_did :: string
  x_seq :: int
  x_rest :: bytes

datatype dp_error =
    DpMarshal | DpUid | DpContext | DpRotate | DpWrite | DpSync
  | DpUnexpectedEOF | DpTruncate | DpRead | DpUnmarshal | DpCallback | DpUnknownKind | DpNoFile | DpMeta | DpClose | DpConfig

record evtHeader =
  Flags :: u32
  EKind :: u32
  HSeq :: int
  Usr :: u64
  Len :: u32

text \<open>\<^verbatim>\<open>LogFileRef\<close>; the path is the number in \<^verbatim>\<open>evts-<n>\<close>.\<close>

record LogFileRef =
  Path :: int
  Archived :: bool
  SeqStart :: int
  CreatedAt :: int

record dpstate =
  dp_eventsPerFile :: int
  dp_initialSeq :: int
  dp_meta :: "LogFileRef list"
  dp_fs :: "bool \<times> int \<Rightarrow> bytes option"
  dp_logfi :: int
  dp_pos :: nat
  dp_eventCounter :: int
  dp_curSeq :: int
  dp_failed :: "dp_error option"
  dp_hasBroadcast :: bool
  dp_broadcast :: "xevt list"

definition evtKindCommit :: u32 where "evtKindCommit = 1"
definition evtKindIdentity :: u32 where "evtKindIdentity = 4"
definition evtKindAccount :: u32 where "evtKindAccount = 5"
definition evtKindSync :: u32 where "evtKindSync = 6"

lemmas evtKind_defs = evtKindCommit_def evtKindIdentity_def evtKindAccount_def evtKindSync_def

definition EvtFlagTakedown :: u32 where "EvtFlagTakedown = 1"
definition EvtFlagRebased :: u32 where "EvtFlagRebased = 2"

definition headerSize :: nat where "headerSize = 4 + 4 + 4 + 8 + 8"

subsection \<open>Reading headers; the startup scan\<close>

definition parseHeader :: "bytes \<Rightarrow> evtHeader" where
  "parseHeader b =
     \<lparr> Flags = le_get (take 4 b), EKind = le_get (take 4 (drop 4 b)),
       HSeq = sint (le_get (take 8 (drop 20 b)) :: u64),
       Usr = le_get (take 8 (drop 12 b)), Len = le_get (take 4 (drop 8 b)) \<rparr>"

text \<open>\<^verbatim>\<open>readHeader\<close> at offset \<open>off\<close>: end of file, a partial header, or the header.\<close>

datatype hread = HEOF | HUnexpectedEOF | HOk evtHeader

definition readHeader :: "bytes \<Rightarrow> nat \<Rightarrow> hread" where
  "readHeader file off =
     (if length file \<le> off then HEOF
      else if length file - off < headerSize then HUnexpectedEOF
      else HOk (parseHeader (take headerSize (drop off file))))"

text \<open>The outcomes of the truncation and of the fsync of \<^verbatim>\<open>recoverIncompleteTail\<close>.\<close>

definition recoverIncompleteTail ::
  "bool \<times> bool \<Rightarrow> bytes \<Rightarrow> int \<Rightarrow> nat \<Rightarrow> int \<Rightarrow> (dp_error, int \<times> bytes \<times> nat) result" where
  "recoverIncompleteTail ok file end offset lastSeq =
     (if end \<noteq> -1 then Inl DpUnexpectedEOF
      else if \<not> fst ok then Inl DpTruncate
      else if \<not> snd ok then Inl DpSync
      else Inr (lastSeq, take offset file, offset))"

text \<open>\<^verbatim>\<open>scanForLastSeq\<close> from offset \<open>offset\<close>: the sequence number it returns, the file and the file position after it.\<close>

function scan_from ::
  "bool \<times> bool \<Rightarrow> bytes \<Rightarrow> int \<Rightarrow> nat \<Rightarrow> int \<Rightarrow> (dp_error, int \<times> bytes \<times> nat) result" where
  "scan_from ok file end offset lastSeq =
     (case readHeader file offset of
        HEOF \<Rightarrow> Inr (lastSeq, file, offset)
      | HUnexpectedEOF \<Rightarrow> recoverIncompleteTail ok file end offset lastSeq
      | HOk eh \<Rightarrow>
          if offset + headerSize + unat (Len eh) > length file
          then recoverIncompleteTail ok file end offset lastSeq
          else if end > 0 \<and> HSeq eh > end then Inr (HSeq eh, file, offset)
          else scan_from ok file end (offset + headerSize + unat (Len eh)) (HSeq eh))"
  by pat_completeness auto
termination
  by (relation "measure (\<lambda>(ok, file, end, offset, lastSeq). length file - offset)")
    (auto simp: readHeader_def headerSize_def split: if_splits)

declare scan_from.simps [simp del]

definition scanForLastSeq :: "bool \<times> bool \<Rightarrow> bytes \<Rightarrow> int \<Rightarrow> (dp_error, int \<times> bytes \<times> nat) result" where
  "scanForLastSeq ok file end = scan_from ok file end 0 (-1)"

subsection \<open>Starting and rotating the log\<close>

text \<open>How far the creation of a log file gets: the directory is made and synced, the file is created and synced, its
  directory synced, and the reference stored. \<open>None\<close> is success.\<close>

datatype create_fault = FailBeforeCreate | FailAfterCreate

definition initLogFile :: "create_fault option \<Rightarrow> int \<Rightarrow> dpstate \<Rightarrow> (dp_error, dpstate) result" where
  "initLogFile fault now d =
     (case fault of Some _ \<Rightarrow> Inl DpMeta
      | None \<Rightarrow> Inr (d\<lparr> dp_fs := (dp_fs d)((False, 0) := Some []),
                        dp_meta := dp_meta d @ [\<lparr> Path = 0, Archived = False, SeqStart = 0, CreatedAt = now \<rparr>],
                        dp_logfi := 0, dp_pos := 0, dp_curSeq := dp_initialSeq d \<rparr>))"

text \<open>\<^verbatim>\<open>Order("seq_start desc").Limit(1)\<close> and \<^verbatim>\<open>Order("seq_start asc")\<close>.\<close>

definition by_seq_asc :: "LogFileRef list \<Rightarrow> LogFileRef list" where
  "by_seq_asc = sort_key SeqStart"

definition latest_ref :: "LogFileRef list \<Rightarrow> LogFileRef option" where
  "latest_ref refs = (case rev (by_seq_asc refs) of [] \<Rightarrow> None | r # _ \<Rightarrow> Some r)"

definition resumeLog :: "bool \<times> bool \<Rightarrow> create_fault option \<Rightarrow> int \<Rightarrow> dpstate \<Rightarrow> (dp_error, dpstate) result" where
  "resumeLog ok fault now d =
     (case latest_ref (dp_meta d) of
        None \<Rightarrow> initLogFile fault now d
      | Some lfr \<Rightarrow>
          (case dp_fs d (False, Path lfr) of
             None \<Rightarrow> Inl DpNoFile
           | Some file \<Rightarrow>
               rbind (scanForLastSeq ok file (-1)) (\<lambda>(seq, file', pos).
                 let seq = (if seq = -1 then (if SeqStart lfr = 0 then dp_initialSeq d else SeqStart lfr) else seq + 1);
                     seq = (if seq < dp_initialSeq d then dp_initialSeq d else seq);
                     seqStart = (if SeqStart lfr < dp_initialSeq d then dp_initialSeq d else SeqStart lfr)
                 in Inr (d\<lparr> dp_fs := (dp_fs d)((False, Path lfr) := Some file'),
                            dp_curSeq := seq, dp_eventCounter := seq - seqStart,
                            dp_logfi := Path lfr, dp_pos := pos \<rparr>))))"

text \<open>\<^verbatim>\<open>NewDiskPersistence\<close> over the references and files found at startup.\<close>

definition NewDiskPersistence ::
  "bool \<times> bool \<Rightarrow> create_fault option \<Rightarrow> int \<Rightarrow> int \<Rightarrow> int \<Rightarrow> LogFileRef list \<Rightarrow> (bool \<times> int \<Rightarrow> bytes option) \<Rightarrow>
   (dp_error, dpstate) result" where
  "NewDiskPersistence ok fault now eventsPerFile initialSeq meta fs =
     (if initialSeq \<le> 0 then Inl DpConfig
      else if eventsPerFile \<le> 0 then Inl DpConfig
      else resumeLog ok fault now
        \<lparr> dp_eventsPerFile = eventsPerFile, dp_initialSeq = initialSeq, dp_meta = meta, dp_fs = fs, dp_logfi = 0,
          dp_pos = 0, dp_eventCounter = 0, dp_curSeq = 0, dp_failed = None, dp_hasBroadcast = False,
          dp_broadcast = [] \<rparr>)"

definition SetEventBroadcaster :: "dpstate \<Rightarrow> dpstate" where
  "SetEventBroadcaster d = d\<lparr>dp_hasBroadcast := True\<rparr>"

definition swapLog :: "create_fault option \<Rightarrow> int \<Rightarrow> dpstate \<Rightarrow> bool \<times> dpstate" where
  "swapLog fault now d =
     (case fault of
        Some FailBeforeCreate \<Rightarrow> (False, d)
      | Some FailAfterCreate \<Rightarrow> (False, d\<lparr> dp_fs := (dp_fs d)((False, dp_curSeq d) := Some []) \<rparr>)
      | None \<Rightarrow> (True, d\<lparr> dp_fs := (dp_fs d)((False, dp_curSeq d) := Some []),
                          dp_meta := dp_meta d @
                            [\<lparr> Path = dp_curSeq d, Archived = False, SeqStart = dp_curSeq d, CreatedAt = now \<rparr>],
                          dp_logfi := dp_curSeq d, dp_pos := 0, dp_eventCounter := 0 \<rparr>))"

subsection \<open>Persist\<close>

text \<open>The outcomes of the I/O of one \<^verbatim>\<open>Persist\<close> call: whether the context is live, how the rotation goes, what the
  \<open>i\<close>-th write call returns (how many bytes it wrote and whether it failed), and whether the fsync succeeds.\<close>

record pio =
  pio_ctx_ok :: bool
  pio_swap :: "create_fault option"
  pio_write :: "nat \<Rightarrow> nat \<times> bool"
  pio_sync_ok :: bool
  pio_now :: int

text \<open>\<^verbatim>\<open>writeAll\<close>: whether it succeeded, and the bytes that reached the file.\<close>

function writeAll :: "(nat \<Rightarrow> nat \<times> bool) \<Rightarrow> nat \<Rightarrow> bytes \<Rightarrow> bytes \<Rightarrow> bool \<times> bytes" where
  "writeAll w i done data =
     (if data = [] then (True, done)
      else let (n, err) = w i in
        if n > length data then (False, done)
        else let done' = done @ take n data; data' = drop n data in
          if err then (if n > 0 \<and> data' \<noteq> [] then writeAll w (i + 1) done' data' else (False, done'))
          else if n = 0 then (False, done')
          else writeAll w (i + 1) done' data')"
  by pat_completeness auto
termination
  by (relation "measure (\<lambda>(w, i, done, data). length data)") auto

declare writeAll.simps [simp del]

definition failLocked :: "dp_error \<Rightarrow> dpstate \<Rightarrow> (dp_error, xevt) result \<times> dpstate" where
  "failLocked e d = (case dp_failed d of None \<Rightarrow> (Inl e, d\<lparr>dp_failed := Some e\<rparr>) | Some e' \<Rightarrow> (Inl e', d))"

text \<open>\<^verbatim>\<open>data[20:]\<close> receives the sequence number.\<close>

definition put_seq :: "int \<Rightarrow> bytes \<Rightarrow> bytes" where
  "put_seq seq data = WriteAt (le_put 8 (of_int seq :: u64)) 20 data"

definition write_log :: "bytes \<Rightarrow> dpstate \<Rightarrow> dpstate" where
  "write_log out d =
     d\<lparr> dp_fs := (dp_fs d)((False, dp_logfi d) :=
          Some (WriteAt out (dp_pos d) (case dp_fs d (False, dp_logfi d) of None \<Rightarrow> [] | Some f \<Rightarrow> f))),
        dp_pos := dp_pos d + length out \<rparr>"

text \<open>The part of \<^verbatim>\<open>persistLocked\<close> after the rotation. It returns the event with its sequence number set.\<close>

definition persist_append :: "pio \<Rightarrow> xevt \<Rightarrow> bytes \<Rightarrow> dpstate \<Rightarrow> (dp_error, xevt) result \<times> dpstate" where
  "persist_append io xe data d =
     (case writeAll (pio_write io) 0 [] (put_seq (dp_curSeq d) data) of (written, out) \<Rightarrow>
        if \<not> written then failLocked DpWrite (write_log out d)
        else if \<not> pio_sync_ok io then failLocked DpSync (write_log out d)
        else
          (Inr (xe\<lparr>x_seq := dp_curSeq d\<rparr>),
           (write_log out d)
             \<lparr> dp_curSeq := dp_curSeq d + 1, dp_eventCounter := dp_eventCounter d + 1,
               dp_broadcast := (if dp_hasBroadcast d then dp_broadcast d @ [xe\<lparr>x_seq := dp_curSeq d\<rparr>]
                                else dp_broadcast d) \<rparr>))"

definition persistLocked :: "pio \<Rightarrow> xevt \<Rightarrow> bytes \<Rightarrow> dpstate \<Rightarrow> (dp_error, xevt) result \<times> dpstate" where
  "persistLocked io xe data d =
     (case dp_failed d of Some e \<Rightarrow> (Inl e, d) | None \<Rightarrow>
      if \<not> pio_ctx_ok io then (Inl DpContext, d)
      else if dp_eventCounter d > 0 \<and> dp_eventCounter d mod dp_eventsPerFile d = 0 then
        (case swapLog (pio_swap io) (pio_now io) d of (swapped, d) \<Rightarrow>
           if \<not> swapped then failLocked DpRotate d else persist_append io xe data d)
      else persist_append io xe data d)"

fun evt_kind :: "xkind \<Rightarrow> u32 option" where
  "evt_kind RepoCommit = Some evtKindCommit"
| "evt_kind RepoSync = Some evtKindSync"
| "evt_kind RepoIdentity = Some evtKindIdentity"
| "evt_kind RepoAccount = Some evtKindAccount"
| "evt_kind XOther = None"

definition dp_Persist ::
  "(xevt \<Rightarrow> bytes option) \<Rightarrow> (string \<Rightarrow> u64 option) \<Rightarrow> pio \<Rightarrow> xevt \<Rightarrow> dpstate \<Rightarrow>
   (dp_error, xevt) result \<times> dpstate" where
  "dp_Persist mar uids io xe d =
     (case evt_kind (x_kind xe) of
        None \<Rightarrow> (Inr xe, d)
      | Some evtKind \<Rightarrow>
          (case mar xe of None \<Rightarrow> (Inl DpMarshal, d)
           | Some body \<Rightarrow>
               (case uids (x_did xe) of None \<Rightarrow> (Inl DpUid, d)
                | Some uid \<Rightarrow>
                    persistLocked io xe
                      (le_put 4 (0 :: u32) @ le_put 4 evtKind @ le_put 4 (of_nat (length body) :: u32) @
                       le_put 8 uid @ replicate 8 0 @ body) d)))"

definition dp_Flush :: "bool \<Rightarrow> bool \<Rightarrow> dpstate \<Rightarrow> (dp_error, unit) result" where
  "dp_Flush ctx_ok sync_ok d =
     (case dp_failed d of Some e \<Rightarrow> Inl e | None \<Rightarrow>
      if \<not> ctx_ok then Inl DpContext else if sync_ok then Inr () else Inl DpSync)"

text \<open>The first call of \<^verbatim>\<open>Shutdown\<close>; later calls return the same value.\<close>

definition dp_Shutdown :: "bool \<Rightarrow> bool \<Rightarrow> bool \<Rightarrow> dpstate \<Rightarrow> (dp_error, unit) result" where
  "dp_Shutdown ctx_ok sync_ok close_ok d =
     (case dp_Flush ctx_ok sync_ok d of
        Inl e \<Rightarrow> Inl e
      | Inr _ \<Rightarrow> if close_ok then Inr () else Inl DpClose)"

subsection \<open>Playback\<close>

text \<open>Playback reads with \<open>unm\<close> and hands events to the callback \<open>cb\<close>, which says whether it accepts them; \<open>acc\<close>
  collects the events it accepted. A result \<open>None\<close> is the nil \<^verbatim>\<open>lastSeq\<close>.\<close>

definition postDoNotEmit :: "u32 \<Rightarrow> bool" where
  "postDoNotEmit flags \<longleftrightarrow> flags AND (EvtFlagRebased OR EvtFlagTakedown) \<noteq> 0"

definition kind_of :: "u32 \<Rightarrow> xkind option" where
  "kind_of k = (if k = evtKindCommit then Some RepoCommit
     else if k = evtKindSync then Some RepoSync
     else if k = evtKindIdentity then Some RepoIdentity
     else if k = evtKindAccount then Some RepoAccount else None)"

function read_loop ::
  "(xkind \<Rightarrow> bytes \<Rightarrow> (xevt \<times> nat) option) \<Rightarrow> (xevt \<Rightarrow> bool) \<Rightarrow> bytes \<Rightarrow> nat \<Rightarrow> int \<Rightarrow> xevt list \<Rightarrow>
   (dp_error, int option \<times> xevt list) result" where
  "read_loop unm cb file off lastSeq acc =
     (case readHeader file off of
        HEOF \<Rightarrow> Inr (Some lastSeq, acc)
      | HUnexpectedEOF \<Rightarrow> Inl DpUnexpectedEOF
      | HOk h \<Rightarrow>
          let off = off + headerSize; n = unat (Len h) in
          if postDoNotEmit (Flags h) then
            (if length file - off < n then Inl DpRead else read_loop unm cb file (off + n) (HSeq h) acc)
          else case kind_of (EKind h) of
            None \<Rightarrow> Inl DpUnknownKind
          | Some k \<Rightarrow>
              (case unm k (take n (drop off file)) of
                 None \<Rightarrow> Inl DpUnmarshal
               | Some (evt, used) \<Rightarrow>
                   let evt = evt\<lparr>x_seq := HSeq h\<rparr> in
                   if \<not> cb evt then Inl DpCallback
                   else read_loop unm cb file (off + used) (HSeq h) (acc @ [evt])))"
  by pat_completeness auto
termination
  by (relation "measure (\<lambda>(unm, cb, file, off, lastSeq, acc). length file - off)")
    (auto simp: readHeader_def headerSize_def split: if_splits)

declare read_loop.simps [simp del]

definition readEventsFrom ::
  "(xkind \<Rightarrow> bytes \<Rightarrow> (xevt \<times> nat) option) \<Rightarrow> (xevt \<Rightarrow> bool) \<Rightarrow> int \<Rightarrow> bytes option \<Rightarrow> xevt list \<Rightarrow>
   (dp_error, int option \<times> xevt list) result" where
  "readEventsFrom unm cb since fi acc =
     (case fi of None \<Rightarrow> Inl DpNoFile
      | Some file \<Rightarrow>
          if since \<noteq> 0 then
            rbind (scanForLastSeq (False, False) file since) (\<lambda>(lastSeq, file, pos).
              if since > lastSeq then Inr (None, acc) else read_loop unm cb file pos 0 acc)
          else read_loop unm cb file 0 0 acc)"

fun playback_files ::
  "(xkind \<Rightarrow> bytes \<Rightarrow> (xevt \<times> nat) option) \<Rightarrow> (xevt \<Rightarrow> bool) \<Rightarrow> dpstate \<Rightarrow> int \<Rightarrow> LogFileRef list \<Rightarrow> xevt list \<Rightarrow>
   (dp_error, int option \<times> xevt list) result" where
  "playback_files unm cb d since [] acc = Inr (None, acc)"
| "playback_files unm cb d since (lf # lfs) acc =
     rbind (readEventsFrom unm cb since (dp_fs d (False, Path lf)) acc) (\<lambda>(lastSeq, acc).
       case lastSeq of
         Some s \<Rightarrow>
           if lfs = [] \<and> s - SeqStart lf = dp_eventsPerFile d - 1 then Inr (Some s, acc)
           else playback_files unm cb d 0 lfs acc
       | None \<Rightarrow> playback_files unm cb d 0 lfs acc)"

text \<open>The loop of \<^verbatim>\<open>Playback\<close>, at most \<open>n\<close> rounds; \<open>logs\<close> is the result of the query made before the first round, if
  one was used.\<close>

fun playback_rounds ::
  "nat \<Rightarrow> (xkind \<Rightarrow> bytes \<Rightarrow> (xevt \<times> nat) option) \<Rightarrow> (xevt \<Rightarrow> bool) \<Rightarrow> dpstate \<Rightarrow> int \<Rightarrow> LogFileRef list option \<Rightarrow>
   xevt list \<Rightarrow> (dp_error, xevt list) result" where
  "playback_rounds 0 unm cb d since logs acc = Inr acc"
| "playback_rounds (Suc n) unm cb d since logs acc =
     (let lfs = (case logs of Some l \<Rightarrow> l
                 | None \<Rightarrow> by_seq_asc (filter (\<lambda>r. SeqStart r \<ge> since) (dp_meta d)))
      in rbind (playback_files unm cb d since lfs acc) (\<lambda>(lastSeq, acc).
           case lastSeq of None \<Rightarrow> Inr acc
           | Some s \<Rightarrow> playback_rounds n unm cb d s None acc))"

definition dp_Playback ::
  "(xkind \<Rightarrow> bytes \<Rightarrow> (xevt \<times> nat) option) \<Rightarrow> (xevt \<Rightarrow> bool) \<Rightarrow> int \<Rightarrow> dpstate \<Rightarrow> (dp_error, xevt list) result" where
  "dp_Playback unm cb since d =
     (let before = (if since \<noteq> 0 then latest_ref (filter (\<lambda>r. SeqStart r < since) (dp_meta d)) else None)
      in playback_rounds 10 unm cb d since (case before of None \<Rightarrow> None | Some r \<Rightarrow> Some [r]) [])"

subsection \<open>Takedown and garbage collection\<close>

function mutate_loop :: "u64 \<Rightarrow> u32 \<Rightarrow> bool \<Rightarrow> bytes \<Rightarrow> nat \<Rightarrow> (dp_error, unit) result \<times> bytes" where
  "mutate_loop uid flag zeroEvts file offset =
     (case readHeader file offset of
        HEOF \<Rightarrow> (Inr (), file)
      | HUnexpectedEOF \<Rightarrow> (Inl DpUnexpectedEOF, file)
      | HOk h \<Rightarrow>
          let file' =
            (if Usr h = uid \<and> Flags h AND flag = 0 then
               let file = WriteAt (le_put 4 (Flags h OR flag)) offset file
               in if zeroEvts then WriteAt (replicate (unat (Len h)) 0) (offset + headerSize) file else file
             else file)
          in mutate_loop uid flag zeroEvts file' (offset + headerSize + unat (Len h)))"
  by pat_completeness auto
termination
  by (relation "measure (\<lambda>(uid, flag, zeroEvts, file, offset). length file - offset)")
    (auto simp: readHeader_def headerSize_def WriteAt_def length_le_put Let_def split: if_splits)

declare mutate_loop.simps [simp del]

definition mutateUserEventsInLog ::
  "u64 \<Rightarrow> u32 \<Rightarrow> bool \<Rightarrow> bool \<times> int \<Rightarrow> dpstate \<Rightarrow> (dp_error, unit) result \<times> dpstate" where
  "mutateUserEventsInLog uid flag zeroEvts fn d =
     (case dp_fs d fn of None \<Rightarrow> (Inl DpNoFile, d)
      | Some file \<Rightarrow>
          (case mutate_loop uid flag zeroEvts file 0 of (r, file') \<Rightarrow> (r, d\<lparr>dp_fs := (dp_fs d)(fn := Some file')\<rparr>)))"

definition deleteEventsForUser :: "u64 \<Rightarrow> bool \<times> int \<Rightarrow> dpstate \<Rightarrow> (dp_error, unit) result \<times> dpstate" where
  "deleteEventsForUser uid fn d = mutateUserEventsInLog uid EvtFlagTakedown True fn d"

fun forEachShard :: "u64 \<Rightarrow> LogFileRef list \<Rightarrow> dpstate \<Rightarrow> (dp_error, unit) result \<times> dpstate" where
  "forEachShard uid [] d = (Inr (), d)"
| "forEachShard uid (r # rs) d =
     (case deleteEventsForUser uid (Archived r, Path r) d of
        (Inl e, d') \<Rightarrow> (Inl e, d')
      | (Inr _, d') \<Rightarrow> forEachShard uid rs d')"

definition TakeDownRepo :: "u64 \<Rightarrow> dpstate \<Rightarrow> (dp_error, unit) result \<times> dpstate" where
  "TakeDownRepo uid d = forEachShard uid (rev (sort_key CreatedAt (dp_meta d))) d"

text \<open>\<open>faults r\<close> says whether the deletion of reference \<open>r\<close> and of its file succeed.\<close>

fun gc_refs :: "(LogFileRef \<Rightarrow> bool \<times> bool) \<Rightarrow> LogFileRef list \<Rightarrow> dpstate \<Rightarrow> dpstate" where
  "gc_refs ok [] d = d"
| "gc_refs ok (r # rs) d =
     (if Path r = dp_logfi d then gc_refs ok rs d
      else if \<not> fst (ok r) then gc_refs ok rs d
      else
        let d = d\<lparr> dp_meta := filter (\<lambda>q. q \<noteq> r) (dp_meta d) \<rparr>
        in gc_refs ok rs (if snd (ok r) then d\<lparr> dp_fs := (dp_fs d)((False, Path r) := None) \<rparr> else d))"

definition garbageCollect :: "(LogFileRef \<Rightarrow> bool \<times> bool) \<Rightarrow> int \<Rightarrow> dpstate \<Rightarrow> dpstate" where
  "garbageCollect ok cutoff d = gc_refs ok (filter (\<lambda>r. CreatedAt r < cutoff) (dp_meta d)) d"

subsection \<open>Log records\<close>

record lrec =
  r_flags :: u32
  r_kind :: u32
  r_uid :: u64
  r_seq :: int
  r_body :: bytes

definition enc :: "lrec \<Rightarrow> bytes" where
  "enc r = le_put 4 (r_flags r) @ le_put 4 (r_kind r) @ le_put 4 (of_nat (length (r_body r)) :: u32) @
     le_put 8 (r_uid r) @ le_put 8 (of_int (r_seq r) :: u64) @ r_body r"

definition rec_ok :: "lrec \<Rightarrow> bool" where
  "rec_ok r \<longleftrightarrow> length (r_body r) < 2 ^ 32 \<and> 0 \<le> r_seq r \<and> r_seq r < 2 ^ 63"

definition enc_all :: "lrec list \<Rightarrow> bytes" where
  "enc_all rs = concat (map enc rs)"

definition hdr :: "lrec \<Rightarrow> evtHeader" where
  "hdr r = \<lparr> Flags = r_flags r, EKind = r_kind r, HSeq = r_seq r, Usr = r_uid r,
     Len = of_nat (length (r_body r)) \<rparr>"

definition torn_rec :: "bytes \<Rightarrow> bool" where
  "torn_rec t \<longleftrightarrow> t = [] \<or> (\<exists>r k. rec_ok r \<and> k < length (enc r) \<and> t = take k (enc r))"

lemma length_enc: "length (enc r) = headerSize + length (r_body r)"
  by (simp add: enc_def headerSize_def length_le_put)

lemma rec_ok_len: "rec_ok r \<Longrightarrow> unat (of_nat (length (r_body r)) :: u32) = length (r_body r)"
  by (simp add: rec_ok_def unat_of_nat_less)

lemma sint_of_int: "0 \<le> n \<Longrightarrow> n < 2 ^ 63 \<Longrightarrow> sint (of_int n :: u64) = n"
  by (simp add: signed_take_bit_int_eq_self sint_sbintrunc')

lemma parseHeader_enc:
  assumes "rec_ok r"
  shows "parseHeader (take headerSize (enc r)) = hdr r"
  using assms
  by (simp add: parseHeader_def enc_def hdr_def headerSize_def length_le_put le_get_put sint_of_int rec_ok_def
      take_drop [symmetric])

lemma readHeader_enc:
  assumes "rec_ok r"
  shows "readHeader (pre @ enc r @ post) (length pre) = HOk (hdr r)"
proof -
  have "headerSize \<le> length (enc r)" "enc r \<noteq> []"
    using length_enc [of r] by (auto simp: headerSize_def)
  then show ?thesis
    using parseHeader_enc [OF assms] by (simp add: readHeader_def)
qed

lemma readHeader_end [simp]: "readHeader file (length file) = HEOF"
  by (simp add: readHeader_def)

lemma enc_all_simps [simp]:
  "enc_all [] = []" "enc_all (r # rs) = enc r @ enc_all rs" "enc_all (rs @ rs') = enc_all rs @ enc_all rs'"
  by (simp_all add: enc_all_def)

lemma hdr_simps [simp]:
  "Flags (hdr r) = r_flags r" "EKind (hdr r) = r_kind r" "HSeq (hdr r) = r_seq r" "Usr (hdr r) = r_uid r"
  "Len (hdr r) = of_nat (length (r_body r))"
  by (simp_all add: hdr_def)

lemma scan_from_rec:
  assumes "rec_ok r"
  shows "scan_from ok (pre @ enc r @ post) end (length pre) lastSeq =
     (if end > 0 \<and> r_seq r > end then Inr (r_seq r, pre @ enc r @ post, length pre)
      else scan_from ok (pre @ enc r @ post) end (length (pre @ enc r)) (r_seq r))"
  by (subst scan_from.simps)
    (simp add: readHeader_enc [OF assms] rec_ok_len [OF assms] length_enc add.assoc)

lemma scan_from_records:
  assumes "list_all rec_ok rs" "\<not> end > 0 \<or> (\<forall>r\<in>set rs. r_seq r \<le> end)"
  shows "scan_from ok (pre @ enc_all rs @ post) end (length pre) lastSeq =
     scan_from ok (pre @ enc_all rs @ post) end (length (pre @ enc_all rs))
       (if rs = [] then lastSeq else r_seq (last rs))"
  using assms
proof (induction rs arbitrary: pre lastSeq)
  case (Cons r rs)
  then show ?case
    using scan_from_rec [of r ok pre "enc_all rs @ post" "end" lastSeq] Cons.IH [of "pre @ enc r" "r_seq r"]
    by auto
qed simp

lemma torn_rec_scan:
  assumes "torn_rec t"
  shows "scan_from (True, True) (pre @ t) (-1) (length pre) lastSeq = Inr (lastSeq, pre, length pre)"
proof (cases "length t < headerSize")
  case True
  then show ?thesis
    by (subst scan_from.simps) (auto simp: readHeader_def recoverIncompleteTail_def)
next
  case False
  with assms obtain r k where r: "rec_ok r" "k < length (enc r)" "t = take k (enc r)"
    by (auto simp: torn_rec_def headerSize_def)
  have "take headerSize t = take headerSize (enc r)" using False r by (auto simp: min_def)
  then have "readHeader (pre @ t) (length pre) = HOk (hdr r)"
    using False parseHeader_enc [OF r(1)] by (auto simp: readHeader_def headerSize_def)
  moreover have "length t < headerSize + length (r_body r)" using r by (simp add: length_enc)
  ultimately show ?thesis
    by (subst scan_from.simps) (simp add: rec_ok_len [OF r(1)] recoverIncompleteTail_def)
qed

text \<open>The startup scan of a log file with a torn tail: the last complete record decides, the tail is cut off.\<close>

lemma scan_recovers:
  assumes "list_all rec_ok rs" "torn_rec t"
  shows "scanForLastSeq (True, True) (enc_all rs @ t) (-1) =
     Inr (if rs = [] then -1 else r_seq (last rs), enc_all rs, length (enc_all rs))"
  using scan_from_records [OF assms(1), of "-1" "(True, True)" "[]" t "-1"]
    torn_rec_scan [OF assms(2), of "enc_all rs"]
  by (simp add: scanForLastSeq_def)

text \<open>The scan of a complete file for a cursor: it stops at the first record after the cursor.\<close>

lemma scan_since:
  assumes "list_all rec_ok (rs @ rs')" "since > 0" "\<forall>r\<in>set rs. r_seq r \<le> since"
    and "rs' \<noteq> [] \<Longrightarrow> r_seq (hd rs') > since"
  shows "scanForLastSeq ok (enc_all (rs @ rs')) since =
     Inr (if rs' \<noteq> [] then r_seq (hd rs') else if rs = [] then -1 else r_seq (last rs),
          enc_all (rs @ rs'), length (enc_all rs))"
proof (cases rs')
  case Nil
  then show ?thesis
    using scan_from_records [of rs since ok "[]" "[]" "-1"] assms
    by (simp add: scanForLastSeq_def) (auto simp: scan_from.simps [of _ "enc_all rs"] scan_from.simps [of _ "[]"]
        readHeader_def)
next
  case (Cons r rest)
  then show ?thesis
    using scan_from_records [of rs since ok "[]" "enc_all rs'" "-1"] assms
      scan_from_rec [of r ok "enc_all rs" "enc_all rest" since]
    by (simp add: scanForLastSeq_def)
qed

subsection \<open>Playing records back\<close>

definition played :: "(xkind \<Rightarrow> bytes \<Rightarrow> (xevt \<times> nat) option) \<Rightarrow> lrec \<Rightarrow> xevt list" where
  "played unm r =
     (if postDoNotEmit (r_flags r) then []
      else case kind_of (r_kind r) of None \<Rightarrow> []
      | Some k \<Rightarrow> (case unm k (r_body r) of None \<Rightarrow> [] | Some (e, n) \<Rightarrow> [e\<lparr>x_seq := r_seq r\<rparr>]))"

definition playable :: "(xkind \<Rightarrow> bytes \<Rightarrow> (xevt \<times> nat) option) \<Rightarrow> lrec \<Rightarrow> bool" where
  "playable unm r \<longleftrightarrow> postDoNotEmit (r_flags r) \<or>
     (case kind_of (r_kind r) of None \<Rightarrow> False
      | Some k \<Rightarrow> (case unm k (r_body r) of None \<Rightarrow> False | Some (e, n) \<Rightarrow> n = length (r_body r)))"

lemma read_loop_rec:
  assumes "rec_ok r" "playable unm r" "\<forall>e\<in>set (played unm r). cb e"
  shows "read_loop unm cb (pre @ enc r @ post) (length pre) lastSeq acc =
     read_loop unm cb (pre @ enc r @ post) (length (pre @ enc r)) (r_seq r) (acc @ played unm r)"
proof -
  have body: "drop headerSize (enc r) = r_body r" by (simp add: enc_def headerSize_def length_le_put)
  show ?thesis
    using assms
    by (subst read_loop.simps)
      (auto simp: readHeader_enc rec_ok_len body length_enc played_def playable_def Let_def add.assoc
        split: option.splits)
qed

lemma read_loop_records:
  assumes "list_all rec_ok rs" "list_all (playable unm) rs" "\<forall>e\<in>set (concat (map (played unm) rs)). cb e"
  shows "read_loop unm cb (pre @ enc_all rs) (length pre) lastSeq acc =
     Inr (Some (if rs = [] then lastSeq else r_seq (last rs)), acc @ concat (map (played unm) rs))"
  using assms
proof (induction rs arbitrary: pre lastSeq acc)
  case Nil
  then show ?case by (subst read_loop.simps) simp
next
  case (Cons r rs)
  then show ?case
    using read_loop_rec [of r unm cb pre "enc_all rs" lastSeq acc]
      Cons.IH [of "pre @ enc r" "r_seq r" "acc @ played unm r"] by auto
qed

subsection \<open>The log as a sequence of shards\<close>

text \<open>A shard is the starting sequence number of a log file with the records in it. All shards but the last are
  full, and the records are numbered consecutively across them.\<close>

definition seqs :: "int \<Rightarrow> nat \<Rightarrow> int list" where
  "seqs start n = map (\<lambda>i. start + int i) [0..<n]"

fun chain :: "int \<Rightarrow> int \<Rightarrow> (int \<times> lrec list) list \<Rightarrow> bool" where
  "chain epf next [] = True"
| "chain epf next ((s, rs) # sh) =
     (map r_seq rs = seqs next (length rs) \<and> int (length rs) \<le> epf \<and>
      (sh \<noteq> [] \<longrightarrow> int (length rs) = epf \<and> fst (hd sh) = next + int (length rs)) \<and>
      chain epf (next + int (length rs)) sh)"

definition shard_recs :: "(int \<times> lrec list) list \<Rightarrow> lrec list" where
  "shard_recs sh = concat (map snd sh)"

text \<open>The files and references of \<open>d\<close> hold the shards, with \<open>t\<close> after the last one.\<close>

definition on_disk :: "dpstate \<Rightarrow> (int \<times> lrec list) list \<Rightarrow> bytes \<Rightarrow> bool" where
  "on_disk d sh t \<longleftrightarrow>
     sh \<noteq> [] \<and> fst (hd sh) = 0 \<and> 0 < dp_initialSeq d \<and> 0 < dp_eventsPerFile d \<and>
     chain (dp_eventsPerFile d) (dp_initialSeq d) sh \<and>
     map SeqStart (dp_meta d) = map fst sh \<and> map Path (dp_meta d) = map fst sh \<and>
     list_all (\<lambda>r. \<not> Archived r) (dp_meta d) \<and>
     (\<forall>x\<in>set (butlast sh). dp_fs d (False, fst x) = Some (enc_all (snd x))) \<and>
     dp_fs d (False, fst (last sh)) = Some (enc_all (snd (last sh)) @ t) \<and>
     list_all rec_ok (shard_recs sh)"

definition log_end :: "dpstate \<Rightarrow> (int \<times> lrec list) list \<Rightarrow> int" where
  "log_end d sh = dp_initialSeq d + int (length (shard_recs sh))"

definition dp_live :: "dpstate \<Rightarrow> (int \<times> lrec list) list \<Rightarrow> bool" where
  "dp_live d sh \<longleftrightarrow> on_disk d sh [] \<and> dp_failed d = None \<and> dp_curSeq d = log_end d sh \<and>
     dp_eventCounter d = int (length (snd (last sh))) \<and> dp_logfi d = fst (last sh) \<and>
     dp_pos d = length (enc_all (snd (last sh)))"

lemma seqs_simps: "seqs s 0 = []" "seqs s (Suc n) = seqs s n @ [s + int n]" "length (seqs s n) = n"
  by (simp_all add: seqs_def)

lemma seqs_append: "seqs s (m + n) = seqs s m @ seqs (s + int m) n"
  by (induction n) (simp_all add: seqs_simps)

lemma shard_recs_simps [simp]:
  "shard_recs [] = []" "shard_recs ((s, rs) # sh) = rs @ shard_recs sh"
  "shard_recs (sh @ sh') = shard_recs sh @ shard_recs sh'"
  by (simp_all add: shard_recs_def)

lemma chain_append:
  "chain epf next (sh @ [(s, rs)]) \<longleftrightarrow>
     chain epf next sh \<and> (\<forall>x\<in>set sh. int (length (snd x)) = epf) \<and>
     (sh \<noteq> [] \<longrightarrow> s = next + int (length (shard_recs sh))) \<and>
     map r_seq rs = seqs (next + int (length (shard_recs sh))) (length rs) \<and> int (length rs) \<le> epf"
proof (induction epf "next" sh rule: chain.induct)
  case (2 epf "next" s' rs' sh)
  then show ?case by (cases sh) (auto simp: add.assoc)
qed auto

lemma chain_seqs: "chain epf next sh \<Longrightarrow> map r_seq (shard_recs sh) = seqs next (length (shard_recs sh))"
  by (induction epf "next" sh rule: chain.induct) (auto simp: seqs_append seqs_simps)

lemma chain_starts:
  "chain epf next sh \<Longrightarrow> 0 < epf \<Longrightarrow> sh \<noteq> [] \<Longrightarrow> fst (hd sh) < next + epf \<Longrightarrow> sorted_wrt (<) (map fst sh) \<and>
     (\<forall>x\<in>set (tl sh). next + epf \<le> fst x)"
proof (induction epf "next" sh rule: chain.induct)
  case (2 epf "next" s rs sh)
  show ?case
  proof (cases sh)
    case (Cons y ys)
    with 2 have "sorted_wrt (<) (map fst sh) \<and> (\<forall>x\<in>set (tl sh). next + epf + epf \<le> fst x)"
      by (cases y) auto
    with 2 Cons show ?thesis by (cases y) force
  qed simp
qed simp

lemma on_disk_sorted:
  assumes "on_disk d sh t"
  shows "sorted_wrt (<) (map fst sh)"
  using chain_starts [of "dp_eventsPerFile d" "dp_initialSeq d" sh] assms by (auto simp: on_disk_def)

lemma sorted_distinct: "sorted_wrt (<) (map fst sh) \<Longrightarrow> distinct (map fst (sh :: (int \<times> 'a) list))"
  using strict_sorted_imp_sorted strict_sorted_iff by blast

lemma on_disk_meta_sorted: "on_disk d sh t \<Longrightarrow> by_seq_asc (dp_meta d) = dp_meta d"
  unfolding by_seq_asc_def using on_disk_sorted [of d sh t]
  by (intro sort_key_id_if_sorted) (simp add: on_disk_def strict_sorted_iff)

lemma on_disk_snoc:
  "on_disk d (sh @ [(s, rs)]) t \<longleftrightarrow>
     fst (hd (sh @ [(s, rs)])) = 0 \<and> 0 < dp_initialSeq d \<and> 0 < dp_eventsPerFile d \<and>
     chain (dp_eventsPerFile d) (dp_initialSeq d) sh \<and>
     (\<forall>x\<in>set sh. int (length (snd x)) = dp_eventsPerFile d) \<and>
     (sh \<noteq> [] \<longrightarrow> s = log_end d sh) \<and>
     map r_seq rs = seqs (log_end d sh) (length rs) \<and> int (length rs) \<le> dp_eventsPerFile d \<and>
     map SeqStart (dp_meta d) = map fst sh @ [s] \<and> map Path (dp_meta d) = map fst sh @ [s] \<and>
     list_all (\<lambda>r. \<not> Archived r) (dp_meta d) \<and>
     (\<forall>x\<in>set sh. dp_fs d (False, fst x) = Some (enc_all (snd x))) \<and>
     dp_fs d (False, s) = Some (enc_all rs @ t) \<and> list_all rec_ok (shard_recs sh) \<and> list_all rec_ok rs"
  by (auto simp: on_disk_def chain_append log_end_def)

lemma on_disk_cases:
  assumes "on_disk d sh t"
  obtains sh0 s rs where "sh = sh0 @ [(s, rs)]"
proof -
  have "sh \<noteq> []" using assms by (simp add: on_disk_def)
  then have "sh = butlast sh @ [(fst (last sh), snd (last sh))]" by simp
  with that show thesis by blast
qed

lemma starts_below:
  assumes "on_disk d (sh @ [(s, rs)]) t"
  shows "\<forall>x\<in>set sh. fst x < s" "rs \<noteq> [] \<Longrightarrow> s < log_end d (sh @ [(s, rs)])"
proof -
  show "\<forall>x\<in>set sh. fst x < s" using on_disk_sorted [OF assms] by (auto simp: sorted_wrt_append)
  assume "rs \<noteq> []"
  then show "s < log_end d (sh @ [(s, rs)])"
    using assms unfolding on_disk_snoc by (cases "sh = []") (auto simp: log_end_def)
qed

subsection \<open>Persist on a live log\<close>

definition mk_rec :: "u32 \<Rightarrow> u64 \<Rightarrow> bytes \<Rightarrow> int \<Rightarrow> lrec" where
  "mk_rec k uid body seq = \<lparr> r_flags = 0, r_kind = k, r_uid = uid, r_seq = seq, r_body = body \<rparr>"

lemma put_seq_enc:
  "put_seq seq (le_put 4 (0 :: u32) @ le_put 4 k @ le_put 4 (of_nat (length body) :: u32) @ le_put 8 uid @
     replicate 8 0 @ body) = enc (mk_rec k uid body seq)"
  using WriteAt_middle [of "replicate 8 0" "le_put 8 (of_int seq :: u64)"
      "le_put 4 (0 :: u32) @ le_put 4 k @ le_put 4 (of_nat (length body) :: u32) @ le_put 8 uid" body]
  by (simp add: put_seq_def enc_def mk_rec_def length_le_put)

lemma writeAll_prefix:
  "writeAll w i done data = (b, out) \<Longrightarrow>
     \<exists>n \<le> length data. out = done @ take n data \<and> (b \<longrightarrow> n = length data)"
proof (induction w i "done" data rule: writeAll.induct)
  case (1 w i "done" data)
  obtain n err where n: "w i = (n, err)" by fastforce
  show ?case
  proof (cases "data = [] \<or> n > length data \<or> n = 0 \<or> (err \<and> drop n data = [])")
    case True
    then show ?thesis
      using 1(3) n by (subst (asm) writeAll.simps) (auto simp: Let_def split: if_splits intro: exI [of _ n] exI [of _ 0])
  next
    case False
    then have "writeAll w (i + 1) (done @ take n data) (drop n data) = (b, out)"
      using 1(3) n by (subst (asm) writeAll.simps) (auto simp: Let_def split: if_splits)
    then obtain m where m: "m \<le> length (drop n data)" "out = (done @ take n data) @ take m (drop n data)"
      "b \<longrightarrow> m = length (drop n data)"
      using 1(1) [of "(n, err)" n err] 1(2) [of "(n, err)" n err] n False by (cases err) (force simp: Let_def)+
    then have "out = done @ take (n + m) data" "n + m \<le> length data" "b \<longrightarrow> n + m = length data"
      using False by (auto simp: take_add)
    then show ?thesis by blast
  qed
qed

lemma write_live:
  assumes "dp_live d (sh @ [(s, rs)])" "int (length rs) < dp_eventsPerFile d"
    and "rec_ok r" "r_seq r = dp_curSeq d" "n \<le> length (enc r)"
  shows "n < length (enc r) \<Longrightarrow> on_disk (write_log (take n (enc r)) d) (sh @ [(s, rs)]) (take n (enc r))"
    and "n = length (enc r) \<Longrightarrow> on_disk (write_log (take n (enc r)) d) (sh @ [(s, rs @ [r])]) []"
proof -
  let ?d = "write_log (take n (enc r)) d"
  have d: "on_disk d (sh @ [(s, rs)]) []" "dp_logfi d = s" "dp_pos d = length (enc_all rs)"
    "dp_fs d (False, s) = Some (enc_all rs)" "r_seq r = log_end d sh + int (length rs)"
    using assms(1,4) by (auto simp: dp_live_def on_disk_snoc log_end_def)
  have fs: "dp_fs ?d = (dp_fs d)((False, s) := Some (enc_all rs @ take n (enc r)))"
    "dp_meta ?d = dp_meta d" "dp_initialSeq ?d = dp_initialSeq d" "dp_eventsPerFile ?d = dp_eventsPerFile d"
    "log_end ?d = log_end d"
    using d by (simp_all add: write_log_def log_end_def fun_eq_iff)
  have ne: "fst x \<noteq> s" if "x \<in> set sh" for x using starts_below(1) [OF d(1)] that by auto
  show "on_disk ?d (sh @ [(s, rs)]) (take n (enc r))"
    using d(1) ne unfolding on_disk_snoc fs by auto
  show "on_disk ?d (sh @ [(s, rs @ [r])]) []" if "n = length (enc r)"
    using d(1,5) ne that assms(2,3) unfolding on_disk_snoc fs by (auto simp: seqs_simps hd_append)
qed

lemma on_disk_other_file:
  assumes "on_disk d sh t" "p \<notin> fst ` set sh"
  shows "on_disk (d\<lparr> dp_fs := (dp_fs d)((False, p) := v) \<rparr>) sh t"
proof -
  have "last sh \<in> set sh" using assms(1) by (simp add: on_disk_def)
  then have "fst (last sh) \<noteq> p" "\<forall>x\<in>set (butlast sh). fst x \<noteq> p"
    using assms(2) by (auto dest: in_set_butlastD)
  then show ?thesis using assms(1) by (simp add: on_disk_def)
qed

lemma swap_live:
  assumes "dp_live d (sh @ [(s, rs)])" "dp_eventCounter d > 0" "dp_eventCounter d mod dp_eventsPerFile d = 0"
    and "swapLog fault now d = (ok, d')"
  shows "if ok then dp_live d' (sh @ [(s, rs)] @ [(dp_curSeq d, [])]) \<and> dp_logfi d' \<noteq> dp_logfi d
         else on_disk d' (sh @ [(s, rs)]) [] \<and> dp_failed d' = None \<and> dp_logfi d' = dp_logfi d \<and>
           dp_fs d' (False, s) = dp_fs d (False, s)"
proof -
  have d: "on_disk d (sh @ [(s, rs)]) []" "dp_eventCounter d = int (length rs)" "dp_logfi d = s"
    "dp_curSeq d = log_end d (sh @ [(s, rs)])"
    using assms(1) by (auto simp: dp_live_def)
  have "int (length rs) \<le> dp_eventsPerFile d" using d(1) unfolding on_disk_snoc by simp
  then have full: "int (length rs) = dp_eventsPerFile d" "rs \<noteq> []"
    using assms(2,3) d(2) by (auto simp: zmod_trivial_iff dest: zdvd_imp_le)
  have ne: "\<forall>x\<in>set (sh @ [(s, rs)]). fst x < dp_curSeq d"
    using starts_below [OF d(1)] full(2) d(4) by fastforce
  show ?thesis
  proof (cases "fault")
    case None
    then have d': "ok" "d' = d\<lparr> dp_fs := (dp_fs d)((False, dp_curSeq d) := Some []),
        dp_meta := dp_meta d @ [\<lparr> Path = dp_curSeq d, Archived = False, SeqStart = dp_curSeq d, CreatedAt = now \<rparr>],
        dp_logfi := dp_curSeq d, dp_pos := 0, dp_eventCounter := 0 \<rparr>"
      using assms(4) by (auto simp: swapLog_def)
    have le: "log_end d' = log_end d" by (simp add: d'(2) log_end_def fun_eq_iff)
    have "on_disk d' ((sh @ [(s, rs)]) @ [(dp_curSeq d, [])]) []"
      unfolding on_disk_snoc [of _ "sh @ [(s, rs)]"] le using d(1,4) ne full
      by (auto simp: d'(2) on_disk_snoc chain_append seqs_simps log_end_def hd_append split: if_splits)
    then show ?thesis using d d' ne assms(1) by (auto simp: dp_live_def log_end_def)
  next
    case (Some f)
    then have "\<not> ok" "d' = d \<or> d' = d\<lparr> dp_fs := (dp_fs d)((False, dp_curSeq d) := Some []) \<rparr>"
      using assms(4) by (auto simp: swapLog_def split: create_fault.splits)
    moreover have "dp_curSeq d \<notin> fst ` set (sh @ [(s, rs)])" using ne by fastforce
    ultimately show ?thesis
      using on_disk_other_file [OF d(1)] d assms(1) by (auto simp: dp_live_def)
  qed
qed

text \<open>The outcome of \<^verbatim>\<open>Persist\<close> on a live log: on success exactly one record is appended, with the next sequence number;
  on failure the log is either unchanged or has latched the failure with at most one, possibly torn, extra
  record.\<close>

definition failed_log :: "(lrec \<Rightarrow> bool) \<Rightarrow> dpstate \<Rightarrow> lrec list \<Rightarrow> lrec list \<Rightarrow> bool" where
  "failed_log Q d recs rs1 \<longleftrightarrow> dp_failed d \<noteq> None \<and>
     (\<exists>sh0 st rs2 t. on_disk d (sh0 @ [(st, rs1 @ rs2)]) t \<and> torn_rec t \<and> dp_logfi d = st \<and>
        shard_recs sh0 @ rs1 = recs \<and> list_all Q rs2)"

definition persist_post :: "(lrec \<Rightarrow> bool) \<Rightarrow> dpstate \<Rightarrow> (int \<times> lrec list) list \<Rightarrow> lrec \<Rightarrow> (dp_error, xevt) result \<Rightarrow> dpstate \<Rightarrow> bool" where
  "persist_post Q d sh r res d' \<longleftrightarrow>
     (case res of
        Inr xe' \<Rightarrow> x_seq xe' = dp_curSeq d \<and> (\<exists>sh'. dp_live d' sh' \<and> shard_recs sh' = shard_recs sh @ [r])
      | Inl e \<Rightarrow> d' = d \<or>
          failed_log Q d' (shard_recs sh) (if dp_logfi d' = dp_logfi d then snd (last sh) else []))"

lemma torn_rec_take: "rec_ok r \<Longrightarrow> n < length (enc r) \<Longrightarrow> torn_rec (take n (enc r))"
  by (auto simp: torn_rec_def)

lemma failed_logI:
  assumes "on_disk d (sh0 @ [(st, rs1 @ rs2)]) t" "torn_rec t" "dp_logfi d = st" "list_all Q rs2"
  shows "failed_log Q (d\<lparr>dp_failed := Some e\<rparr>) (shard_recs sh0 @ rs1) rs1"
proof -
  have "on_disk (d\<lparr>dp_failed := Some e\<rparr>) (sh0 @ [(st, rs1 @ rs2)]) t"
    using assms(1) by (simp add: on_disk_def)
  with assms(2-4) show ?thesis unfolding failed_log_def by auto
qed

text \<open>The write and fsync of \<^verbatim>\<open>persistLocked\<close>, after any rotation.\<close>

lemma append_live:
  assumes "dp_live d (sh @ [(s, rs)])" "int (length rs) < dp_eventsPerFile d" "rec_ok r" "r_seq r = dp_curSeq d"
    and "writeAll w 0 [] (enc r) = (ok, out)" "Q r"
  shows "failed_log Q ((write_log out d)\<lparr>dp_failed := Some e\<rparr>) (shard_recs (sh @ [(s, rs)])) rs"
    and "ok \<Longrightarrow> dp_live ((write_log out d)\<lparr> dp_curSeq := dp_curSeq d + 1, dp_eventCounter := dp_eventCounter d + 1,
           dp_broadcast := b \<rparr>) (sh @ [(s, rs @ [r])])"
proof -
  obtain n where n: "n \<le> length (enc r)" "out = take n (enc r)" "ok \<longrightarrow> n = length (enc r)"
    using writeAll_prefix [OF assms(5)] by auto
  note W = write_live [OF assms(1-4) n(1)]
  have fi: "dp_logfi (write_log out d) = s" "dp_failed (write_log out d) = None"
    "dp_pos (write_log out d) = length (enc_all rs) + length out"
    "dp_curSeq d = log_end d sh + int (length rs)" "dp_eventCounter d = int (length rs)"
    using assms(1) by (auto simp: dp_live_def write_log_def log_end_def)
  show "failed_log Q ((write_log out d)\<lparr>dp_failed := Some e\<rparr>) (shard_recs (sh @ [(s, rs)])) rs"
  proof (cases "n < length (enc r)")
    case True
    then show ?thesis
      using failed_logI [of "write_log out d" sh s rs "[]"] W(1) torn_rec_take [OF assms(3)] fi n(2) by simp
  next
    case False
    then show ?thesis
      using failed_logI [of "write_log out d" sh s rs "[r]" "[]"] W(2) fi n assms(6) by (simp add: torn_rec_def)
  qed
  assume ok
  then have "on_disk (write_log out d) (sh @ [(s, rs @ [r])]) []" using W(2) n by simp
  then have "on_disk ((write_log out d)\<lparr> dp_curSeq := dp_curSeq d + 1, dp_eventCounter := dp_eventCounter d + 1,
      dp_broadcast := b \<rparr>) (sh @ [(s, rs @ [r])]) []"
    by (simp add: on_disk_def)
  then show "dp_live ((write_log out d)\<lparr> dp_curSeq := dp_curSeq d + 1, dp_eventCounter := dp_eventCounter d + 1,
      dp_broadcast := b \<rparr>) (sh @ [(s, rs @ [r])])"
    using fi n \<open>ok\<close> by (simp add: dp_live_def log_end_def) (simp add: write_log_def)
qed

lemma persist_append_live:
  assumes "dp_live d (sh @ [(s, rs)])" "int (length rs) < dp_eventsPerFile d"
    and "length body < 2 ^ 32" "dp_curSeq d < 2 ^ 63"
    and "persist_append io xe (le_put 4 (0 :: u32) @ le_put 4 k @ le_put 4 (of_nat (length body) :: u32) @
      le_put 8 uid @ replicate 8 0 @ body) d = (res, d')" "Q (mk_rec k uid body (dp_curSeq d))"
  shows "dp_logfi d' = dp_logfi d"
    and "case res of
        Inr xe' \<Rightarrow> x_seq xe' = dp_curSeq d \<and>
          dp_live d' (sh @ [(s, rs @ [mk_rec k uid body (dp_curSeq d)])])
      | Inl e \<Rightarrow> failed_log Q d' (shard_recs (sh @ [(s, rs)])) rs"
proof -
  let ?r = "mk_rec k uid body (dp_curSeq d)"
  have live: "dp_failed d = None" "0 < dp_initialSeq d" "dp_curSeq d = log_end d (sh @ [(s, rs)])"
    using assms(1) by (auto simp: dp_live_def on_disk_snoc)
  have r: "rec_ok ?r" "r_seq ?r = dp_curSeq d"
    using assms(3,4) live by (auto simp: rec_ok_def mk_rec_def log_end_def)
  obtain ok out where w: "writeAll (pio_write io) 0 [] (enc ?r) = (ok, out)" by fastforce
  note A = append_live [where Q = Q, OF assms(1,2) r w assms(6)]
  have wl: "dp_logfi (write_log out d) = dp_logfi d" "dp_failed (write_log out d) = None"
    using live(1) by (simp_all add: write_log_def)
  show "dp_logfi d' = dp_logfi d"
    using assms(5) w wl by (auto simp: persist_append_def put_seq_enc failLocked_def split: if_splits)
  show "case res of
      Inr xe' \<Rightarrow> x_seq xe' = dp_curSeq d \<and> dp_live d' (sh @ [(s, rs @ [?r])])
    | Inl e \<Rightarrow> failed_log Q d' (shard_recs (sh @ [(s, rs)])) rs"
    using assms(5) w wl A
    by (auto simp: persist_append_def put_seq_enc failLocked_def simp del: shard_recs_simps split: if_splits)
qed

lemma persist_live:
  assumes "dp_live d (sh @ [(s, rs)])" "dp_Persist mar uids io xe d = (res, d')"
    and "evt_kind (x_kind xe) = Some k" "mar xe = Some body" "uids (x_did xe) = Some uid"
    and "length body < 2 ^ 32" "dp_curSeq d < 2 ^ 63" "Q (mk_rec k uid body (dp_curSeq d))"
  shows "persist_post Q d (sh @ [(s, rs)]) (mk_rec k uid body (dp_curSeq d)) res d'"
proof -
  have live: "dp_failed d = None" "dp_eventCounter d = int (length rs)" "int (length rs) \<le> dp_eventsPerFile d"
    "0 < dp_eventsPerFile d"
    using assms(1) by (auto simp: dp_live_def on_disk_snoc)
  let ?data = "le_put 4 (0 :: u32) @ le_put 4 k @ le_put 4 (of_nat (length body) :: u32) @
      le_put 8 uid @ replicate 8 0 @ body"
  have P: "persistLocked io xe ?data d = (res, d')"
    using assms(2-5) by (simp add: dp_Persist_def)
  let ?sw = "dp_eventCounter d > 0 \<and> dp_eventCounter d mod dp_eventsPerFile d = 0"
  consider (ctx) "\<not> pio_ctx_ok io" | (stay) "pio_ctx_ok io" "\<not> ?sw" | (swap) "pio_ctx_ok io" "?sw" by argo
  then show ?thesis
  proof cases
    case ctx
    then show ?thesis using P live(1) by (auto simp: persistLocked_def persist_post_def)
  next
    case stay
    then have lt: "int (length rs) < dp_eventsPerFile d"
      using live by (cases "int (length rs) = dp_eventsPerFile d") auto
    have "persist_append io xe ?data d = (res, d')"
      using P stay live(1) by (auto simp: persistLocked_def split: if_splits)
    from persist_append_live [where Q = Q, OF assms(1) lt assms(6,7) this assms(8)]
    show ?thesis by (cases res) (force simp: persist_post_def)+
  next
    case swap
    obtain sok d1 where sl: "swapLog (pio_swap io) (pio_now io) d = (sok, d1)" by fastforce
    note S = swap_live [OF assms(1) conjunct1 [OF swap(2)] conjunct2 [OF swap(2)] sl]
    show ?thesis
    proof (cases sok)
      case False
      then have "failed_log Q (d1\<lparr>dp_failed := Some DpRotate\<rparr>) (shard_recs sh @ rs) rs"
        using S assms(1) by (intro failed_logI [of _ _ _ _ "[]" "[]"]) (auto simp: dp_live_def torn_rec_def)
      then show ?thesis using P swap live(1) sl S False
        by (auto simp: persistLocked_def failLocked_def persist_post_def)
    next
      case True
      let ?sh = "sh @ [(s, rs)]"
      have L: "dp_live d1 (?sh @ [(dp_curSeq d, [])])" "dp_logfi d1 \<noteq> dp_logfi d" using S True by auto
      have d1: "dp_curSeq d1 = dp_curSeq d" "int (length []) < dp_eventsPerFile d1"
        using sl True live(4) by (auto simp: swapLog_def split: option.splits create_fault.splits)
      have "persist_append io xe ?data d1 = (res, d')"
        using P swap live(1) sl True by (auto simp: persistLocked_def)
      from persist_append_live [where Q = Q, OF L(1) d1(2) assms(6) _ this] assms(7,8) d1(1)
      show ?thesis using L(2) by (cases res) (force simp: persist_post_def)+
    qed
  qed
qed

subsection \<open>Restart\<close>

lemma torn_rec_prefix: "torn_rec t \<Longrightarrow> torn_rec (take k t)"
  unfolding torn_rec_def
proof (elim disjE exE conjE)
  fix r n assume "rec_ok r" "n < length (enc r)" "t = take n (enc r)"
  then have "rec_ok r \<and> min k n < length (enc r) \<and> take k t = take (min k n) (enc r)" by auto
  then show "take k t = [] \<or> (\<exists>r k'. rec_ok r \<and> k' < length (enc r) \<and> take k t = take k' (enc r))" by blast
qed simp

lemma take_enc_all:
  assumes "list_all rec_ok rs" "torn_rec t"
  shows "\<exists>rs' t'. prefix rs' rs \<and> torn_rec t' \<and> take k (enc_all rs @ t) = enc_all rs' @ t'"
  using assms(1)
proof (induction rs arbitrary: k)
  case Nil
  then show ?case using torn_rec_prefix [OF assms(2)] by (intro exI [of _ "[]"] exI [of _ "take k t"]) simp
next
  case (Cons r rs)
  show ?case
  proof (cases "k < length (enc r)")
    case True
    then have "torn_rec (take k (enc r))" using Cons.prems by (intro torn_rec_take) auto
    then show ?thesis using True by (intro exI [of _ "[]"] exI [of _ "take k (enc r)"]) simp
  next
    case False
    have "list_all rec_ok rs" using Cons.prems by simp
    from Cons.IH [OF this, of "k - length (enc r)"] obtain rs' t' where
      "prefix rs' rs" "torn_rec t'" "take (k - length (enc r)) (enc_all rs @ t) = enc_all rs' @ t'" by blast
    then show ?thesis using False by (intro exI [of _ "r # rs'"] exI [of _ t']) simp
  qed
qed

lemma on_disk_prefix:
  assumes "on_disk d (sh @ [(s, rs)]) t" "prefix rs' rs"
  shows "on_disk (d\<lparr> dp_fs := (dp_fs d)((False, s) := Some (enc_all rs' @ t')) \<rparr>) (sh @ [(s, rs')]) t'"
proof -
  obtain zs where zs: "rs = rs' @ zs" using assms(2) by (auto simp: prefix_def)
  have "\<forall>x\<in>set sh. fst x \<noteq> s" using starts_below(1) [OF assms(1)] by auto
  moreover have "map r_seq rs' = seqs (log_end d sh) (length rs')"
    using assms(1) unfolding on_disk_snoc zs by (auto simp: seqs_append seqs_simps(3))
  moreover have "int (length rs') \<le> dp_eventsPerFile d" using assms(1) unfolding on_disk_snoc zs by auto
  ultimately show ?thesis
    using assms(1) unfolding on_disk_snoc zs by (cases sh) (auto simp: log_end_def)
qed

lemma latest_last: "by_seq_asc refs = refs \<Longrightarrow> refs \<noteq> [] \<Longrightarrow> latest_ref refs = Some (last refs)"
  by (cases refs rule: rev_cases) (simp_all add: latest_ref_def)

lemma on_disk_snocD:
  assumes "on_disk d (sh @ [(s, rs)]) t"
  shows "map SeqStart (dp_meta d) = map fst sh @ [s]" "map Path (dp_meta d) = map fst sh @ [s]"
    "list_all rec_ok rs" "dp_fs d (False, s) = Some (enc_all rs @ t)" "0 < dp_initialSeq d"
    "map r_seq rs = seqs (log_end d sh) (length rs)" "sh \<noteq> [] \<Longrightarrow> s = log_end d sh" "sh = [] \<Longrightarrow> s = 0"
    "int (length rs) \<le> dp_eventsPerFile d" "0 < dp_eventsPerFile d"
  using assms unfolding on_disk_snoc by auto

lemma last_seq:
  assumes "on_disk d (sh @ [(s, rs)]) t" "rs \<noteq> []"
  shows "r_seq (last rs) = log_end d sh + int (length rs) - 1"
  using on_disk_snocD(6) [OF assms(1)] assms(2) by (cases rs rule: rev_cases) (auto simp: seqs_simps)

lemma shard_start:
  assumes "on_disk d (sh @ [(s, rs)]) t"
  shows "(if s < dp_initialSeq d then dp_initialSeq d else s) = log_end d sh"
    "(if s = 0 then dp_initialSeq d else s) = log_end d sh"
proof -
  have "sh = [] \<or> dp_initialSeq d \<le> s" using on_disk_snocD(7) [OF assms] by (cases "sh = []") (simp_all add: log_end_def)
  then show "(if s < dp_initialSeq d then dp_initialSeq d else s) = log_end d sh"
    "(if s = 0 then dp_initialSeq d else s) = log_end d sh"
    using on_disk_snocD(5,7,8) [OF assms] by (cases "sh = []"; simp add: log_end_def)+
qed

lemma resume_on_disk:
  assumes "on_disk d (sh @ [(s, rs)]) t" "torn_rec t" "dp_failed d = None"
  shows "\<exists>d'. resumeLog (True, True) fault now d = Inr d' \<and> dp_live d' (sh @ [(s, rs)]) \<and>
           dp_broadcast d' = dp_broadcast d"
proof -
  note D = on_disk_snocD [OF assms(1)]
  have ne: "dp_meta d \<noteq> []" using D(1) by auto
  have lfr: "SeqStart (last (dp_meta d)) = s" "Path (last (dp_meta d)) = s"
    using D(1,2) ne by (metis last_map last_snoc)+
  have latest: "latest_ref (dp_meta d) = Some (last (dp_meta d))"
    by (rule latest_last [OF on_disk_meta_sorted [OF assms(1)] ne])
  have nonneg: "rs \<noteq> [] \<Longrightarrow> r_seq (last rs) \<noteq> -1" "dp_initialSeq d \<le> log_end d sh"
    using D(3) by (auto simp: list_all_iff rec_ok_def log_end_def dest!: bspec [of _ _ "last rs"])
  let ?d' = "d\<lparr> dp_fs := (dp_fs d)((False, s) := Some (enc_all rs)),
      dp_curSeq := log_end d sh + int (length rs), dp_eventCounter := int (length rs),
      dp_logfi := s, dp_pos := length (enc_all rs) \<rparr>"
  have seq: "(if (if rs = [] then -1 else r_seq (last rs)) = -1 then (if s = 0 then dp_initialSeq d else s)
      else (if rs = [] then -1 else r_seq (last rs)) + 1) = log_end d sh + int (length rs)"
    unfolding shard_start(2) [OF assms(1)] using nonneg(1) last_seq [OF assms(1)] by simp
  have "resumeLog (True, True) fault now d = Inr ?d'"
    unfolding resumeLog_def latest option.case lfr D(4) scan_recovers [OF D(3) assms(2)] rbind.simps prod.case
      Let_def seq shard_start(1) [OF assms(1)]
    using nonneg(2) by simp
  moreover have "on_disk ?d' (sh @ [(s, rs)]) []"
    using on_disk_prefix [OF assms(1), of rs "[]"] by (simp add: on_disk_def)
  ultimately show ?thesis using assms(3) by (auto simp: dp_live_def log_end_def)
qed

subsection \<open>The log, its users and crashes as a state machine\<close>

text \<open>\<open>ds_synced\<close> is how much of the current file is known durable, and \<open>ds_acked\<close> records the events whose
  \<^verbatim>\<open>Persist\<close> returned success, with the log record written for each.\<close>

record dsys =
  ds_d :: dpstate
  ds_synced :: nat
  ds_acked :: "(xevt \<times> lrec) list"

definition cur_file :: "dpstate \<Rightarrow> bytes" where
  "cur_file d = (case dp_fs d (False, dp_logfi d) of None \<Rightarrow> [] | Some f \<Rightarrow> f)"

definition dsys_init :: "dsys \<Rightarrow> bool" where
  "dsys_init s \<longleftrightarrow> ds_synced s = 0 \<and> ds_acked s = [] \<and>
     (\<exists>now epf init. NewDiskPersistence (True, True) None now epf init [] (\<lambda>_. None) = Inr (ds_d s))"

text \<open>The system after a \<^verbatim>\<open>Persist\<close> call: a successful fsync makes the current file durable, and otherwise only what was
  durable before, if the file is still the current one, is known to be.\<close>

definition after_persist :: "pio \<Rightarrow> u32 \<Rightarrow> u64 \<Rightarrow> bytes \<Rightarrow> dsys \<Rightarrow> (dp_error, xevt) result \<Rightarrow> dpstate \<Rightarrow> dsys" where
  "after_persist io k uid body s res d' =
     (let unsynced = (if dp_logfi d' = dp_logfi (ds_d s) then ds_synced s else 0) in
      case res of
        Inr xe' \<Rightarrow> \<lparr> ds_d = d', ds_synced = (if pio_sync_ok io then length (cur_file d') else unsynced),
                     ds_acked = ds_acked s @ [(xe', mk_rec k uid body (x_seq xe'))] \<rparr>
      | Inl _ \<Rightarrow> s\<lparr> ds_d := d', ds_synced := unsynced \<rparr>)"

text \<open>A crash may lose what was written to the current file after the last successful fsync, cutting it at any
  byte; what survives is on disk when the process starts again. Sequence numbers stay below \<open>2\<^sup>6\<^sup>3\<close> and event bodies
  below \<open>2\<^sup>3\<^sup>2\<close> bytes.\<close>

inductive dstep :: "(xevt \<Rightarrow> bytes option) \<Rightarrow> (string \<Rightarrow> u64 option) \<Rightarrow> dsys \<Rightarrow> dsys \<Rightarrow> bool" for mar uids where
  dpersist:
    "evt_kind (x_kind xe) = Some k \<Longrightarrow> mar xe = Some body \<Longrightarrow> uids (x_did xe) = Some uid \<Longrightarrow>
     length body < 2 ^ 32 \<Longrightarrow> dp_curSeq (ds_d s) < 2 ^ 63 \<Longrightarrow>
     dp_Persist mar uids io xe (ds_d s) = (res, d') \<Longrightarrow>
     dstep mar uids s (after_persist io k uid body s res d')"
| dsubscribe: "dstep mar uids s (s\<lparr> ds_d := SetEventBroadcaster (ds_d s) \<rparr>)"
| dcrash:
    "ds_synced s \<le> k \<Longrightarrow>
     NewDiskPersistence (True, True) None now (dp_eventsPerFile (ds_d s)) (dp_initialSeq (ds_d s)) (dp_meta (ds_d s))
       ((dp_fs (ds_d s))((False, dp_logfi (ds_d s)) := Some (take k (cur_file (ds_d s))))) = Inr d' \<Longrightarrow>
     dstep mar uids s \<lparr> ds_d = d', ds_synced = length (cur_file d'), ds_acked = ds_acked s \<rparr>"

text \<open>Every record comes from an event of a \<^verbatim>\<open>Persist\<close> call.\<close>

definition logged :: "(xevt \<Rightarrow> bytes option) \<Rightarrow> (string \<Rightarrow> u64 option) \<Rightarrow> lrec \<Rightarrow> bool" where
  "logged mar uids r \<longleftrightarrow> (\<exists>xe k body uid seq. evt_kind (x_kind xe) = Some k \<and> mar xe = Some body \<and>
     uids (x_did xe) = Some uid \<and> r = mk_rec k uid body seq)"

definition dsys_inv :: "(xevt \<Rightarrow> bytes option) \<Rightarrow> (string \<Rightarrow> u64 option) \<Rightarrow> dsys \<Rightarrow> bool" where
  "dsys_inv mar uids s \<longleftrightarrow>
     (\<exists>sh. dp_live (ds_d s) sh \<and> ds_synced s = length (cur_file (ds_d s)) \<and>
        subseq (map snd (ds_acked s)) (shard_recs sh) \<and> list_all (logged mar uids) (shard_recs sh)) \<or>
     (\<exists>recs rs1. failed_log (logged mar uids) (ds_d s) recs rs1 \<and> ds_synced s = length (enc_all rs1) \<and>
        subseq (map snd (ds_acked s)) recs \<and> list_all (logged mar uids) recs)"

lemma dsys_inv_live:
  "dp_live (ds_d s) sh \<Longrightarrow> ds_synced s = length (cur_file (ds_d s)) \<Longrightarrow>
     subseq (map snd (ds_acked s)) (shard_recs sh) \<Longrightarrow> list_all (logged mar uids) (shard_recs sh) \<Longrightarrow> dsys_inv mar uids s"
  unfolding dsys_inv_def by blast

lemma dsys_inv_failed:
  "failed_log (logged mar uids) (ds_d s) recs rs1 \<Longrightarrow> ds_synced s = length (enc_all rs1) \<Longrightarrow>
     subseq (map snd (ds_acked s)) recs \<Longrightarrow> list_all (logged mar uids) recs \<Longrightarrow> dsys_inv mar uids s"
  unfolding dsys_inv_def by blast

text \<open>An acknowledged event is the event given to \<^verbatim>\<open>Persist\<close> with the sequence number of its record.\<close>

definition ack_of :: "(xevt \<Rightarrow> bytes option) \<Rightarrow> xevt \<times> lrec \<Rightarrow> bool" where
  "ack_of mar p \<longleftrightarrow> (\<exists>xe k body uid seq. evt_kind (x_kind xe) = Some k \<and> mar xe = Some body \<and>
     p = (xe\<lparr>x_seq := seq\<rparr>, mk_rec k uid body seq))"

definition acked_inv :: "(xevt \<Rightarrow> bytes option) \<Rightarrow> dsys \<Rightarrow> bool" where
  "acked_inv mar s \<longleftrightarrow> list_all (ack_of mar) (ds_acked s) \<and>
     set (dp_broadcast (ds_d s)) \<subseteq> fst ` set (ds_acked s)"

lemma live_cur_file: "dp_live d (sh @ [(s, rs)]) \<Longrightarrow> cur_file d = enc_all rs"
  by (simp add: dp_live_def on_disk_snoc cur_file_def)

lemma dp_live_cases:
  assumes "dp_live d sh"
  obtains sh0 s rs where "sh = sh0 @ [(s, rs)]"
  using assms on_disk_cases [of d sh "[]"] unfolding dp_live_def by blast

lemma init_live:
  assumes "dsys_init s"
  shows "dsys_inv mar uids s" "acked_inv mar s"
proof -
  from assms obtain now epf init where
    "NewDiskPersistence (True, True) None now epf init [] (\<lambda>_. None) = Inr (ds_d s)" "ds_synced s = 0" "ds_acked s = []"
    by (auto simp: dsys_init_def)
  then have "0 < init" "0 < epf" and d: "ds_d s = \<lparr> dp_eventsPerFile = epf, dp_initialSeq = init,
      dp_meta = [\<lparr> Path = 0, Archived = False, SeqStart = 0, CreatedAt = now \<rparr>],
      dp_fs = (\<lambda>_. None)((False, 0) := Some []), dp_logfi = 0, dp_pos = 0, dp_eventCounter = 0, dp_curSeq = init,
      dp_failed = None, dp_hasBroadcast = False, dp_broadcast = [] \<rparr>"
    and g: "ds_synced s = 0" "ds_acked s = []"
    by (auto simp: NewDiskPersistence_def resumeLog_def latest_ref_def by_seq_asc_def initLogFile_def
        split: if_splits)
  then have "dp_live (ds_d s) ([] @ [(0, [])])"
    unfolding dp_live_def on_disk_snoc d by (simp add: log_end_def seqs_simps)
  moreover have "dp_broadcast (ds_d s) = []" by (simp add: d)
  moreover note g
  ultimately show "dsys_inv mar uids s" "acked_inv mar s"
    using live_cur_file [of "ds_d s" "[]" 0 "[]"] by (auto simp: dsys_inv_def acked_inv_def)
qed

lemma persist_synced: "evt_kind (x_kind xe) = Some kd \<Longrightarrow> dp_Persist mar uids io xe d = (Inr xe', d') \<Longrightarrow> pio_sync_ok io"
  by (auto simp: dp_Persist_def persistLocked_def persist_append_def failLocked_def split: option.splits prod.splits if_splits)

lemma after_persist_Inr:
  "evt_kind (x_kind xe) = Some kd \<Longrightarrow> dp_Persist mar uids io xe d = (Inr xe', d') \<Longrightarrow> after_persist io k uid body s (Inr xe') d' =
     \<lparr> ds_d = d', ds_synced = length (cur_file d'), ds_acked = ds_acked s @ [(xe', mk_rec k uid body (x_seq xe'))] \<rparr>"
  using persist_synced by (simp add: after_persist_def)

lemma after_persist_Inl [simp]:
  "after_persist io k uid body s (Inl e) d' =
     s\<lparr> ds_d := d', ds_synced := (if dp_logfi d' = dp_logfi (ds_d s) then ds_synced s else 0) \<rparr>"
  by (simp add: after_persist_def)

lemma persist_inv:
  assumes "evt_kind (x_kind xe) = Some k" "mar xe = Some body" "uids (x_did xe) = Some uid"
    and "length body < 2 ^ 32" "dp_curSeq (ds_d s) < 2 ^ 63"
    and "dp_Persist mar uids io xe (ds_d s) = (res, d')" "dsys_inv mar uids s"
  shows "dsys_inv mar uids (after_persist io k uid body s res d')"
  using assms(7) unfolding dsys_inv_def [of mar uids s]
proof (elim disjE exE conjE)
  fix sh assume L: "dp_live (ds_d s) sh" "ds_synced s = length (cur_file (ds_d s))"
    "subseq (map snd (ds_acked s)) (shard_recs sh)" "list_all (logged mar uids) (shard_recs sh)"
  obtain sh0 st rs where sh: "sh = sh0 @ [(st, rs)]" by (rule dp_live_cases [OF L(1)])
  have lg: "logged mar uids (mk_rec k uid body n)" for n unfolding logged_def using assms(1-3) by blast
  note P = persist_live [where Q = "logged mar uids", OF L(1) [unfolded sh] assms(6,1-5) lg]
  show ?thesis
  proof (cases res)
    case (Inr xe')
    with P have "x_seq xe' = dp_curSeq (ds_d s) \<and>
        (\<exists>sh'. dp_live d' sh' \<and> shard_recs sh' = shard_recs sh @ [mk_rec k uid body (dp_curSeq (ds_d s))])"
      unfolding persist_post_def sh by (simp only: sum.case)
    then obtain sh' where "dp_live d' sh'" "shard_recs sh' = shard_recs sh @ [mk_rec k uid body (x_seq xe')]"
      by auto
    with L(3,4) Inr lg show ?thesis
      using after_persist_Inr [OF assms(1) assms(6) [unfolded Inr]] by (intro dsys_inv_live [of _ sh']) (simp_all add: list_emb_append_mono)
  next
    case (Inl e)
    let ?rs1 = "if dp_logfi d' = dp_logfi (ds_d s) then rs else []"
    have "snd (last (sh0 @ [(st, rs)])) = rs" by simp
    with P Inl have "d' = ds_d s \<or> failed_log (logged mar uids) d' (shard_recs sh) ?rs1"
      unfolding persist_post_def sh by (simp only: sum.case)
    then show ?thesis
    proof
      assume "d' = ds_d s"
      then show ?thesis using assms(7) Inl by simp
    next
      assume "failed_log (logged mar uids) d' (shard_recs sh) ?rs1"
      moreover have "(if dp_logfi d' = dp_logfi (ds_d s) then ds_synced s else 0) = length (enc_all ?rs1)"
        using L(2) live_cur_file [OF L(1) [unfolded sh]] by simp
      ultimately show ?thesis
        using L(3,4) Inl by (intro dsys_inv_failed [of _ _ _ "shard_recs sh" ?rs1]) simp_all
    qed
  qed
next
  fix recs rs1 assume F: "failed_log (logged mar uids) (ds_d s) recs rs1"
  then have "res = Inl (the (dp_failed (ds_d s)))" "d' = ds_d s"
    using assms(1-3,6) by (auto simp: failed_log_def dp_Persist_def persistLocked_def)
  then show ?thesis using assms(7) by simp
qed

lemma new_on_disk:
  assumes "on_disk d (sh @ [(s, rs)]) t" "torn_rec t'" "prefix rs' rs" "file = enc_all rs' @ t'"
  shows "\<exists>d'. NewDiskPersistence (True, True) fault now (dp_eventsPerFile d) (dp_initialSeq d) (dp_meta d)
           ((dp_fs d)((False, s) := Some file)) = Inr d' \<and> dp_live d' (sh @ [(s, rs')]) \<and> dp_broadcast d' = []"
proof -
  let ?d = "\<lparr> dp_eventsPerFile = dp_eventsPerFile d, dp_initialSeq = dp_initialSeq d, dp_meta = dp_meta d,
      dp_fs = (dp_fs d)((False, s) := Some file), dp_logfi = 0, dp_pos = 0, dp_eventCounter = 0, dp_curSeq = 0,
      dp_failed = None, dp_hasBroadcast = False, dp_broadcast = [] \<rparr>"
  have "on_disk ?d (sh @ [(s, rs')]) t'"
    using on_disk_prefix [OF assms(1,3), of t'] assms(4) by (simp add: on_disk_def)
  from resume_on_disk [OF this assms(2), of fault now] on_disk_snocD(5,10) [OF assms(1)]
  show ?thesis by (auto simp: NewDiskPersistence_def log_end_def)
qed

lemma crash_restart:
  assumes "ds_synced s \<le> k" "dsys_inv mar uids s"
  shows "\<exists>d' sh. NewDiskPersistence (True, True) None now (dp_eventsPerFile (ds_d s)) (dp_initialSeq (ds_d s))
       (dp_meta (ds_d s)) ((dp_fs (ds_d s))((False, dp_logfi (ds_d s)) := Some (take k (cur_file (ds_d s))))) = Inr d' \<and>
     dp_live d' sh \<and> subseq (map snd (ds_acked s)) (shard_recs sh) \<and> list_all (logged mar uids) (shard_recs sh) \<and>
     dp_broadcast d' = []"
proof -
  from assms(2) consider (live) sh0 st rs where "dp_live (ds_d s) (sh0 @ [(st, rs)])"
      "ds_synced s = length (cur_file (ds_d s))" "subseq (map snd (ds_acked s)) (shard_recs (sh0 @ [(st, rs)]))"
      "list_all (logged mar uids) (shard_recs (sh0 @ [(st, rs)]))"
    | (failed) recs rs1 where "failed_log (logged mar uids) (ds_d s) recs rs1" "ds_synced s = length (enc_all rs1)"
      "subseq (map snd (ds_acked s)) recs" "list_all (logged mar uids) recs"
    unfolding dsys_inv_def by (metis dp_live_cases)
  then show ?thesis
  proof cases
    case live
    have st: "on_disk (ds_d s) (sh0 @ [(st, rs)]) []" "dp_logfi (ds_d s) = st" using live(1) by (auto simp: dp_live_def)
    have "take k (cur_file (ds_d s)) = enc_all rs @ []"
      using live_cur_file [OF live(1)] assms(1) live(2) by simp
    note new = new_on_disk [OF st(1) _ _ this, of None now]
    show ?thesis unfolding st(2) using new live(3,4) by (fastforce simp: torn_rec_def simp del: shard_recs_simps)
  next
    case failed
    then obtain sh0 st rs2 t where d: "on_disk (ds_d s) (sh0 @ [(st, rs1 @ rs2)]) t" "torn_rec t" "dp_logfi (ds_d s) = st"
      "shard_recs sh0 @ rs1 = recs" "list_all (logged mar uids) rs2" by (auto simp: failed_log_def)
    have f: "cur_file (ds_d s) = enc_all rs1 @ enc_all rs2 @ t"
      using on_disk_snocD(4) [OF d(1)] d(3) by (simp add: cur_file_def)
    have "list_all rec_ok rs2" using on_disk_snocD(3) [OF d(1)] by simp
    from take_enc_all [OF this d(2), of "k - length (enc_all rs1)"] obtain rs2' t' where
      t': "prefix rs2' rs2" "torn_rec t'" "take (k - length (enc_all rs1)) (enc_all rs2 @ t) = enc_all rs2' @ t'" by blast
    have "take k (cur_file (ds_d s)) = enc_all (rs1 @ rs2') @ t'"
      unfolding f using t'(3) assms(1) failed(2) by (subst take_append) simp
    note new = new_on_disk [OF d(1) t'(2) _ this, of None now]
    have "subseq (map snd (ds_acked s)) (shard_recs (sh0 @ [(st, rs1 @ rs2')]))"
      using failed(3) d(4) by (auto intro: subseq_order.trans)
    moreover have "list_all (logged mar uids) (shard_recs (sh0 @ [(st, rs1 @ rs2')]))"
      using failed(4) d(4,5) t'(1) by (auto simp: prefix_def)
    ultimately show ?thesis unfolding d(3) using new t'(1) by fastforce
  qed
qed

text \<open>Only the event of a successful \<^verbatim>\<open>Persist\<close> is broadcast.\<close>

definition bcast_ok :: "xevt \<Rightarrow> xevt list \<Rightarrow> (dp_error, xevt) result \<times> dpstate \<Rightarrow> bool" where
  "bcast_ok xe b out = (case out of
      (Inl _, d') \<Rightarrow> dp_broadcast d' = b
    | (Inr xe', d') \<Rightarrow> xe' = xe\<lparr>x_seq := x_seq xe'\<rparr> \<and> set (dp_broadcast d') \<subseteq> insert xe' (set b))"

lemma swapLog_broadcast: "swapLog f n d = (b, d') \<Longrightarrow> dp_broadcast d' = dp_broadcast d"
  by (auto simp: swapLog_def split: option.splits create_fault.splits)

lemma persist_append_broadcast: "bcast_ok xe (dp_broadcast d) (persist_append io xe data d)"
  by (auto simp: bcast_ok_def persist_append_def failLocked_def write_log_def split: prod.splits option.splits)

lemma persistLocked_broadcast: "bcast_ok xe (dp_broadcast d) (persistLocked io xe data d)"
proof (cases "swapLog (pio_swap io) (pio_now io) d")
  case (Pair b d1)
  note sw = swapLog_broadcast [OF Pair]
  have "bcast_ok xe (dp_broadcast d) (failLocked DpRotate d1)"
    using sw by (simp add: bcast_ok_def failLocked_def split: option.splits)
  then show ?thesis
    using Pair persist_append_broadcast [of xe d] persist_append_broadcast [of xe d1] sw
    by (simp add: persistLocked_def split: option.splits) (simp add: bcast_ok_def)
qed

lemma persist_broadcast:
  "evt_kind (x_kind xe) = Some k \<Longrightarrow> bcast_ok xe (dp_broadcast d) (dp_Persist mar uids io xe d)"
  using persistLocked_broadcast [of xe d]
  by (simp add: dp_Persist_def split: option.splits) (simp add: bcast_ok_def)

lemma dstep_inv:
  assumes "dstep mar uids s s'" "dsys_inv mar uids s \<and> acked_inv mar s"
  shows "dsys_inv mar uids s' \<and> acked_inv mar s'"
  using assms
proof (induction rule: dstep.induct)
  case (dpersist xe k body uid s io res d')
  have b: "bcast_ok xe (dp_broadcast (ds_d s)) (res, d')"
    using persist_broadcast [OF dpersist(1), of "ds_d s" mar uids io] dpersist(6) by simp
  have "acked_inv mar (after_persist io k uid body s res d')"
  proof (cases res)
    case (Inr xe')
    then have "xe' = xe\<lparr>x_seq := x_seq xe'\<rparr>" using b by (simp add: bcast_ok_def)
    then have "ack_of mar (xe', mk_rec k uid body (x_seq xe'))"
      unfolding ack_of_def using dpersist(1,2)
      by (intro exI [of _ xe] exI [of _ k] exI [of _ body] exI [of _ uid] exI [of _ "x_seq xe'"]) simp
    then show ?thesis using Inr b dpersist(7) after_persist_Inr [OF dpersist(1) dpersist(6) [unfolded Inr]]
      by (auto simp: acked_inv_def bcast_ok_def)
  next
    case (Inl e)
    then show ?thesis using b dpersist(7) by (simp add: acked_inv_def bcast_ok_def)
  qed
  then show ?case using persist_inv [OF dpersist(1-6)] dpersist(7) by blast
next
  case (dsubscribe s)
  have "on_disk (SetEventBroadcaster (ds_d s)) = on_disk (ds_d s)"
    by (intro ext) (simp add: on_disk_def SetEventBroadcaster_def)
  then have "dp_live (SetEventBroadcaster (ds_d s)) = dp_live (ds_d s)"
    "failed_log Q (SetEventBroadcaster (ds_d s)) = failed_log Q (ds_d s)" for Q
    by (intro ext; simp add: dp_live_def failed_log_def log_end_def; simp add: SetEventBroadcaster_def)+
  then show ?case using dsubscribe
    by (simp add: dsys_inv_def acked_inv_def) (simp add: SetEventBroadcaster_def cur_file_def)
next
  case (dcrash s k now d')
  then obtain sh where "dp_live d' sh" "subseq (map snd (ds_acked s)) (shard_recs sh)"
    "list_all (logged mar uids) (shard_recs sh)" "dp_broadcast d' = []"
    using crash_restart [OF dcrash(1), of mar uids now] by auto
  then show ?case using dcrash(3) by (auto simp: acked_inv_def intro: dsys_inv_live)
qed

interpretation disk_log: inductive_invariant dsys_init "dstep mar uids" "\<lambda>s. dsys_inv mar uids s \<and> acked_inv mar s"
  for mar uids
  by unfold_locales (auto intro: init_live dest: dstep_inv)

end
