(* ===== verification/DiskPlayback.thy ===== *)
theory DiskPlayback
  imports DiskLog
begin

text \<open>
  Playback, takedown and garbage collection of the relay's output log, on the logs that \<^verbatim>\<open>DiskLog\<close> shows
  reachable, and the properties of the log.
\<close>

subsection \<open>Playback of whole files\<close>

text \<open>A reference with its shard: the file it names holds the shard's records.\<close>

definition holds :: "dpstate \<Rightarrow> LogFileRef \<Rightarrow> int \<times> lrec list \<Rightarrow> bool" where
  "holds d r x \<longleftrightarrow> Path r = fst x \<and> SeqStart r = fst x \<and> dp_fs d (False, fst x) = Some (enc_all (snd x)) \<and>
     list_all rec_ok (snd x)"

definition last_of :: "lrec list \<Rightarrow> int" where
  "last_of rs = (if rs = [] then 0 else r_seq (last rs))"

definition emits :: "(xkind \<Rightarrow> bytes \<Rightarrow> (xevt \<times> nat) option) \<Rightarrow> lrec list \<Rightarrow> xevt list" where
  "emits unm rs = concat (map (played unm) rs)"

text \<open>The records can be unmarshalled and the callback accepts the events.\<close>

definition readable :: "(xkind \<Rightarrow> bytes \<Rightarrow> (xevt \<times> nat) option) \<Rightarrow> (xevt \<Rightarrow> bool) \<Rightarrow> lrec list \<Rightarrow> bool" where
  "readable unm cb rs \<longleftrightarrow> list_all (playable unm) rs \<and> (\<forall>e\<in>set (emits unm rs). cb e)"

lemma emits_append [simp]: "emits unm (rs @ rs') = emits unm rs @ emits unm rs'"
  by (simp add: emits_def)

lemma emits_Nil [simp]: "emits unm [] = []"
  by (simp add: emits_def)

lemma readable_append: "readable unm cb (rs @ rs') \<longleftrightarrow> readable unm cb rs \<and> readable unm cb rs'"
  by (auto simp: readable_def)

lemma read_file:
  assumes "holds d r x" "readable unm cb (snd x)"
  shows "readEventsFrom unm cb 0 (dp_fs d (False, Path r)) acc = Inr (Some (last_of (snd x)), acc @ emits unm (snd x))"
  using read_loop_records [of "snd x" unm cb "[]" 0 acc] assms
  by (simp add: readEventsFrom_def holds_def readable_def emits_def last_of_def)

text \<open>Reading from a cursor: the records after it, if the cursor is not past the end of the file.\<close>

lemma read_file_since:
  assumes "holds d r (s, rs @ rs')" "readable unm cb rs'" "0 < since" "\<forall>q\<in>set rs. r_seq q \<le> since"
    and "rs' \<noteq> [] \<Longrightarrow> r_seq (hd rs') > since"
  shows "readEventsFrom unm cb since (dp_fs d (False, Path r)) acc =
     (if rs' = [] \<and> since > (if rs = [] then -1 else r_seq (last rs)) then Inr (None, acc)
      else Inr (Some (last_of rs'), acc @ emits unm rs'))"
proof -
  have rec: "list_all rec_ok (rs @ rs')" "dp_fs d (False, Path r) = Some (enc_all (rs @ rs'))"
    using assms(1) by (auto simp: holds_def)
  have "read_loop unm cb (enc_all rs @ enc_all rs') (length (enc_all rs)) 0 acc = Inr (Some (last_of rs'), acc @ emits unm rs')"
    using read_loop_records [of rs' unm cb "enc_all rs" 0 acc] assms(2) rec(1)
    by (simp add: readable_def emits_def last_of_def)
  then show ?thesis
    using scan_since [OF rec(1) assms(3-5), of "(False, False)"] assms(3,5) rec(2)
    by (auto simp: readEventsFrom_def)
qed

lemma playback_files_all:
  assumes "list_all2 (holds d) refs shs" "readable unm cb (shard_recs shs)"
  shows "\<exists>res. playback_files unm cb d 0 refs acc = Inr (res, acc @ emits unm (shard_recs shs)) \<and>
     (res = None \<or> shs \<noteq> [] \<and> res = Some (last_of (snd (last shs))) \<and>
        last_of (snd (last shs)) - fst (last shs) = dp_eventsPerFile d - 1)"
  using assms
proof (induction refs shs arbitrary: acc rule: list_all2_induct)
  case (Cons r refs x shs)
  obtain s rs where x: "x = (s, rs)" by fastforce
  have rd: "readable unm cb rs" "readable unm cb (shard_recs shs)" using Cons.prems by (auto simp: x readable_append)
  have rf: "readEventsFrom unm cb 0 (dp_fs d (False, Path r)) acc = Inr (Some (last_of rs), acc @ emits unm rs)"
    using read_file [OF Cons.hyps(1), of unm cb acc] rd by (simp add: x)
  show ?case
  proof (cases "refs = []")
    case True
    then show ?thesis using Cons.hyps rf by (auto simp: x holds_def)
  next
    case False
    then have "shs \<noteq> []" using Cons.hyps(2) by auto
    then show ?thesis using Cons.IH [OF rd(2), of "acc @ emits unm rs"] False rf by (auto simp: x)
  qed
qed simp

lemma on_disk_holds:
  assumes "on_disk d sh []"
  shows "list_all2 (holds d) (dp_meta d) sh"
proof -
  have len: "length (dp_meta d) = length sh" using assms by (metis length_map on_disk_def)
  have files: "\<forall>x\<in>set sh. dp_fs d (False, fst x) = Some (enc_all (snd x))"
  proof -
    obtain sh0 s rs where sh: "sh = sh0 @ [(s, rs)]" by (rule on_disk_cases [OF assms])
    have "\<forall>x\<in>set sh0. dp_fs d (False, fst x) = Some (enc_all (snd x))" "dp_fs d (False, s) = Some (enc_all rs)"
      using assms unfolding sh on_disk_snoc by simp_all
    then show ?thesis by (simp add: sh)
  qed
  have rec: "\<forall>x\<in>set sh. list_all rec_ok (snd x)"
    using assms by (auto simp: on_disk_def shard_recs_def list_all_iff)
  have "Path (dp_meta d ! i) = fst (sh ! i)" "SeqStart (dp_meta d ! i) = fst (sh ! i)" if "i < length sh" for i
  proof -
    have "map Path (dp_meta d) = map fst sh" "map SeqStart (dp_meta d) = map fst sh" using assms by (simp_all add: on_disk_def)
    then show "Path (dp_meta d ! i) = fst (sh ! i)" "SeqStart (dp_meta d ! i) = fst (sh ! i)"
      using that len by (metis nth_map)+
  qed
  then show ?thesis using files rec len by (auto simp: list_all2_conv_all_nth holds_def)
qed
subsection \<open>Playback of a whole log\<close>

lemma by_seq_asc_short [simp]: "by_seq_asc [] = []" "by_seq_asc [r] = [r]"
  by (simp_all add: by_seq_asc_def)

lemma filter_meta:
  assumes "on_disk d sh t"
  shows "by_seq_asc (filter P (dp_meta d)) = filter P (dp_meta d)"
  unfolding by_seq_asc_def
proof (rule sort_key_id_if_sorted)
  have "sorted (map SeqStart (dp_meta d))"
    using on_disk_sorted [OF assms] assms by (simp add: on_disk_def strict_sorted_iff)
  then show "sorted (map SeqStart (filter P (dp_meta d)))" by (rule sorted_filter)
qed

lemma meta_snoc:
  assumes "on_disk d (sh @ [(s, rs)]) []"
  obtains refs r where "dp_meta d = refs @ [r]" "list_all2 (holds d) refs sh" "holds d r (s, rs)"
  using on_disk_holds [OF assms] by (auto simp: list_all2_append2 list_all2_Cons2)

lemma starts_le_last:
  assumes "on_disk d (sh @ [(s, rs)]) []" "dp_meta d = refs @ [r]" "list_all2 (holds d) refs sh"
  shows "\<forall>q\<in>set refs. SeqStart q < s"
proof
  fix q assume "q \<in> set refs"
  then obtain x where "x \<in> set sh" "SeqStart q = fst x"
    using assms(3) unfolding list_all2_conv_all_nth holds_def by (metis in_set_conv_nth)
  then show "SeqStart q < s" using starts_below(1) [OF assms(1)] by auto
qed

lemma last_of_start:
  assumes "on_disk d (sh @ [(s, rs)]) t" "rs \<noteq> []"
  shows "s \<le> last_of rs" "0 < last_of rs" "last_of rs = log_end d (sh @ [(s, rs)]) - 1"
  using starts_below(2) [OF assms] last_seq [OF assms] on_disk_snocD(5) [OF assms(1)] assms(2)
  by (auto simp: last_of_def log_end_def) (cases rs, auto)+

text \<open>After a round that ended with a file that looked full, the rounds that follow find nothing new.\<close>

lemma rounds_done:
  assumes "on_disk d (sh @ [(s, rs)]) []" "last_of rs - s = dp_eventsPerFile d - 1"
  shows "playback_rounds n unm cb d (last_of rs) None acc = Inr acc"
proof -
  obtain refs r where m: "dp_meta d = refs @ [r]" "list_all2 (holds d) refs sh" "holds d r (s, rs)"
    by (rule meta_snoc [OF assms(1)])
  note below = starts_le_last [OF assms(1) m(1,2)]
  have r: "SeqStart r = s" "Path r = s" using m(3) by (simp_all add: holds_def)
  have asc: "by_seq_asc (filter P (dp_meta d)) = filter P (dp_meta d)" for P by (rule filter_meta [OF assms(1)])
  show ?thesis
  proof (cases "rs = []")
    case True
    then have "last_of rs = 0" "s = 0" "dp_eventsPerFile d = 1" "sh = []"
      using assms(2) on_disk_snocD(5,7,8,10) [OF assms(1)] by (auto simp: last_of_def log_end_def) (cases sh; force)+
    then have "readEventsFrom unm cb 0 (dp_fs d (False, Path r)) acc = Inr (Some 0, acc)" "refs = []"
      using read_file [OF m(3), of unm cb acc] m(2) True by (auto simp: readable_def last_of_def)
    then show ?thesis
      using \<open>last_of rs = 0\<close> \<open>s = 0\<close> \<open>dp_eventsPerFile d = 1\<close> r m(1)
      by (induction n) (simp_all add: by_seq_asc_def)
  next
    case False
    note lo = last_of_start [OF assms(1) False]
    have none: "filter (\<lambda>q. SeqStart q \<ge> last_of rs) (dp_meta d) = (if s = last_of rs then [r] else [])"
      using below lo(1) r m(1) by (auto simp: filter_empty_conv)
    have cur: "readEventsFrom unm cb s (dp_fs d (False, Path r)) acc = Inr (Some 0, acc)" if "s = last_of rs"
    proof -
      have "\<forall>q\<in>set rs. r_seq q \<le> s"
      proof
        fix q assume q: "q \<in> set rs"
        have "r_seq q \<in> set (seqs (log_end d sh) (length rs))"
          using on_disk_snocD(6) [OF assms(1)] q by (metis image_eqI list.set_map)
        then show "r_seq q \<le> s"
          using that lo(3) by (auto simp: seqs_def log_end_def)
      qed
      then show ?thesis
        using read_file_since [of d r s rs "[]" unm cb s acc] m(3) that lo(2) False
        by (simp add: readable_def last_of_def)
    qed
    show ?thesis
      using none cur asc r lo(2) assms(2) by (cases n) auto
  qed
qed

lemma playback_whole_log:
  assumes "on_disk d sh []" "readable unm cb (shard_recs sh)"
  shows "dp_Playback unm cb 0 d = Inr (emits unm (shard_recs sh))"
proof -
  obtain sh0 s rs where sh: "sh = sh0 @ [(s, rs)]" by (rule on_disk_cases [OF assms(1)])
  have nonneg: "\<forall>q\<in>set (dp_meta d). SeqStart q \<ge> 0"
  proof -
    have "\<forall>x\<in>set sh. fst (hd sh) \<le> fst x"
      using on_disk_sorted [OF assms(1)] by (cases sh) (auto intro: less_imp_le)
    then have "\<forall>x\<in>set (map fst sh). 0 \<le> x" using assms(1) by (auto simp: on_disk_def)
    moreover have "map SeqStart (dp_meta d) = map fst sh" using assms(1) by (simp add: on_disk_def)
    ultimately show ?thesis by (metis imageI list.set_map)
  qed
  then have all: "by_seq_asc (filter (\<lambda>q. SeqStart q \<ge> 0) (dp_meta d)) = dp_meta d"
    unfolding filter_meta [OF assms(1)] by (simp add: filter_id_conv)
  obtain res where R: "playback_files unm cb d 0 (dp_meta d) [] = Inr (res, emits unm (shard_recs sh))"
    "res = None \<or> res = Some (last_of rs) \<and> last_of rs - s = dp_eventsPerFile d - 1"
    using playback_files_all [OF on_disk_holds [OF assms(1)] assms(2), of "[]"] by (auto simp: sh)
  then show ?thesis
    using rounds_done [OF assms(1) [unfolded sh], of 9 unm cb "emits unm (shard_recs sh)"] all
    by (auto simp: dp_Playback_def eval_nat_numeral(3) [of "num.Bit0 _"] numeral_eq_Suc simp del: playback_files.simps)
qed

subsection \<open>Playback from a cursor\<close>

text \<open>The records of a shard around a cursor.\<close>

definition upto :: "int \<Rightarrow> lrec list \<Rightarrow> lrec list" where
  "upto since rs = filter (\<lambda>r. r_seq r \<le> since) rs"

definition after :: "int \<Rightarrow> lrec list \<Rightarrow> lrec list" where
  "after since rs = filter (\<lambda>r. r_seq r > since) rs"

lemma after_append [simp]: "after since (rs @ rs') = after since rs @ after since rs'"
  by (simp add: after_def)

lemma after_all: "\<forall>r\<in>set rs. r_seq r > since \<Longrightarrow> after since rs = rs"
  by (simp add: after_def)

lemma after_none: "\<forall>r\<in>set rs. r_seq r \<le> since \<Longrightarrow> after since rs = []"
  by (auto simp: after_def filter_empty_conv)

lemma sorted_split:
  "sorted_wrt (<) (map r_seq rs) \<Longrightarrow> rs = upto since rs @ after since rs \<and>
     (after since rs \<noteq> [] \<longrightarrow> r_seq (hd (after since rs)) > since \<and> last (after since rs) = last rs)"
proof (induction rs)
  case (Cons r rs)
  show ?case
  proof (cases "r_seq r \<le> since")
    case True
    then show ?thesis using Cons by (auto simp: upto_def after_def)
  next
    case False
    then have "\<forall>q\<in>set rs. r_seq q > since" using Cons.prems by force
    then show ?thesis using False by (auto simp: upto_def after_def filter_empty_conv filter_id_conv)
  qed
qed (simp add: upto_def after_def)

lemma sorted_seqs: "sorted_wrt (<) (seqs s n)"
  by (simp add: seqs_def sorted_wrt_map sorted_wrt_upt sorted_wrt_mono_rel [of _ "(<)"] flip: strict_sorted_iff)

lemma set_seqs: "set (seqs s n) = {s..<s + int n}"
proof
  show "{s..<s + int n} \<subseteq> set (seqs s n)"
  proof
    fix x assume "x \<in> {s..<s + int n}"
    then have "x = s + int (nat (x - s)) \<and> nat (x - s) < n" by auto
    then show "x \<in> set (seqs s n)" unfolding seqs_def by force
  qed
qed (auto simp: seqs_def)

lemma shard_sorted:
  assumes "on_disk d (sh @ [(s, rs)] @ sh') t"
  shows "sorted_wrt (<) (map r_seq rs)" "map r_seq rs = seqs (log_end d sh) (length rs)"
proof -
  have "chain (dp_eventsPerFile d) (dp_initialSeq d) (sh @ [(s, rs)] @ sh')" using assms(1) by (simp add: on_disk_def)
  from chain_seqs [OF this] show "map r_seq rs = seqs (log_end d sh) (length rs)"
    by (auto simp: seqs_append log_end_def seqs_simps(3))
  then show "sorted_wrt (<) (map r_seq rs)" using sorted_seqs by simp
qed

lemma shard_seq_range:
  assumes "on_disk d (sh @ [(s, rs)] @ sh') t" "q \<in> set rs"
  shows "log_end d sh \<le> r_seq q \<and> r_seq q < log_end d sh + int (length rs)"
  using shard_sorted(2) [OF assms(1)] assms(2) set_seqs [of "log_end d sh" "length rs"]
  by (metis atLeastLessThan_iff image_eqI list.set_map)

lemma chain_middle:
  "chain epf next (A @ (s, rs) # B) \<Longrightarrow>
     (A \<noteq> [] \<longrightarrow> s = next + int (length (shard_recs A))) \<and>
     (B \<noteq> [] \<longrightarrow> int (length rs) = epf \<and> fst (hd B) = next + int (length (shard_recs A)) + int (length rs))"
proof (induction A arbitrary: "next")
  case (Cons x A)
  obtain s' rs' where x: "x = (s', rs')" by fastforce
  show ?case
  proof (cases A)
    case Nil
    then show ?thesis using Cons.prems by (simp add: x)
  next
    case A: (Cons y ys)
    have "chain epf (next + int (length rs')) (A @ (s, rs) # B)" using Cons.prems by (simp only: x append_Cons chain.simps)
    from Cons.IH [OF this] show ?thesis using A by (simp add: x add.assoc)
  qed
qed simp

lemma shard_middle:
  assumes "on_disk d (A @ [(s, rs)] @ B) []"
  shows "A \<noteq> [] \<Longrightarrow> s = log_end d A" "A = [] \<Longrightarrow> s = 0"
    "B \<noteq> [] \<Longrightarrow> int (length rs) = dp_eventsPerFile d"
    "\<forall>x\<in>set B. log_end d (A @ [(s, rs)]) \<le> fst x"
    "\<forall>x\<in>set A. fst x < s"
proof -
  have c: "chain (dp_eventsPerFile d) (dp_initialSeq d) (A @ (s, rs) # B)"
    and z: "fst (hd (A @ [(s, rs)] @ B)) = 0" using assms by (auto simp: on_disk_def)
  note m = chain_middle [OF c]
  show "A \<noteq> [] \<Longrightarrow> s = log_end d A" "B \<noteq> [] \<Longrightarrow> int (length rs) = dp_eventsPerFile d"
    using m by (auto simp: log_end_def)
  show "A = [] \<Longrightarrow> s = 0" using z by simp
  have srt: "sorted_wrt (<) (map fst (A @ [(s, rs)] @ B))" by (rule on_disk_sorted [OF assms])
  show "\<forall>x\<in>set A. fst x < s" using srt by (auto simp: sorted_wrt_append)
  show "\<forall>x\<in>set B. log_end d (A @ [(s, rs)]) \<le> fst x"
  proof (cases B)
    case (Cons b B')
    have "\<forall>x\<in>set B. fst b \<le> fst x" using srt by (auto simp: sorted_wrt_append Cons)
    then show ?thesis using m Cons by (simp add: log_end_def add.assoc)
  qed simp
qed

text \<open>The first round of a playback from a cursor reads the file that starts before the cursor.\<close>

lemma cursor_round:
  assumes "on_disk d (A @ [(s, rs)] @ B) []" "0 < since" "s < since" "\<forall>x\<in>set B. since \<le> fst x"
    and "readable unm cb (after since rs)" "1 < dp_eventsPerFile d"
  shows "dp_Playback unm cb since d =
     (if after since rs = [] \<or> last_of rs - s \<noteq> dp_eventsPerFile d - 1 then Inr (emits unm (after since rs))
      else playback_rounds 9 unm cb d (last_of rs) None (emits unm (after since rs)))"
proof -
  obtain ra r rb where m: "dp_meta d = ra @ [r] @ rb" "list_all2 (holds d) ra A" "holds d r (s, rs)"
    "list_all2 (holds d) rb B"
    using on_disk_holds [OF assms(1)] by (auto simp: list_all2_append2 list_all2_Cons2)
  have "SeqStart q \<in> fst ` set A" if "q \<in> set ra" for q
    using m(2) that unfolding list_all2_conv_all_nth holds_def by (metis imageI in_set_conv_nth)
  then have ra: "\<forall>q\<in>set ra. SeqStart q < since" using shard_middle(5) [OF assms(1)] assms(3) by fastforce
  have "SeqStart q \<in> fst ` set B" if "q \<in> set rb" for q
    using m(4) that unfolding list_all2_conv_all_nth holds_def by (metis imageI in_set_conv_nth)
  then have rb: "\<forall>q\<in>set rb. \<not> SeqStart q < since" using assms(4) by fastforce
  have "filter (\<lambda>q. SeqStart q < since) (dp_meta d) = ra @ [r]"
    using ra rb m(1,3) assms(3) by (auto simp: holds_def filter_id_conv filter_empty_conv)
  with filter_meta [OF assms(1), of "\<lambda>q. SeqStart q < since"]
  have before: "latest_ref (filter (\<lambda>q. SeqStart q < since) (dp_meta d)) = Some r"
    by (simp add: latest_ref_def)
  have srt: "sorted_wrt (<) (map r_seq rs)" by (rule shard_sorted(1) [OF assms(1)])
  note sp = sorted_split [OF srt, of since]
  have "holds d r (s, upto since rs @ after since rs)" using m(3) sp by simp
  from read_file_since [OF this assms(5,2), of "[]"] sp
  have rd: "readEventsFrom unm cb since (dp_fs d (False, Path r)) [] = Inr (None, []) \<and> after since rs = [] \<or>
      readEventsFrom unm cb since (dp_fs d (False, Path r)) [] = Inr (Some (last_of (after since rs)), emits unm (after since rs))"
    by (auto simp: upto_def)
  have lo: "last_of (after since rs) = (if after since rs = [] then 0 else last_of rs)"
    using sp by (auto simp: last_of_def)
  have s: "SeqStart r = s" "0 \<le> s"
    using m(3) shard_middle(1,2) [OF assms(1)] assms(1)
    by (auto simp: holds_def on_disk_def log_end_def) (cases A; force)+
  have "playback_files unm cb d since [r] [] =
     (if after since rs = [] \<or> last_of rs - s \<noteq> dp_eventsPerFile d - 1
      then Inr (None, emits unm (after since rs)) else Inr (Some (last_of rs), emits unm (after since rs)))"
  proof (cases "after since rs = []")
    case True
    then show ?thesis using rd lo s assms(6) by auto
  next
    case False
    then show ?thesis using rd lo s by simp
  qed
  then show ?thesis
    using before assms(2) by (auto simp: dp_Playback_def numeral_eq_Suc simp del: playback_files.simps)
qed

lemma playback_files_next:
  assumes "list_all2 (holds d) refs shs" "readable unm cb (shard_recs shs)" "0 < since"
    and "\<forall>q\<in>set (shard_recs shs). since < r_seq q"
  shows "\<exists>res. playback_files unm cb d since refs acc = Inr (res, acc @ emits unm (shard_recs shs)) \<and>
     (res = None \<or> shs \<noteq> [] \<and> res = Some (last_of (snd (last shs))) \<and>
        last_of (snd (last shs)) - fst (last shs) = dp_eventsPerFile d - 1)"
proof (cases shs)
  case Nil
  then show ?thesis using assms(1) by simp
next
  case (Cons x shs')
  obtain s rs where x: "x = (s, rs)" by fastforce
  obtain r refs' where refs: "refs = r # refs'" "holds d r (s, rs)" "list_all2 (holds d) refs' shs'"
    using assms(1) by (auto simp: Cons x list_all2_Cons2)
  have rd: "readable unm cb rs" "readable unm cb (shard_recs shs')" using assms(2) by (auto simp: Cons x readable_append)
  have "rs \<noteq> [] \<Longrightarrow> since < r_seq (hd rs)" using assms(4) by (auto simp: Cons x)
  from read_file_since [of d r s "[]" rs unm cb since acc] refs(2) rd(1) assms(3) this
  have rf: "readEventsFrom unm cb since (dp_fs d (False, Path r)) acc =
      (if rs = [] then Inr (None, acc) else Inr (Some (last_of rs), acc @ emits unm rs))" by auto
  show ?thesis
  proof (cases "shs' = []")
    case True
    then show ?thesis using refs rf by (auto simp: Cons x holds_def)
  next
    case False
    then have "refs' \<noteq> []" using refs(3) by auto
    then show ?thesis
      using playback_files_all [OF refs(3) rd(2), of "acc @ emits unm rs"] False rf refs(1) by (auto simp: Cons x)
  qed
qed

lemma last_of_middle:
  assumes "on_disk d (A @ [(s, rs)] @ B) []" "rs \<noteq> []"
  shows "last_of rs = log_end d (A @ [(s, rs)]) - 1"
  using shard_sorted(2) [OF assms(1)] assms(2)
  by (cases rs rule: rev_cases) (auto simp: seqs_simps last_of_def log_end_def)

lemma later_seqs:
  assumes "on_disk d (A @ [(s, rs)] @ B) []"
  shows "\<forall>q\<in>set (shard_recs B). log_end d (A @ [(s, rs)]) \<le> r_seq q"
    "\<forall>q\<in>set (shard_recs A). r_seq q < log_end d A"
proof -
  have "chain (dp_eventsPerFile d) (dp_initialSeq d) (A @ [(s, rs)] @ B)" using assms(1) by (simp add: on_disk_def)
  from chain_seqs [OF this]
  have "map r_seq (shard_recs A) = seqs (dp_initialSeq d) (length (shard_recs A))"
    "map r_seq (shard_recs B) = seqs (log_end d (A @ [(s, rs)])) (length (shard_recs B))"
    by (auto simp: seqs_append log_end_def seqs_simps(3) add.assoc)
  then have "r_seq ` set (shard_recs A) = {dp_initialSeq d..<log_end d A}"
    "r_seq ` set (shard_recs B) = {log_end d (A @ [(s, rs)])..<log_end d (A @ [(s, rs)]) + int (length (shard_recs B))}"
    by (metis list.set_map log_end_def set_seqs)+
  then show "\<forall>q\<in>set (shard_recs B). log_end d (A @ [(s, rs)]) \<le> r_seq q"
    "\<forall>q\<in>set (shard_recs A). r_seq q < log_end d A" by auto
qed

lemma rounds_next:
  assumes "on_disk d (A @ [(s, rs)] @ B) []" "rs \<noteq> []" "s < last_of rs" "readable unm cb (shard_recs B)"
    and "B = [] \<Longrightarrow> last_of rs - s = dp_eventsPerFile d - 1"
  shows "playback_rounds 9 unm cb d (last_of rs) None acc = Inr (acc @ emits unm (shard_recs B))"
proof (cases "B = []")
  case True
  then show ?thesis using rounds_done [of d A s rs 9 unm cb acc] assms(1,5) by simp
next
  case False
  obtain ra r rb where m: "dp_meta d = ra @ [r] @ rb" "list_all2 (holds d) ra A" "holds d r (s, rs)"
    "list_all2 (holds d) rb B"
    using on_disk_holds [OF assms(1)] by (auto simp: list_all2_append2 list_all2_Cons2)
  note l = last_of_middle [OF assms(1,2)]
  have "SeqStart q \<in> fst ` set A" if "q \<in> set ra" for q
    using m(2) that unfolding list_all2_conv_all_nth holds_def by (metis imageI in_set_conv_nth)
  then have ra: "\<forall>q\<in>set ra. SeqStart q < last_of rs" using shard_middle(5) [OF assms(1)] assms(3) by fastforce
  have "SeqStart q \<in> fst ` set B" if "q \<in> set rb" for q
    using m(4) that unfolding list_all2_conv_all_nth holds_def by (metis imageI in_set_conv_nth)
  then have rb: "\<forall>q\<in>set rb. last_of rs \<le> SeqStart q" using shard_middle(4) [OF assms(1)] l by fastforce
  have "filter (\<lambda>q. last_of rs \<le> SeqStart q) (dp_meta d) = rb"
    using ra rb m(1,3) assms(3) by (fastforce simp: holds_def filter_id_conv filter_empty_conv)
  with filter_meta [OF assms(1), of "\<lambda>q. last_of rs \<le> SeqStart q"]
  have logs: "by_seq_asc (filter (\<lambda>q. last_of rs \<le> SeqStart q) (dp_meta d)) = rb" by simp
  have lt: "\<forall>q\<in>set (shard_recs B). last_of rs < r_seq q" using later_seqs(1) [OF assms(1)] l by fastforce
  have "0 < last_of rs"
    using l assms(1,2) by (cases rs) (auto simp: log_end_def on_disk_def)
  from playback_files_next [OF m(4) assms(4) this lt, of acc] obtain res where
    R: "playback_files unm cb d (last_of rs) rb acc = Inr (res, acc @ emits unm (shard_recs B))"
    "res = None \<or> res = Some (last_of (snd (last B))) \<and> last_of (snd (last B)) - fst (last B) = dp_eventsPerFile d - 1"
    by blast
  have "B = butlast B @ [(fst (last B), snd (last B))]" using False by simp
  then have "on_disk d ((A @ [(s, rs)] @ butlast B) @ [(fst (last B), snd (last B))]) []" using assms(1) by simp
  from rounds_done [OF this, of 8 unm cb "acc @ emits unm (shard_recs B)"] R logs show ?thesis
    by (auto simp: numeral_eq_Suc simp del: playback_files.simps)
qed

subsection \<open>Where a cursor falls\<close>

lemma split_at_cursor:
  assumes "on_disk d sh []" "0 < since"
  obtains A s rs B where "sh = A @ [(s, rs)] @ B" "s < since" "\<forall>x\<in>set B. since \<le> fst x"
proof -
  let ?P = "\<lambda>x. fst x < since"
  have hd: "sh \<noteq> []" "fst (hd sh) = 0" using assms(1) by (auto simp: on_disk_def)
  then have ne: "takeWhile ?P sh \<noteq> []" using assms(2) by (cases sh) auto
  then have "?P (last (takeWhile ?P sh))" by (metis last_in_set set_takeWhileD)
  moreover have "sh = butlast (takeWhile ?P sh) @ [(fst (last (takeWhile ?P sh)), snd (last (takeWhile ?P sh)))] @ dropWhile ?P sh"
    using append_butlast_last_id [OF ne] takeWhile_dropWhile_id [of ?P sh] by (metis append.assoc prod.collapse)
  moreover have "\<forall>x\<in>set (dropWhile ?P sh). since \<le> fst x"
  proof (cases "dropWhile ?P sh")
    case (Cons y ys)
    have "sorted_wrt (<) (map fst (takeWhile ?P sh @ dropWhile ?P sh))" using on_disk_sorted [OF assms(1)] by simp
    then have "sorted_wrt (<) (map fst (y # ys))" unfolding map_append sorted_wrt_append Cons by blast
    moreover have "\<not> ?P y" using hd_dropWhile [of ?P sh] Cons by simp
    ultimately show ?thesis using Cons by force
  next
    case Nil
    show ?thesis unfolding Nil by simp
  qed
  ultimately show thesis using that by blast
qed

lemma after_shards:
  assumes "on_disk d (A @ [(s, rs)] @ B) []" "log_end d A \<le> since + 1" "B = [] \<or> since < log_end d (A @ [(s, rs)])"
  shows "after since (shard_recs (A @ [(s, rs)] @ B)) = after since rs @ shard_recs B"
proof -
  have "after since (shard_recs A) = []"
    using later_seqs(2) [OF assms(1)] assms(2) by (intro after_none) force
  moreover have "after since (shard_recs B) = shard_recs B"
    using later_seqs(1) [OF assms(1)] assms(3) by (intro after_all) force
  ultimately show ?thesis by simp
qed

lemma readable_after: "readable unm cb rs \<Longrightarrow> readable unm cb (after since rs)"
  by (auto simp: readable_def after_def emits_def list_all_iff)

text \<open>A cursor before the last record of a file other than the first one, or in the last file.\<close>

lemma cursor_complete:
  assumes "on_disk d (A @ [(s, rs)] @ B) []" "0 < since" "s < since" "\<forall>x\<in>set B. since \<le> fst x"
    and "readable unm cb (shard_recs (A @ [(s, rs)] @ B))" "1 < dp_eventsPerFile d"
    and "B \<noteq> [] \<Longrightarrow> A \<noteq> [] \<and> since < last_of rs"
  shows "dp_Playback unm cb since d = Inr (emits unm (after since (shard_recs (A @ [(s, rs)] @ B))))"
proof -
  have rd: "readable unm cb (after since rs)" "readable unm cb (shard_recs B)"
    using assms(5) readable_after [of unm cb rs since] by (auto simp: readable_append)
  have s: "log_end d A \<le> since + 1 \<or> A = [] \<and> B = []"
    using shard_middle(1) [OF assms(1)] assms(3,7) by (cases "A = []"; cases "B = []") auto
  have full: "last_of rs - s = dp_eventsPerFile d - 1 \<and> rs \<noteq> []" if "B \<noteq> []"
  proof -
    have len: "int (length rs) = dp_eventsPerFile d" "rs \<noteq> []" using shard_middle(3) [OF assms(1) that] assms(6) by auto
    then show ?thesis
      using last_of_middle [OF assms(1) len(2)] shard_middle(1) [OF assms(1)] assms(7) that by (simp add: log_end_def)
  qed
  have aft: "after since (shard_recs (A @ [(s, rs)] @ B)) = after since rs @ shard_recs B"
  proof (cases "A = [] \<and> B = []")
    case False
    then show ?thesis
      using after_shards [OF assms(1), of since] s assms(7) full last_of_middle [OF assms(1)] by fastforce
  qed simp
  have ne: "after since rs \<noteq> []" if "B \<noteq> []"
    using assms(7) [OF that] full [OF that] by (auto simp: after_def last_of_def filter_empty_conv)
  show ?thesis
  proof (cases "after since rs = [] \<or> last_of rs - s \<noteq> dp_eventsPerFile d - 1")
    case True
    then have "B = []" using ne full by blast
    then show ?thesis using cursor_round [OF assms(1-4) rd(1) assms(6)] True aft by simp
  next
    case False
    then have "rs \<noteq> []" "s < last_of rs" using assms(6) by (auto simp: after_def)
    from rounds_next [OF assms(1) this rd(2)] False show ?thesis
      using cursor_round [OF assms(1-4) rd(1) assms(6)] aft by simp
  qed
qed

subsection \<open>What the log promises\<close>

text \<open>The CBOR codec reads back what it wrote, and reads all of it.\<close>

definition cbor_ok :: "(xevt \<Rightarrow> bytes option) \<Rightarrow> (xkind \<Rightarrow> bytes \<Rightarrow> (xevt \<times> nat) option) \<Rightarrow> bool" where
  "cbor_ok mar unm \<longleftrightarrow> (\<forall>xe k body. evt_kind (x_kind xe) = Some k \<longrightarrow> mar xe = Some body \<longrightarrow>
     unm (x_kind xe) body = Some (xe, length body))"

lemma kind_of_evt_kind: "evt_kind x = Some k \<Longrightarrow> kind_of k = Some x"
  by (cases x) (auto simp: kind_of_def evtKind_defs)

lemma played_mk_rec:
  assumes "cbor_ok mar unm" "evt_kind (x_kind xe) = Some k" "mar xe = Some body"
  shows "played unm (mk_rec k uid body seq) = [xe\<lparr>x_seq := seq\<rparr>]" "playable unm (mk_rec k uid body seq)"
proof -
  have "unm (x_kind xe) body = Some (xe, length body)" using assms by (simp add: cbor_ok_def)
  then show "played unm (mk_rec k uid body seq) = [xe\<lparr>x_seq := seq\<rparr>]" "playable unm (mk_rec k uid body seq)"
    using kind_of_evt_kind [OF assms(2)] by (simp_all add: played_def playable_def mk_rec_def postDoNotEmit_def)
qed

lemma ack_of_played: "ack_of mar p \<Longrightarrow> cbor_ok mar unm \<Longrightarrow> played unm (snd p) = [fst p]"
  unfolding ack_of_def using played_mk_rec(1) by fastforce

lemma logged_ack:
  assumes "logged mar uids r"
  shows "\<exists>e. ack_of mar (e, r) \<and> x_seq e = r_seq r \<and> uids (x_did e) = Some (r_uid r)"
proof -
  obtain xe k body uid seq where r: "evt_kind (x_kind xe) = Some k" "mar xe = Some body" "uids (x_did xe) = Some uid"
    "r = mk_rec k uid body seq" using assms unfolding logged_def by blast
  then have "ack_of mar (xe\<lparr>x_seq := seq\<rparr>, r)" unfolding ack_of_def by blast
  then show ?thesis using r(3,4) by (intro exI [of _ "xe\<lparr>x_seq := seq\<rparr>"]) (simp add: mk_rec_def)
qed

lemma logged_playable:
  assumes "logged mar uids r" "cbor_ok mar unm"
  shows "playable unm r"
proof -
  obtain xe k body uid seq where "evt_kind (x_kind xe) = Some k" "mar xe = Some body" "r = mk_rec k uid body seq"
    using assms(1) unfolding logged_def by blast
  then show ?thesis using played_mk_rec(2) [OF assms(2)] by simp
qed

text \<open>The one event that a record plays back as.\<close>

definition event_of :: "(xkind \<Rightarrow> bytes \<Rightarrow> (xevt \<times> nat) option) \<Rightarrow> lrec \<Rightarrow> xevt" where
  "event_of unm r = hd (played unm r)"

lemma logged_event:
  assumes "logged mar uids r" "cbor_ok mar unm"
  shows "played unm r = [event_of unm r]" "x_seq (event_of unm r) = r_seq r"
    "uids (x_did (event_of unm r)) = Some (r_uid r)"
proof -
  obtain e where e: "ack_of mar (e, r)" "x_seq e = r_seq r" "uids (x_did e) = Some (r_uid r)"
    using logged_ack [OF assms(1)] by blast
  have "played unm r = [e]" using ack_of_played [OF e(1) assms(2)] by simp
  then show "played unm r = [event_of unm r]" "x_seq (event_of unm r) = r_seq r"
    "uids (x_did (event_of unm r)) = Some (r_uid r)" using e(2,3) by (simp_all add: event_of_def)
qed

lemma logged_emits:
  assumes "list_all (logged mar uids) rs" "cbor_ok mar unm"
  shows "emits unm rs = map (event_of unm) rs" "map (x_seq \<circ> event_of unm) rs = map r_seq rs"
  using assms(1) logged_event(1,2) [where uids = uids, OF _ assms(2)] by (induction rs) (simp_all add: emits_def)

lemma acked_events:
  assumes "list_all (ack_of mar) acked" "cbor_ok mar unm"
  shows "map (event_of unm) (map snd acked) = map fst acked"
  using assms(1) by (induction acked) (auto simp: event_of_def ack_of_played [OF _ assms(2)])

lemma live_replay:
  assumes "dp_live d sh" "list_all (logged mar uids) (shard_recs sh)" "list_all (ack_of mar) acked"
    and "subseq (map snd acked) (shard_recs sh)" "cbor_ok mar unm"
  shows "\<exists>es. dp_Playback unm (\<lambda>_. True) 0 d = Inr es \<and> map x_seq es = seqs (dp_initialSeq d) (length es) \<and>
     dp_curSeq d = dp_initialSeq d + int (length es) \<and> subseq (map fst acked) es"
proof (intro exI conjI)
  let ?es = "map (event_of unm) (shard_recs sh)"
  note e = logged_emits [OF assms(2,5)]
  have od: "on_disk d sh []" using assms(1) by (simp add: dp_live_def)
  have "readable unm (\<lambda>_. True) (shard_recs sh)"
    using assms(2) logged_playable [where uids = uids, OF _ assms(5)] by (auto simp: readable_def list_all_iff)
  from playback_whole_log [OF od this] show "dp_Playback unm (\<lambda>_. True) 0 d = Inr ?es" by (simp add: e)
  have "map r_seq (shard_recs sh) = seqs (dp_initialSeq d) (length (shard_recs sh))"
    using od chain_seqs by (auto simp: on_disk_def)
  then show "map x_seq ?es = seqs (dp_initialSeq d) (length ?es)" using e(2) by simp
  show "dp_curSeq d = dp_initialSeq d + int (length ?es)" using assms(1) by (simp add: dp_live_def log_end_def)
  show "subseq (map fst acked) ?es"
    using subseq_map [OF assms(4), of "event_of unm"] unfolding acked_events [OF assms(3,5)] .
qed

subsection \<open>A concrete log\<close>

lemma writeAll_whole: "0 < n \<Longrightarrow> writeAll (\<lambda>_. (n, False)) i [] data = (True, data)" if "length data = n" for n
  using that by (subst writeAll.simps) (auto simp: writeAll.simps)

text \<open>A persist call without faults on a log that has not failed.\<close>

lemma good_persist:
  assumes "dp_failed d = None" "evt_kind (x_kind xe) = Some k" "mar xe = Some body" "uids (x_did xe) = Some uid"
    and "io = \<lparr> pio_ctx_ok = True, pio_swap = None, pio_write = (\<lambda>_. (headerSize + length body, False)), pio_sync_ok = True,
      pio_now = now \<rparr>"
  shows "\<exists>d'. dp_Persist mar uids io xe d = (Inr (xe\<lparr>x_seq := dp_curSeq d\<rparr>), d') \<and> dp_failed d' = None \<and>
     dp_curSeq d' = dp_curSeq d + 1 \<and> dp_eventsPerFile d' = dp_eventsPerFile d \<and> dp_initialSeq d' = dp_initialSeq d \<and>
     dp_hasBroadcast d' = dp_hasBroadcast d"
proof -
  let ?data = "le_put 4 (0 :: u32) @ le_put 4 k @ le_put 4 (of_nat (length body) :: u32) @ le_put 8 uid @
      replicate 8 0 @ body"
  have w: "writeAll (pio_write io) 0 [] (put_seq n ?data) = (True, put_seq n ?data)" for n
    unfolding put_seq_enc using assms(5) by (simp add: writeAll_whole length_enc mk_rec_def headerSize_def)
  have "persistLocked io xe ?data d = dp_Persist mar uids io xe d" using assms(2-4) by (simp add: dp_Persist_def)
  moreover have A: "\<exists>d'. persist_append io xe ?data d1 = (Inr (xe\<lparr>x_seq := dp_curSeq d1\<rparr>), d') \<and> dp_failed d' = dp_failed d1 \<and>
     dp_curSeq d' = dp_curSeq d1 + 1 \<and> dp_eventsPerFile d' = dp_eventsPerFile d1 \<and> dp_initialSeq d' = dp_initialSeq d1 \<and>
     dp_hasBroadcast d' = dp_hasBroadcast d1" for d1
    unfolding persist_append_def w using assms(5) by (simp add: write_log_def)
  moreover define d1 where
    "d1 = (if dp_eventCounter d > 0 \<and> dp_eventCounter d mod dp_eventsPerFile d = 0 then snd (swapLog None now d) else d)"
  have "persistLocked io xe ?data d = persist_append io xe ?data d1"
    using assms(1,5) by (simp add: persistLocked_def swapLog_def d1_def)
  moreover have "dp_failed d1 = None" "dp_curSeq d1 = dp_curSeq d" "dp_eventsPerFile d1 = dp_eventsPerFile d"
    "dp_initialSeq d1 = dp_initialSeq d" "dp_hasBroadcast d1 = dp_hasBroadcast d"
    using assms(1) by (simp_all add: d1_def swapLog_def)
  ultimately show ?thesis using A [of d1] by simp
qed

definition sample_evt :: xevt where
  "sample_evt = \<lparr> x_kind = RepoCommit, x_did = ''d'', x_seq = 0, x_rest = [5] \<rparr>"

definition sample_mar :: "xevt \<Rightarrow> bytes option" where
  "sample_mar xe = (if xe = sample_evt then Some [7, 9] else None)"

definition sample_unm :: "xkind \<Rightarrow> bytes \<Rightarrow> (xevt \<times> nat) option" where
  "sample_unm k b = (if k = RepoCommit \<and> b = [7, 9] then Some (sample_evt, 2) else None)"

definition sample_uids :: "string \<Rightarrow> u64 option" where
  "sample_uids did = Some 3"

definition sample_io :: pio where
  "sample_io = \<lparr> pio_ctx_ok = True, pio_swap = None, pio_write = (\<lambda>_. (headerSize + length [7 :: byte, 9], False)),
     pio_sync_ok = True, pio_now = 0 \<rparr>"

text \<open>The state after \<open>n\<close> persisted events, three to a file, numbered from one, with a broadcaster installed.\<close>

primrec sample_log :: "nat \<Rightarrow> dsys" where
  "sample_log 0 =
     \<lparr> ds_d = (case NewDiskPersistence (True, True) None 0 3 1 [] (\<lambda>_. None) of Inr d \<Rightarrow> SetEventBroadcaster d),
       ds_synced = 0, ds_acked = [] \<rparr>"
| "sample_log (Suc n) =
     (case dp_Persist sample_mar sample_uids sample_io sample_evt (ds_d (sample_log n)) of (res, d') \<Rightarrow>
       after_persist sample_io evtKindCommit 3 [7, 9] (sample_log n) res d')"

lemma sample_cbor: "cbor_ok sample_mar sample_unm"
  by (auto simp: cbor_ok_def sample_mar_def sample_unm_def sample_evt_def)

lemma sample_log_reachable:
  assumes "n < 2 ^ 60"
  shows "reachable dsys_init (dstep sample_mar sample_uids) (sample_log n) \<and> dp_failed (ds_d (sample_log n)) = None \<and>
     dp_curSeq (ds_d (sample_log n)) = 1 + int n \<and> dp_eventsPerFile (ds_d (sample_log n)) = 3 \<and>
     dp_initialSeq (ds_d (sample_log n)) = 1 \<and> map fst (ds_acked (sample_log n)) = map (\<lambda>i. sample_evt\<lparr>x_seq := 1 + int i\<rparr>) [0..<n]"
  using assms
proof (induction n)
  case 0
  obtain d where d: "NewDiskPersistence (True, True) None 0 3 1 [] (\<lambda>_. None) = Inr d"
    "dp_failed d = None" "dp_curSeq d = 1" "dp_eventsPerFile d = 3" "dp_initialSeq d = 1"
    by (simp add: NewDiskPersistence_def resumeLog_def latest_ref_def initLogFile_def)
  then have "reachable dsys_init (dstep sample_mar sample_uids) \<lparr> ds_d = d, ds_synced = 0, ds_acked = [] \<rparr>"
    by (intro reachable_init) (auto simp: dsys_init_def)
  from reachable_step [OF this dsubscribe] d show ?case by (simp add: SetEventBroadcaster_def)
next
  case (Suc n)
  then have IH: "reachable dsys_init (dstep sample_mar sample_uids) (sample_log n)" "dp_failed (ds_d (sample_log n)) = None"
    "dp_curSeq (ds_d (sample_log n)) = 1 + int n" "dp_eventsPerFile (ds_d (sample_log n)) = 3"
    "dp_initialSeq (ds_d (sample_log n)) = 1"
    "map fst (ds_acked (sample_log n)) = map (\<lambda>i. sample_evt\<lparr>x_seq := 1 + int i\<rparr>) [0..<n]" by auto
  have ev: "evt_kind (x_kind sample_evt) = Some evtKindCommit" "sample_mar sample_evt = Some [7, 9]"
    "sample_uids (x_did sample_evt) = Some 3" by (simp_all add: sample_evt_def sample_mar_def sample_uids_def)
  from good_persist [where mar = sample_mar and uids = sample_uids, OF IH(2) ev sample_io_def] IH obtain d' where
    P: "dp_Persist sample_mar sample_uids sample_io sample_evt (ds_d (sample_log n)) = (Inr (sample_evt\<lparr>x_seq := 1 + int n\<rparr>), d')"
    "dp_failed d' = None" "dp_curSeq d' = 2 + int n" "dp_eventsPerFile d' = 3" "dp_initialSeq d' = 1" by auto
  have "int n < 2 ^ 63 - 1" using Suc.prems by simp
  then have "dstep sample_mar sample_uids (sample_log n) (sample_log (Suc n))"
    using dpersist [where s = "sample_log n", OF ev _ _ P(1)] IH(3) by (simp add: P(1))
  with reachable_step [OF IH(1)] P IH(6) show ?case by (simp add: after_persist_Inr [OF ev(1) P(1)])
qed

subsection \<open>Durability\<close>

text \<open>C2: in every state that the log reaches by persisting events, failing writes and fsyncs at any byte,
  crashing and restarting, as long as it has not latched a failure, a playback from the start emits events numbered
  consecutively from the initial sequence number up to the next one to be assigned, and among them, in order, every
  event whose Persist call was acknowledged.\<close>

theorem log_durable:
  assumes "reachable dsys_init (dstep mar uids) s" "dp_failed (ds_d s) = None" "cbor_ok mar unm"
  shows "\<exists>es. dp_Playback unm (\<lambda>_. True) 0 (ds_d s) = Inr es \<and>
     map x_seq es = seqs (dp_initialSeq (ds_d s)) (length es) \<and>
     dp_curSeq (ds_d s) = dp_initialSeq (ds_d s) + int (length es) \<and> subseq (map fst (ds_acked s)) es"
proof -
  from disk_log.reachable_inv [OF assms(1)] assms(2) obtain sh where
    "dp_live (ds_d s) sh" "subseq (map snd (ds_acked s)) (shard_recs sh)" "list_all (logged mar uids) (shard_recs sh)"
    "list_all (ack_of mar) (ds_acked s)"
    unfolding dsys_inv_def acked_inv_def by (auto simp: failed_log_def)
  then show ?thesis by (intro live_replay [OF _ _ _ _ assms(3), where uids = uids])
qed

theorem log_durable_witness:
  "\<exists>es. dp_Playback sample_unm (\<lambda>_. True) 0 (ds_d (sample_log 7)) = Inr es \<and> map x_seq es = seqs 1 7 \<and>
     subseq (map (\<lambda>i. sample_evt\<lparr>x_seq := 1 + int i\<rparr>) [0..<7]) es"
  using log_durable [OF _ _ sample_cbor, of sample_uids "sample_log 7"] sample_log_reachable [of 7] by auto

text \<open>C8: whatever part of the unsynced tail a crash leaves on disk, the restart succeeds, and a playback of the
  restarted log emits every event acknowledged before the crash, in order.\<close>

theorem restart_recovers:
  assumes "reachable dsys_init (dstep mar uids) s" "ds_synced s \<le> k" "cbor_ok mar unm"
  shows "\<exists>d' es. NewDiskPersistence (True, True) None now (dp_eventsPerFile (ds_d s)) (dp_initialSeq (ds_d s))
       (dp_meta (ds_d s)) ((dp_fs (ds_d s))((False, dp_logfi (ds_d s)) := Some (take k (cur_file (ds_d s))))) = Inr d' \<and>
     dp_Playback unm (\<lambda>_. True) 0 d' = Inr es \<and> subseq (map fst (ds_acked s)) es"
proof -
  have inv: "dsys_inv mar uids s" "list_all (ack_of mar) (ds_acked s)"
    using disk_log.reachable_inv [OF assms(1)] by (auto simp: acked_inv_def)
  from crash_restart [OF assms(2) inv(1), of now] show ?thesis
    using live_replay [where uids = uids, OF _ _ inv(2) _ assms(3)] by metis
qed

theorem restart_recovers_witness:
  "\<exists>d' es. NewDiskPersistence (True, True) None 5 3 1 (dp_meta (ds_d (sample_log 4)))
       ((dp_fs (ds_d (sample_log 4)))((False, dp_logfi (ds_d (sample_log 4))) :=
          Some (take (ds_synced (sample_log 4)) (cur_file (ds_d (sample_log 4)))))) = Inr d' \<and>
     dp_Playback sample_unm (\<lambda>_. True) 0 d' = Inr es \<and>
     subseq (map (\<lambda>i. sample_evt\<lparr>x_seq := 1 + int i\<rparr>) [0..<4]) es"
  using restart_recovers [OF _ order_refl sample_cbor, of sample_uids "sample_log 4" 5] sample_log_reachable [of 4] by simp



subsection \<open>Playback from a cursor in a reachable log\<close>

lemma chain_full: "chain epf next (A @ x # B) \<Longrightarrow> \<forall>y\<in>set A. int (length (snd y)) = epf"
  by (induction A arbitrary: "next") fastforce+

lemma shards_before:
  assumes "on_disk d (A @ [(s, rs)] @ B) []" "A \<noteq> []"
  shows "s = dp_initialSeq d + dp_eventsPerFile d * int (length A)"
proof -
  have "\<forall>x\<in>set A. int (length (snd x)) = dp_eventsPerFile d"
    using assms(1) by (intro chain_full [of _ "dp_initialSeq d" A "(s, rs)" B]) (simp add: on_disk_def)
  then have "int (length (shard_recs A)) = dp_eventsPerFile d * int (length A)"
    by (induction A) (auto simp: shard_recs_def algebra_simps)
  then show ?thesis using shard_middle(1) [OF assms] by (simp add: log_end_def)
qed

lemma reachable_shards:
  assumes "reachable dsys_init (dstep mar uids) s" "dp_failed (ds_d s) = None" "cbor_ok mar unm"
  obtains sh where "on_disk (ds_d s) sh []" "dp_curSeq (ds_d s) = log_end (ds_d s) sh"
    "readable unm (\<lambda>_. True) (shard_recs sh)" "list_all (logged mar uids) (shard_recs sh)"
proof -
  from disk_log.reachable_inv [OF assms(1)] assms(2) obtain sh where
    sh: "dp_live (ds_d s) sh" "list_all (logged mar uids) (shard_recs sh)"
    unfolding dsys_inv_def by (auto simp: failed_log_def)
  moreover have "readable unm (\<lambda>_. True) (shard_recs sh)"
    using sh(2) logged_playable [where uids = uids, OF _ assms(3)] by (auto simp: readable_def list_all_iff)
  ultimately show thesis using that by (auto simp: dp_live_def)
qed

lemma emits_after:
  assumes "list_all (logged mar uids) rs" "cbor_ok mar unm"
  shows "emits unm (after since rs) = filter (\<lambda>e. since < x_seq e) (emits unm rs)"
proof -
  have "list_all (logged mar uids) (after since rs)" using assms(1) by (auto simp: after_def list_all_iff)
  note e = logged_emits(1) [OF this assms(2)] logged_emits [OF assms]
  have "\<forall>r\<in>set rs. x_seq (event_of unm r) = r_seq r" using e(3) by simp
  then have "filter ((\<lambda>e. since < x_seq e) \<circ> event_of unm) rs = after since rs"
    unfolding after_def by (intro filter_cong) auto
  then show ?thesis by (simp add: e filter_map)
qed

lemma shard_full:
  assumes "on_disk d (A @ [(s, rs)] @ B) []" "B \<noteq> []"
  shows "rs \<noteq> []" "last_of rs = log_end d A + dp_eventsPerFile d - 1"
proof -
  have len: "int (length rs) = dp_eventsPerFile d" "0 < dp_eventsPerFile d"
    using shard_middle(3) [OF assms] assms(1) by (auto simp: on_disk_def)
  then show "rs \<noteq> []" by auto
  then show "last_of rs = log_end d A + dp_eventsPerFile d - 1"
    using last_of_middle [OF assms(1)] len(1) by (simp add: log_end_def)
qed

lemma cursor_file:
  assumes "on_disk d (A @ [(s, rs)] @ B) []" "B \<noteq> []" "\<forall>x\<in>set B. since \<le> fst x"
  shows "since \<le> log_end d A + dp_eventsPerFile d"
  using assms chain_middle [of "dp_eventsPerFile d" "dp_initialSeq d" A s rs B]
  by (cases B) (auto simp: on_disk_def log_end_def)

lemma emits_seq:
  assumes "list_all (logged mar uids) rs" "cbor_ok mar unm" "\<forall>r\<in>set rs. P (r_seq r)"
  shows "\<forall>e\<in>set (emits unm rs). P (x_seq e)"
  using logged_emits [OF assms(1,2)] assms(3) by auto

text \<open>C16: a playback from a cursor past the first log file emits exactly the events after the cursor, when the
  cursor is neither the first nor the last sequence number of a log file.\<close>

theorem playback_from_cursor:
  assumes "reachable dsys_init (dstep mar uids) s" "dp_failed (ds_d s) = None" "cbor_ok mar unm"
    and "d = ds_d s" "1 < dp_eventsPerFile d" "dp_initialSeq d + dp_eventsPerFile d < since"
    and "(since - dp_initialSeq d) mod dp_eventsPerFile d \<notin> {0, dp_eventsPerFile d - 1}"
  shows "\<exists>es. dp_Playback unm (\<lambda>_. True) 0 d = Inr es \<and>
     dp_Playback unm (\<lambda>_. True) since d = Inr (filter (\<lambda>e. since < x_seq e) es)"
proof -
  obtain sh where sh: "on_disk d sh []" "readable unm (\<lambda>_. True) (shard_recs sh)" "list_all (logged mar uids) (shard_recs sh)"
    using reachable_shards [OF assms(1-3)] unfolding assms(4) by metis
  have pos: "0 < since" using sh(1) assms(5,6) by (simp add: on_disk_def)
  obtain A st rs B where S: "sh = A @ [(st, rs)] @ B" "st < since" "\<forall>x\<in>set B. since \<le> fst x"
    by (rule split_at_cursor [OF sh(1) pos])
  note od = sh(1) [unfolded S(1)]
  have mid: "A \<noteq> [] \<and> since < last_of rs" if "B \<noteq> []"
  proof -
    note f = cursor_file [OF od that S(3)] shard_full [OF od that]
    have A: "A \<noteq> []" using assms(6) f(1) by (auto simp: log_end_def)
    note st = shards_before [OF od A] shard_middle(1) [OF od A]
    have "(st - dp_initialSeq d) mod dp_eventsPerFile d = 0" by (simp add: st(1))
    then have m: "(since - st) mod dp_eventsPerFile d \<notin> {0, dp_eventsPerFile d - 1}"
      using assms(7) st(1) by (metis add_diff_cancel_left' diff_add_eq_diff_diff_swap mod_mult_self4 diff_diff_add mod_diff_right_eq minus_mult_right diff_0_right)
    have "(dp_eventsPerFile d - 1) mod dp_eventsPerFile d = dp_eventsPerFile d - 1"
      using assms(5) by (intro mod_pos_pos_trivial) auto
    then have "since - st \<noteq> dp_eventsPerFile d - 1" using m by (metis insertCI)
    moreover have "since - st \<noteq> dp_eventsPerFile d" using m by auto
    ultimately show ?thesis using A f st(2) by simp
  qed
  have "dp_Playback unm (\<lambda>_. True) since d = Inr (emits unm (after since (shard_recs sh)))"
    using cursor_complete [OF od pos S(2,3) _ assms(5), of unm "\<lambda>_. True"] mid sh(2) S(1) by blast
  then show ?thesis
    using playback_whole_log [OF sh(1,2)] emits_after [OF sh(3) assms(3)] by simp
qed

theorem playback_from_cursor_witness:
  "\<exists>es. dp_Playback sample_unm (\<lambda>_. True) 0 (ds_d (sample_log 7)) = Inr es \<and>
     dp_Playback sample_unm (\<lambda>_. True) 5 (ds_d (sample_log 7)) = Inr (filter (\<lambda>e. 5 < x_seq e) es)"
  using playback_from_cursor [OF _ _ sample_cbor refl, of sample_uids "sample_log 7" 5] sample_log_reachable [of 7] by simp

text \<open>C35: a cursor on the last sequence number of a full log file, or on the first one of the next file, gets
  nothing, although the log goes on after it.\<close>

theorem playback_boundary_empty:
  assumes "reachable dsys_init (dstep mar uids) s" "dp_failed (ds_d s) = None" "cbor_ok mar unm"
    and "d = ds_d s" "1 < dp_eventsPerFile d" "dp_initialSeq d + dp_eventsPerFile d \<le> since + 1"
    and "since + 1 < dp_curSeq d"
    and "(since - dp_initialSeq d) mod dp_eventsPerFile d \<in> {0, dp_eventsPerFile d - 1}"
  shows "dp_Playback unm (\<lambda>_. True) since d = Inr []"
proof -
  obtain sh where sh: "on_disk d sh []" "readable unm (\<lambda>_. True) (shard_recs sh)" "dp_curSeq d = log_end d sh"
    using reachable_shards [OF assms(1-3)] unfolding assms(4) by metis
  have pos: "0 < since" using sh(1) assms(5,6) by (simp add: on_disk_def)
  obtain A st rs B where S: "sh = A @ [(st, rs)] @ B" "st < since" "\<forall>x\<in>set B. since \<le> fst x"
    by (rule split_at_cursor [OF sh(1) pos])
  note od = sh(1) [unfolded S(1)]
  let ?epf = "dp_eventsPerFile d"
  have st: "(since - log_end d A) mod ?epf \<in> {0, ?epf - 1} \<and> log_end d A < since" if "A \<noteq> []"
  proof -
    have "since - dp_initialSeq d = (since - st) + ?epf * int (length A)"
      using shards_before [OF od that] by simp
    then have "(since - dp_initialSeq d) mod ?epf = (since - st) mod ?epf" by (metis mod_mult_self2)
    then show ?thesis using assms(8) shard_middle(1) [OF od that] S(2) by simp
  qed
  have small: "x mod ?epf = x" if "0 < x" "x < ?epf" for x using that by (intro mod_pos_pos_trivial) auto
  have B: "B \<noteq> []"
  proof
    assume "B = []"
    then have e: "since + 1 < log_end d A + int (length rs)" "int (length rs) \<le> ?epf"
      using assms(7) sh(3) S(1) on_disk_snocD(9) [of d A st rs "[]"] od by (auto simp: log_end_def)
    then have "A \<noteq> []" using assms(6) by (auto simp: log_end_def)
    note s = st [OF this]
    have "(since - log_end d A) mod ?epf = since - log_end d A" using conjunct2 [OF s] e by (intro small) auto
    with s e show False by simp auto
  qed
  note f = cursor_file [OF od B S(3)] shard_full [OF od B]
  have "last_of rs \<le> since"
  proof (rule ccontr)
    assume "\<not> last_of rs \<le> since"
    then have "A \<noteq> []" "since - log_end d A < ?epf - 1" using assms(6) f(3) by (auto simp: log_end_def)
    note s = st [OF this(1)] this(2)
    have "(since - log_end d A) mod ?epf = since - log_end d A" using conjunct2 [OF s(1)] s(2) by (intro small) auto
    with s show False by simp auto
  qed
  then have "after since rs = []"
    using shard_seq_range [OF od] f(3) shard_middle(3) [OF od B] by (intro after_none) fastforce
  then show ?thesis
    using cursor_round [OF od pos S(2,3) _ assms(5), of unm "\<lambda>_. True"] by (simp add: readable_def)
qed

theorem playback_boundary_empty_witness:
  "dp_Playback sample_unm (\<lambda>_. True) 3 (ds_d (sample_log 7)) = Inr []"
  using playback_boundary_empty [OF _ _ sample_cbor refl, of sample_uids "sample_log 7" 3] sample_log_reachable [of 7] by simp

text \<open>C36: a playback from a cursor in the first log file, once the log has been rotated, stops at the end of that
  file: the events of all later files are missing.\<close>

theorem playback_stops_in_first_file:
  assumes "reachable dsys_init (dstep mar uids) s" "dp_failed (ds_d s) = None" "cbor_ok mar unm"
    and "d = ds_d s" "1 < dp_eventsPerFile d" "0 < since" "since < dp_initialSeq d + dp_eventsPerFile d - 1"
    and "dp_initialSeq d + dp_eventsPerFile d < dp_curSeq d"
  shows "\<exists>es. dp_Playback unm (\<lambda>_. True) 0 d = Inr es \<and> dp_Playback unm (\<lambda>_. True) since d =
     Inr (filter (\<lambda>e. since < x_seq e \<and> x_seq e < dp_initialSeq d + dp_eventsPerFile d) es)"
proof -
  obtain sh where sh: "on_disk d sh []" "readable unm (\<lambda>_. True) (shard_recs sh)" "dp_curSeq d = log_end d sh"
    "list_all (logged mar uids) (shard_recs sh)"
    using reachable_shards [OF assms(1-3)] unfolding assms(4) by metis
  obtain A st rs B where S: "sh = A @ [(st, rs)] @ B" "st < since" "\<forall>x\<in>set B. since \<le> fst x"
    by (rule split_at_cursor [OF sh(1) assms(6)])
  note od = sh(1) [unfolded S(1)]
  have "A = []"
  proof (rule ccontr)
    assume A: "A \<noteq> []"
    then have "dp_eventsPerFile d \<le> dp_eventsPerFile d * int (length A)" using assms(5) by (cases A) auto
    then show False using shards_before [OF od A] S(2) assms(7) by simp
  qed
  moreover from this have B: "B \<noteq> []"
    using assms(8) sh(3) on_disk_snocD(9) [of d A st rs "[]"] od S(1) by (auto simp: log_end_def)
  ultimately have st: "st = 0" and A: "A = []" using shard_middle(2) [OF od] by auto
  note f = shard_full [OF od B]
  have last: "last_of rs - st \<noteq> dp_eventsPerFile d - 1" using f(2) st A od by (simp add: log_end_def on_disk_def)
  have rd: "readable unm (\<lambda>_. True) (after since rs)"
    using readable_after [of unm "\<lambda>_. True" rs since] sh(2) S(1) by (simp add: readable_append)
  have lg: "list_all (logged mar uids) rs" "list_all (logged mar uids) (shard_recs B)" using sh(4) S(1) by auto
  let ?N = "dp_initialSeq d + dp_eventsPerFile d"
  have "\<forall>r\<in>set rs. r_seq r < ?N"
    using shard_seq_range [OF od] shard_middle(3) [OF od B] A by (fastforce simp: log_end_def)
  then have e1: "\<forall>e\<in>set (emits unm rs). x_seq e < ?N" by (rule emits_seq [OF lg(1) assms(3)])
  have "\<forall>r\<in>set (shard_recs B). \<not> r_seq r < ?N"
    using later_seqs(1) [OF od] shard_middle(3) [OF od B] A by (fastforce simp: log_end_def)
  then have e2: "\<forall>e\<in>set (emits unm (shard_recs B)). \<not> x_seq e < ?N" by (rule emits_seq [OF lg(2) assms(3)])
  have "filter (\<lambda>e. since < x_seq e \<and> x_seq e < ?N) (emits unm rs) = filter (\<lambda>e. since < x_seq e) (emits unm rs)"
    using e1 by (intro filter_cong) auto
  moreover have "filter (\<lambda>e. since < x_seq e \<and> x_seq e < ?N) (emits unm (shard_recs B)) = []"
    using e2 by (auto simp: filter_empty_conv)
  ultimately have "filter (\<lambda>e. since < x_seq e \<and> x_seq e < ?N) (emits unm (shard_recs sh)) =
      filter (\<lambda>e. since < x_seq e) (emits unm rs)" by (simp add: S(1) A)
  then show ?thesis
    using cursor_round [OF od assms(6) S(2,3) rd assms(5)] last playback_whole_log [OF sh(1,2)]
      emits_after [OF lg(1) assms(3)] by simp
qed

theorem playback_stops_in_first_file_witness:
  "\<exists>es. dp_Playback sample_unm (\<lambda>_. True) 0 (ds_d (sample_log 7)) = Inr es \<and>
     dp_Playback sample_unm (\<lambda>_. True) 1 (ds_d (sample_log 7)) = Inr (filter (\<lambda>e. 1 < x_seq e \<and> x_seq e < 4) es)"
  using playback_stops_in_first_file [OF _ _ sample_cbor refl, of sample_uids "sample_log 7" 1]
    sample_log_reachable [of 7] by simp

subsection \<open>Takedown\<close>

text \<open>What a takedown does to one record.\<close>

definition taken :: "u64 \<Rightarrow> lrec \<Rightarrow> lrec" where
  "taken uid r = (if r_uid r = uid \<and> r_flags r AND EvtFlagTakedown = 0
     then r\<lparr> r_flags := r_flags r OR EvtFlagTakedown, r_body := replicate (length (r_body r)) 0 \<rparr> else r)"

lemma taken_simps [simp]:
  "r_seq (taken uid r) = r_seq r" "r_uid (taken uid r) = r_uid r" "length (r_body (taken uid r)) = length (r_body r)"
  "rec_ok (taken uid r) = rec_ok r" "length (enc (taken uid r)) = length (enc r)"
  by (simp_all add: taken_def rec_ok_def length_enc)

lemma mutate_rec:
  assumes "rec_ok r"
  shows "mutate_loop uid EvtFlagTakedown True (pre @ enc r @ post) (length pre) =
     mutate_loop uid EvtFlagTakedown True (pre @ enc (taken uid r) @ post) (length (pre @ enc (taken uid r)))"
proof -
  let ?mid = "le_put 4 (r_kind r) @ le_put 4 (of_nat (length (r_body r)) :: u32) @ le_put 8 (r_uid r) @ le_put 8 (of_int (r_seq r) :: u64)"
  have w1: "WriteAt (le_put 4 (f :: u32)) (length pre) (pre @ enc r @ post) = pre @ le_put 4 f @ ?mid @ r_body r @ post" for f
    using WriteAt_middle [of "le_put 4 (r_flags r)" "le_put 4 f" pre "?mid @ r_body r @ post"]
    by (simp add: enc_def length_le_put)
  have w2: "WriteAt (replicate (length (r_body r)) 0) (length pre + headerSize) (pre @ le_put 4 (f :: u32) @ ?mid @ r_body r @ post) =
      pre @ le_put 4 f @ ?mid @ replicate (length (r_body r)) 0 @ post" for f
    using WriteAt_middle [of "r_body r" "replicate (length (r_body r)) 0" "pre @ le_put 4 f @ ?mid" post]
    by (simp add: length_le_put headerSize_def add.assoc)
  show ?thesis
  proof (cases "r_uid r = uid \<and> r_flags r AND EvtFlagTakedown = 0")
    case True
    then have "enc (taken uid r) = le_put 4 (r_flags r OR EvtFlagTakedown) @ ?mid @ replicate (length (r_body r)) 0"
      by (simp add: taken_def enc_def)
    with True w1 [of "r_flags r OR EvtFlagTakedown"] w2 [of "r_flags r OR EvtFlagTakedown"] show ?thesis
      by (subst mutate_loop.simps)
        (simp add: readHeader_enc [OF assms] rec_ok_len [OF assms] length_le_put headerSize_def add.assoc Let_def)
  next
    case False
    then show ?thesis
      by (subst mutate_loop.simps)
        (auto simp: readHeader_enc [OF assms] rec_ok_len [OF assms] length_enc add.assoc taken_def)
  qed
qed

lemma mutate_records:
  "list_all rec_ok rs \<Longrightarrow> mutate_loop uid EvtFlagTakedown True (pre @ enc_all rs) (length pre) =
     (Inr (), pre @ enc_all (map (taken uid) rs))"
proof (induction rs arbitrary: pre)
  case Nil
  then show ?case by (subst mutate_loop.simps) simp
next
  case (Cons r rs)
  then show ?case
    using mutate_rec [of r uid pre "enc_all rs"] Cons.IH [of "pre @ enc (taken uid r)"] by simp
qed

lemma forEachShard_taken:
  assumes "\<forall>r\<in>set refs. \<not> Archived r \<and> dp_fs d (False, Path r) = Some (enc_all (f (Path r))) \<and> list_all rec_ok (f (Path r))"
    and "distinct (map Path refs)"
  shows "\<exists>fs. forEachShard uid refs d = (Inr (), d\<lparr>dp_fs := fs\<rparr>) \<and>
     (\<forall>r\<in>set refs. fs (False, Path r) = Some (enc_all (map (taken uid) (f (Path r))))) \<and>
     (\<forall>p. p \<notin> Path ` set refs \<longrightarrow> fs (False, p) = dp_fs d (False, p))"
  using assms
proof (induction refs arbitrary: d)
  case Nil
  show ?case by (intro exI [of _ "dp_fs d"]) simp
next
  case (Cons r refs)
  let ?d = "d\<lparr>dp_fs := (dp_fs d)((False, Path r) := Some (enc_all (map (taken uid) (f (Path r)))))\<rparr>"
  have "deleteEventsForUser uid (Archived r, Path r) d = (Inr (), ?d)"
    using Cons.prems(1) mutate_records [of "f (Path r)" uid "[]"]
    by (simp add: deleteEventsForUser_def mutateUserEventsInLog_def)
  moreover have "\<forall>q\<in>set refs. Path q \<noteq> Path r" using Cons.prems(2) by (auto simp: image_iff)
  moreover from this Cons.IH [of ?d] Cons.prems obtain fs where
    "forEachShard uid refs ?d = (Inr (), ?d\<lparr>dp_fs := fs\<rparr>)"
    "\<forall>q\<in>set refs. fs (False, Path q) = Some (enc_all (map (taken uid) (f (Path q))))"
    "\<forall>p. p \<notin> Path ` set refs \<longrightarrow> fs (False, p) = dp_fs ?d (False, p)" by auto
  moreover have "Path r \<notin> Path ` set refs" using Cons.prems(2) by simp
  ultimately show ?case by (intro exI [of _ fs]) auto
qed

definition taken_sh :: "u64 \<Rightarrow> (int \<times> lrec list) list \<Rightarrow> (int \<times> lrec list) list" where
  "taken_sh uid sh = map (\<lambda>x. (fst x, map (taken uid) (snd x))) sh"

lemma taken_sh_simps [simp]:
  "taken_sh uid [] = []" "taken_sh uid (x # sh) = (fst x, map (taken uid) (snd x)) # taken_sh uid sh"
  "taken_sh uid sh = [] \<longleftrightarrow> sh = []" "map fst (taken_sh uid sh) = map fst sh"
  "shard_recs (taken_sh uid sh) = map (taken uid) (shard_recs sh)"
  by (simp_all add: taken_sh_def shard_recs_def map_concat comp_def)

lemma chain_taken: "chain epf next (taken_sh uid sh) = chain epf next sh"
proof (induction epf "next" sh rule: chain.induct)
  case (2 epf "next" s rs sh)
  have "fst (hd (taken_sh uid sh)) = fst (hd sh)" if "sh \<noteq> []" using that by (cases sh) auto
  then show ?case using 2 by (simp add: comp_def)
qed simp

lemma on_disk_taken:
  assumes "on_disk d sh []" "\<forall>x\<in>set sh. fs (False, fst x) = Some (enc_all (map (taken uid) (snd x)))"
  shows "on_disk (d\<lparr>dp_fs := fs\<rparr>) (taken_sh uid sh) []"
proof -
  have ne: "sh \<noteq> []" using assms(1) by (simp add: on_disk_def)
  have "fst (hd (taken_sh uid sh)) = 0" using assms(1) ne by (cases sh) (auto simp: on_disk_def)
  moreover have "fs (False, fst x) = Some (enc_all (snd x))" if "x \<in> set (taken_sh uid sh)" for x
    using that assms(2) by (auto simp: taken_sh_def)
  moreover have "list_all rec_ok (shard_recs (taken_sh uid sh))" using assms(1) by (simp add: on_disk_def list_all_iff)
  ultimately show ?thesis
    using assms(1) ne last_in_set [of "taken_sh uid sh"] by (simp add: on_disk_def chain_taken) (metis in_set_butlastD)
qed

lemma taken_shards:
  assumes "on_disk d sh []"
  shows "\<exists>d'. TakeDownRepo uid d = (Inr (), d') \<and> on_disk d' (taken_sh uid sh) []"
proof -
  let ?f = "\<lambda>p. case map_of sh p of None \<Rightarrow> [] | Some rs \<Rightarrow> rs"
  let ?refs = "rev (sort_key CreatedAt (dp_meta d))"
  have dist: "distinct (map fst sh)" using on_disk_sorted [OF assms] by (rule sorted_distinct)
  then have f: "x \<in> set sh \<Longrightarrow> ?f (fst x) = snd x" for x by (cases x) simp
  have h: "list_all2 (holds d) (dp_meta d) sh" by (rule on_disk_holds [OF assms])
  have paths: "map Path (dp_meta d) = map fst sh" using assms by (simp add: on_disk_def)
  have ref: "\<exists>x\<in>set sh. holds d r x" if "r \<in> set (dp_meta d)" for r
    using h that unfolding list_all2_conv_all_nth by (metis in_set_conv_nth)
  have "\<forall>r\<in>set ?refs. \<not> Archived r \<and> dp_fs d (False, Path r) = Some (enc_all (?f (Path r))) \<and> list_all rec_ok (?f (Path r))"
  proof
    fix r assume "r \<in> set ?refs"
    then have r: "r \<in> set (dp_meta d)" by simp
    from ref [OF r] obtain x where x: "x \<in> set sh" "holds d r x" by blast
    have "\<not> Archived r" using assms r by (auto simp: on_disk_def list_all_iff)
    then show "\<not> Archived r \<and> dp_fs d (False, Path r) = Some (enc_all (?f (Path r))) \<and> list_all rec_ok (?f (Path r))"
      using x f [OF x(1)] by (simp add: holds_def)
  qed
  moreover have "distinct (map Path ?refs)"
  proof -
    have "distinct (map Path (dp_meta d))" using dist by (simp only: paths)
    then show ?thesis by (simp add: distinct_map rev_map [symmetric])
  qed
  ultimately obtain fs where fs: "TakeDownRepo uid d = (Inr (), d\<lparr>dp_fs := fs\<rparr>)"
    "\<forall>r\<in>set (dp_meta d). fs (False, Path r) = Some (enc_all (map (taken uid) (?f (Path r))))"
    using forEachShard_taken [of ?refs d ?f uid] unfolding TakeDownRepo_def by auto
  have files: "fs (False, fst x) = Some (enc_all (map (taken uid) (snd x)))" if "x \<in> set sh" for x
  proof -
    have "fst x \<in> Path ` set (dp_meta d)" using paths that by (metis image_eqI list.set_map)
    then show ?thesis using fs(2) f [OF that] by auto
  qed
  from on_disk_taken [OF assms, of fs uid] files fs(1) show ?thesis by blast
qed

lemma taken_played:
  assumes "logged mar uids r" "cbor_ok mar unm"
  shows "played unm (taken uid r) = (if uids (x_did (event_of unm r)) = Some uid then [] else [event_of unm r])"
    "playable unm (taken uid r)"
proof -
  note e = logged_event [OF assms]
  have f: "r_flags r = 0" using assms(1) by (auto simp: logged_def mk_rec_def)
  show "played unm (taken uid r) = (if uids (x_did (event_of unm r)) = Some uid then [] else [event_of unm r])"
    using e f by (auto simp: taken_def) (simp add: played_def postDoNotEmit_def EvtFlagTakedown_def EvtFlagRebased_def)
  show "playable unm (taken uid r)"
    using logged_playable [OF assms] f
    by (cases "r_uid r = uid") (auto simp: taken_def playable_def postDoNotEmit_def EvtFlagTakedown_def EvtFlagRebased_def)
qed

lemma taken_emits:
  assumes "list_all (logged mar uids) rs" "cbor_ok mar unm"
  shows "emits unm (map (taken uid) rs) = filter (\<lambda>e. uids (x_did e) \<noteq> Some uid) (emits unm rs)"
  using assms(1) logged_event(1) [where uids = uids, OF _ assms(2)] taken_played(1) [where uids = uids, OF _ assms(2)]
  by (induction rs) (simp_all add: emits_def)

text \<open>C17: taking an account down succeeds on every log that has not failed, and afterwards playback emits the same
  events as before except those of that account.\<close>

theorem takedown_hides_account:
  assumes "reachable dsys_init (dstep mar uids) s" "dp_failed (ds_d s) = None" "cbor_ok mar unm"
  shows "\<exists>d' es. TakeDownRepo uid (ds_d s) = (Inr (), d') \<and> dp_Playback unm (\<lambda>_. True) 0 (ds_d s) = Inr es \<and>
     dp_Playback unm (\<lambda>_. True) 0 d' = Inr (filter (\<lambda>e. uids (x_did e) \<noteq> Some uid) es)"
proof -
  obtain sh where sh: "on_disk (ds_d s) sh []" "readable unm (\<lambda>_. True) (shard_recs sh)"
    "list_all (logged mar uids) (shard_recs sh)" by (rule reachable_shards [OF assms])
  obtain d' where d': "TakeDownRepo uid (ds_d s) = (Inr (), d')" "on_disk d' (taken_sh uid sh) []"
    using taken_shards [OF sh(1)] by blast
  have "readable unm (\<lambda>_. True) (shard_recs (taken_sh uid sh))"
    using sh(3) taken_played(2) [where uids = uids, OF _ assms(3)] by (auto simp: readable_def list_all_iff)
  from playback_whole_log [OF d'(2) this] playback_whole_log [OF sh(1,2)] d'(1) taken_emits [OF sh(3) assms(3)]
  show ?thesis by simp
qed

theorem takedown_hides_account_witness:
  "\<exists>d' es. TakeDownRepo 3 (ds_d (sample_log 4)) = (Inr (), d') \<and>
     dp_Playback sample_unm (\<lambda>_. True) 0 (ds_d (sample_log 4)) = Inr es \<and>
     dp_Playback sample_unm (\<lambda>_. True) 0 d' = Inr (filter (\<lambda>e. sample_uids (x_did e) \<noteq> Some 3) es)"
  using takedown_hides_account [OF _ _ sample_cbor, of sample_uids "sample_log 4" 3] sample_log_reachable [of 4] by simp

subsection \<open>Garbage collection\<close>

definition gc_keep :: "int \<Rightarrow> dpstate \<Rightarrow> LogFileRef \<Rightarrow> bool" where
  "gc_keep cutoff d r \<longleftrightarrow> Path r = dp_logfi d \<or> cutoff \<le> CreatedAt r"

lemma gc_refs_keeps:
  assumes "\<forall>r\<in>set refs. CreatedAt r < cutoff"
  shows "filter (gc_keep cutoff d) (dp_meta (gc_refs ok refs d)) = filter (gc_keep cutoff d) (dp_meta d) \<and>
     set (dp_meta (gc_refs ok refs d)) \<subseteq> set (dp_meta d) \<and>
     dp_fs (gc_refs ok refs d) (False, dp_logfi d) = dp_fs d (False, dp_logfi d) \<and>
     (\<exists>refs' fs. gc_refs ok refs d = d\<lparr>dp_meta := refs', dp_fs := fs\<rparr>)"
  using assms
proof (induction refs arbitrary: d)
  case (Cons r refs)
  let ?d = "d\<lparr>dp_meta := filter (\<lambda>q. q \<noteq> r) (dp_meta d)\<rparr>"
  let ?d' = "if snd (ok r) then ?d\<lparr>dp_fs := (dp_fs ?d)((False, Path r) := None)\<rparr> else ?d"
  show ?case
  proof (cases "Path r = dp_logfi d \<or> \<not> fst (ok r)")
    case True
    then have "gc_refs ok (r # refs) d = gc_refs ok refs d" by auto
    then show ?thesis using Cons by simp
  next
    case False
    then have g: "gc_refs ok (r # refs) d = gc_refs ok refs ?d'" by (simp add: Let_def)
    have same: "gc_keep cutoff ?d' = gc_keep cutoff d" "dp_logfi ?d' = dp_logfi d" "dp_meta ?d' = dp_meta ?d"
      by (auto simp: gc_keep_def)
    have "\<not> gc_keep cutoff d r" using False Cons.prems by (simp add: gc_keep_def)
    then have m: "filter (gc_keep cutoff d) (dp_meta ?d) = filter (gc_keep cutoff d) (dp_meta d)"
      by (auto intro: filter_cong)
    have f: "dp_fs ?d' (False, dp_logfi d) = dp_fs d (False, dp_logfi d)" using False by simp
    have "\<forall>q\<in>set refs. CreatedAt q < cutoff" using Cons.prems by simp
    note IH = Cons.IH [OF this, of ?d', unfolded same f m]
    have "\<exists>refs' fs. ?d'\<lparr>dp_meta := m', dp_fs := f'\<rparr> = d\<lparr>dp_meta := refs', dp_fs := fs\<rparr>" for m' f'
      by (intro exI [of _ m'] exI [of _ f']) simp
    with IH have "\<exists>refs' fs. gc_refs ok refs ?d' = d\<lparr>dp_meta := refs', dp_fs := fs\<rparr>" by metis
    then show ?thesis unfolding g using IH by auto
  qed
next
  case Nil
  have "d = d\<lparr>dp_meta := dp_meta d, dp_fs := dp_fs d\<rparr>" by simp
  then have "\<exists>refs' fs. d = d\<lparr>dp_meta := refs', dp_fs := fs\<rparr>" by blast
  then show ?case by simp
qed

lemma gc_refs_all:
  "dp_meta (gc_refs (\<lambda>_. (True, True)) refs d) = filter (\<lambda>q. q \<in> set refs \<longrightarrow> Path q = dp_logfi d) (dp_meta d)"
  by (induction refs arbitrary: d) (auto simp: Let_def intro!: filter_cong)

text \<open>C24: garbage collection, whichever deletions fail, keeps the file being written, its reference and every
  reference younger than the cutoff, adds no reference, and changes nothing but references and files; when no deletion
  fails, exactly those references are left.\<close>

theorem gc_safe:
  "set (dp_meta (garbageCollect ok cutoff d)) \<subseteq> set (dp_meta d) \<and>
     filter (gc_keep cutoff d) (dp_meta (garbageCollect ok cutoff d)) = filter (gc_keep cutoff d) (dp_meta d) \<and>
     dp_fs (garbageCollect ok cutoff d) (False, dp_logfi d) = dp_fs d (False, dp_logfi d) \<and>
     (\<exists>refs fs. garbageCollect ok cutoff d = d\<lparr>dp_meta := refs, dp_fs := fs\<rparr>) \<and>
     dp_meta (garbageCollect (\<lambda>_. (True, True)) cutoff d) = filter (gc_keep cutoff d) (dp_meta d)"
proof -
  have "dp_meta (garbageCollect (\<lambda>_. (True, True)) cutoff d) = filter (gc_keep cutoff d) (dp_meta d)"
    unfolding garbageCollect_def gc_refs_all by (intro filter_cong) (auto simp: gc_keep_def)
  then show ?thesis
    using gc_refs_keeps [of "filter (\<lambda>r. CreatedAt r < cutoff) (dp_meta d)" cutoff d ok]
    by (simp add: garbageCollect_def)
qed

end
