(* ===== verification/MstKey.thy ===== *)
theory MstKey
  imports Prelude "HOL-Library.List_Lexorder"
begin

text \<open>
  Keys of the Merkle search tree (\<^verbatim>\<open>atproto/repo/mst/util.go\<close>): the SHA-256 function that \<^verbatim>\<open>HeightForKey\<close> takes from
  the standard library, the height of a key, common prefixes and the check of a key. SHA-256 follows FIPS 180-4, on
  integers with the 32-bit wrap-around written out. Keys are ordered as \<^verbatim>\<open>bytes.Compare\<close> orders them: byte by byte, a
  proper prefix first.
\<close>

subsection \<open>SHA-256\<close>

text \<open>The constants are the first 32 bits of the fractional parts of the cube roots of the first 64 primes, and of the
  square roots of the first 8. The integer roots are computed bit by bit, from bit 36 down.\<close>

definition sha_primes :: "int list" where
  "sha_primes = [
     2, 3, 5, 7, 11, 13, 17, 19, 23, 29, 31, 37, 41, 43, 47, 53,
     59, 61, 67, 71, 73, 79, 83, 89, 97, 101, 103, 107, 109, 113, 127, 131,
     137, 139, 149, 151, 157, 163, 167, 173, 179, 181, 191, 193, 197, 199, 211, 223,
     227, 229, 233, 239, 241, 251, 257, 263, 269, 271, 277, 281, 283, 293, 307, 311]"

fun cube_root :: "nat \<Rightarrow> int \<Rightarrow> int \<Rightarrow> int \<Rightarrow> int" where
  "cube_root 0 b n r = r"
| "cube_root (Suc k) b n r =
     (if (r + b) * (r + b) * (r + b) \<le> n then cube_root k (b div 2) n (r + b) else cube_root k (b div 2) n r)"

fun square_root :: "nat \<Rightarrow> int \<Rightarrow> int \<Rightarrow> int \<Rightarrow> int" where
  "square_root 0 b n r = r"
| "square_root (Suc k) b n r =
     (if (r + b) * (r + b) \<le> n then square_root k (b div 2) n (r + b) else square_root k (b div 2) n r)"

definition sha_K :: "int list" where
  "sha_K = map (\<lambda>p. cube_root 37 (2 ^ 36) (p * 2 ^ 96) 0 mod 2 ^ 32) sha_primes"

definition sha_init :: "int list" where
  "sha_init = map (\<lambda>p. square_root 37 (2 ^ 36) (p * 2 ^ 64) 0 mod 2 ^ 32) (take 8 sha_primes)"

definition rotr :: "nat \<Rightarrow> int \<Rightarrow> int" where
  "rotr n w = w div 2 ^ n + (w mod 2 ^ n) * 2 ^ (32 - n)"

definition small_sigma0 :: "int \<Rightarrow> int" where "small_sigma0 w = rotr 7 w XOR rotr 18 w XOR w div 2 ^ 3"
definition small_sigma1 :: "int \<Rightarrow> int" where "small_sigma1 w = rotr 17 w XOR rotr 19 w XOR w div 2 ^ 10"
definition big_sigma0 :: "int \<Rightarrow> int" where "big_sigma0 w = rotr 2 w XOR rotr 13 w XOR rotr 22 w"
definition big_sigma1 :: "int \<Rightarrow> int" where "big_sigma1 w = rotr 6 w XOR rotr 11 w XOR rotr 25 w"

definition sha_ch :: "int \<Rightarrow> int \<Rightarrow> int \<Rightarrow> int" where
  "sha_ch e f g = (e AND f) XOR ((4294967295 - e) AND g)"

definition sha_maj :: "int \<Rightarrow> int \<Rightarrow> int \<Rightarrow> int" where
  "sha_maj a b c = (a AND b) XOR (a AND c) XOR (b AND c)"

text \<open>Padding: a one bit, zeros, and the length in bits as 64 bits, to a multiple of 64 bytes.\<close>

definition sha_pad :: "int list \<Rightarrow> int list" where
  "sha_pad m = m @ [0x80] @ replicate ((119 - length m mod 64) mod 64) 0 @
     map (\<lambda>i. int (length m * 8) div 256 ^ i mod 256) [7, 6, 5, 4, 3, 2, 1, 0]"

fun sha_words :: "int list \<Rightarrow> int list" where
  "sha_words (a # b # c # d # r) = (a * 2 ^ 24 + b * 2 ^ 16 + c * 2 ^ 8 + d) # sha_words r"
| "sha_words _ = []"

text \<open>The message schedule, latest word first.\<close>

definition sha_extend :: "int list \<Rightarrow> int list" where
  "sha_extend ws = ((small_sigma1 (ws ! 1) + ws ! 6 + small_sigma0 (ws ! 14) + ws ! 15) mod 2 ^ 32) # ws"

fun sha_schedule :: "nat \<Rightarrow> int list \<Rightarrow> int list" where
  "sha_schedule 0 ws = ws"
| "sha_schedule (Suc n) ws = sha_schedule n (sha_extend ws)"

definition sha_mix :: "int \<Rightarrow> int \<Rightarrow> int list \<Rightarrow> int list" where
  "sha_mix t1 t2 s =
     (case s of [a, b, c, d, e, f, g, h] \<Rightarrow> [(t1 + t2) mod 2 ^ 32, a, b, c, (d + t1) mod 2 ^ 32, e, f, g] | _ \<Rightarrow> s)"

fun sha_round :: "int \<times> int \<Rightarrow> int list \<Rightarrow> int list" where
  "sha_round (k, w) [a, b, c, d, e, f, g, h] =
     sha_mix (h + big_sigma1 e + sha_ch e f g + k + w) (big_sigma0 a + sha_maj a b c) [a, b, c, d, e, f, g, h]"
| "sha_round _ s = s"

definition sha_compress :: "int list \<Rightarrow> int list \<Rightarrow> int list" where
  "sha_compress blk hs =
     map2 (\<lambda>x y. (x + y) mod 2 ^ 32) hs (fold sha_round (zip sha_K (rev (sha_schedule 48 (rev blk)))) hs)"

function sha_blocks :: "int list \<Rightarrow> int list list" where
  "sha_blocks ws = (if ws = [] then [] else take 16 ws # sha_blocks (drop 16 ws))"
  by pat_completeness auto
termination
  by (relation "measure length") auto

definition sha_int :: "int list \<Rightarrow> int list" where
  "sha_int m =
     concat (map (\<lambda>w. [w div 2 ^ 24, w div 2 ^ 16 mod 2 ^ 8, w div 2 ^ 8 mod 2 ^ 8, w mod 2 ^ 8])
       (fold sha_compress (sha_blocks (sha_words (sha_pad m))) sha_init))"

definition Sum256 :: "bytes \<Rightarrow> bytes" where
  "Sum256 m = map word_of_int (sha_int (map uint m))"

subsection \<open>Heights and prefixes\<close>

fun height_loop :: "bytes \<Rightarrow> int \<Rightarrow> int" where
  "height_loop [] height = height"
| "height_loop (b # bs) height =
     (if b AND 0xC0 \<noteq> 0 then height
      else if b = 0 then height_loop bs (height + 4)
      else if b AND 0xFC = 0 then height + 3
      else if b AND 0xF0 = 0 then height + 2
      else height + 1)"

definition HeightForKey :: "bytes \<Rightarrow> int" where
  "HeightForKey key = height_loop (Sum256 key) 0"

fun CountPrefixLen :: "bytes \<Rightarrow> bytes \<Rightarrow> nat" where
  "CountPrefixLen (a # as) (b # bs) = (if a \<noteq> b then 0 else Suc (CountPrefixLen as bs))"
| "CountPrefixLen _ _ = 0"

definition MAX_KEY_BYTES :: nat where "MAX_KEY_BYTES = 1024"

definition IsValidKey :: "bytes \<Rightarrow> bool" where
  "IsValidKey key \<longleftrightarrow> \<not> (length key = 0 \<or> length key > MAX_KEY_BYTES)"

end
