(* ===== verification/Mst.thy ===== *)
theory Mst
  imports MstKey
begin

text \<open>
  The Merkle search tree of a repository (\<^verbatim>\<open>atproto/repo/mst\<close>): nodes, lookup, insertion with node splits, removal
  with node merges, and the structural check. Nodes are values here; the code updates them in place, and a failed
  operation returns no tree. \<^verbatim>\<open>nil\<close> pointers are \<open>None\<close>, an index of -1 is \<open>None\<close>. Index errors of the code are the error
  \<open>MstPanic\<close>.
\<close>

subsection \<open>Nodes\<close>

type_synonym cid = bytes

datatype node = Node (entries: "entry list") (nheight: int) (ndirty: bool) (ncid: "cid option") (nstub: bool)
and entry = NodeEntry (ekey: bytes) (evalue: "cid option") (echildcid: "cid option") (echild: "node option") (edirty: bool)

datatype mst_error =
    ErrInvalidKey | ErrPartialTree | ErrInvalidTree
  | ErrInsertionOrder | ErrEmptyRange | ErrSplitEnd | ErrSplitEmpty | ErrUnexpectedSplit | ErrMissingBlock | ErrEncoding
  | ErrStructure | ErrStore | MstPanic

definition isValue :: "entry \<Rightarrow> bool" where
  "isValue e \<longleftrightarrow> length (ekey e) > 0 \<and> evalue e \<noteq> None"

definition isChild :: "entry \<Rightarrow> bool" where
  "isChild e \<longleftrightarrow> echild e \<noteq> None \<or> echildcid e \<noteq> None"

definition node_IsEmpty :: "node \<Rightarrow> bool" where
  "node_IsEmpty n \<longleftrightarrow> length (entries n) = 0"

definition childEntry :: "node \<Rightarrow> entry" where
  "childEntry c = NodeEntry [] None None (Some c) True"

definition valueEntry :: "bytes \<Rightarrow> cid \<Rightarrow> entry" where
  "valueEntry key val = NodeEntry key (Some val) None None True"

fun setChild :: "node \<Rightarrow> bool \<Rightarrow> entry \<Rightarrow> entry" where
  "setChild c dirty (NodeEntry k v cc _ d) = NodeEntry k v cc (Some c) (d \<or> dirty)"

fun setValue :: "cid \<Rightarrow> entry \<Rightarrow> entry" where
  "setValue val (NodeEntry k _ cc c _) = NodeEntry k (Some val) cc c True"

lemma size_echild [termination_simp]: "echild e = Some c \<Longrightarrow> size c < size e"
  by (cases e) simp

fun node_IsPartial :: "node \<Rightarrow> bool" and entries_partial :: "entry list \<Rightarrow> bool" where
  "node_IsPartial (Node es h d c s) = (s \<or> entries_partial es)"
| "entries_partial [] = False"
| "entries_partial (e # es) =
     (if echildcid e \<noteq> None \<and> echild e = None then True
      else (case echild e of Some c \<Rightarrow> node_IsPartial c | None \<Rightarrow> False) \<or> entries_partial es)"

subsection \<open>Searching a node\<close>

fun find_entry_loop :: "bytes \<Rightarrow> entry list \<Rightarrow> nat \<Rightarrow> nat option" where
  "find_entry_loop key [] i = None"
| "find_entry_loop key (e # es) i =
     (if isValue e \<and> key = ekey e then Some i else find_entry_loop key es (i + 1))"

definition findExistingEntry :: "node \<Rightarrow> bytes \<Rightarrow> nat option" where
  "findExistingEntry n key = find_entry_loop key (entries n) 0"

fun find_child_loop :: "bytes \<Rightarrow> entry list \<Rightarrow> nat \<Rightarrow> nat option \<Rightarrow> nat option" where
  "find_child_loop key [] i idx = idx"
| "find_child_loop key (e # es) i idx =
     (if isChild e then find_child_loop key es (i + 1) (Some i)
      else if isValue e then (if key \<le> ekey e then idx else find_child_loop key es (i + 1) None)
      else find_child_loop key es (i + 1) idx)"

definition findExistingChild :: "node \<Rightarrow> bytes \<Rightarrow> nat option" where
  "findExistingChild n key = find_child_loop key (entries n) 0 None"

text \<open>The next entry is a value that \<open>key\<close> is after.\<close>

definition next_before :: "bytes \<Rightarrow> entry list \<Rightarrow> bool" where
  "next_before key es = (case es of [] \<Rightarrow> False | next # _ \<Rightarrow> isValue next \<and> key > ekey next)"

text \<open>\<^verbatim>\<open>compareKey\<close> returns the order and the node with its dirty flags; \<open>compare_loop\<close> is its loop over the entries,
  with a flag for the first entry.\<close>

fun compareKey :: "node \<Rightarrow> bytes \<Rightarrow> bool \<Rightarrow> (mst_error, int) result \<times> node"
  and compare_loop :: "entry list \<Rightarrow> bool \<Rightarrow> bytes \<Rightarrow> bool \<Rightarrow> (mst_error, int) result \<times> entry list" where
  "compareKey (Node es h d c s) key markDirty =
     (if s then (Inl ErrPartialTree, Node es h d c s)
      else if es = [] then (Inl ErrEmptyRange, Node es h d c s)
      else if isValue (hd es) \<and> key < ekey (hd es) then (Inr (-1), Node es h (d \<or> markDirty) c s)
      else if isValue (last es) \<and> key > ekey (last es) then (Inr 1, Node es h (d \<or> markDirty) c s)
      else case compare_loop es True key markDirty of (r, es') \<Rightarrow> (r, Node es' h (d \<or> markDirty) c s))"
| "compare_loop [] first key markDirty = (Inr 0, [])"
| "compare_loop (e # es) first key markDirty =
     (if isValue e \<and> key < ekey e then (Inr 0, e # es)
      else if isChild e \<and> \<not> next_before key es then
        (case echild e of
           None \<Rightarrow> (Inl ErrPartialTree, e # es)
         | Some ch \<Rightarrow>
             (case compareKey ch key markDirty of (r, ch') \<Rightarrow>
                (case r of
                   Inl err \<Rightarrow> (Inl err, setChild ch' False e # es)
                 | Inr order \<Rightarrow>
                     (if first \<and> order < 0 then Inr (-1) else if es = [] \<and> order > 0 then Inr 1 else Inr 0,
                      setChild ch' False e # es))))
      else case compare_loop es False key markDirty of (r, es') \<Rightarrow> (r, e # es'))"

lemma size_setChild: "echild e = Some c \<Longrightarrow> size c' = size c \<Longrightarrow> size (setChild c' b e) = size e"
  by (cases e) simp

lemma compareKey_size:
  "size (snd (compareKey n key m)) = size n"
  "size_list size (snd (compare_loop es first key m)) = size_list size es"
proof (induction n key m and es first key m rule: compareKey_compare_loop.induct)
  case (1 es h d c s key m)
  then show ?case by (auto split: prod.splits)
next
  case (3 e es first key m)
  then show ?case by (auto split: prod.splits option.splits sum.splits simp: size_setChild)
qed simp

lemma compareKey_size' [termination_simp]: "(r, n') = compareKey n key m \<Longrightarrow> size n' = size n"
  by (metis compareKey_size(1) snd_conv)

fun insertion_loop :: "bytes \<Rightarrow> entry list \<Rightarrow> nat \<Rightarrow> (mst_error, nat \<times> bool) result" where
  "insertion_loop key [] i = Inr (i, False)"
| "insertion_loop key (e # es) i =
     (if isValue e \<and> key < ekey e then Inr (i, False)
      else if isChild e \<and> \<not> next_before key es then
        (case echild e of
           None \<Rightarrow> Inl ErrInsertionOrder
         | Some ch \<Rightarrow> rbind (fst (compareKey ch key False)) (\<lambda>order.
             if order < 0 then Inr (i, False)
             else if order > 0 then insertion_loop key es (i + 1)
             else Inr (i, True)))
      else insertion_loop key es (i + 1))"

definition findInsertionIndex :: "node \<Rightarrow> bytes \<Rightarrow> (mst_error, nat \<times> bool) result" where
  "findInsertionIndex n key = (if nstub n then Inl ErrInsertionOrder else insertion_loop key (entries n) 0)"

text \<open>\<^verbatim>\<open>proveMutation\<close> marks the nodes that prove the place of a key; it returns the marked node and its error, if any.\<close>

fun proveMutation :: "node \<Rightarrow> bytes \<Rightarrow> mst_error option \<times> node"
  and prove_loop :: "entry list \<Rightarrow> bytes \<Rightarrow> mst_error option \<times> entry list" where
  "proveMutation (Node es h d c s) key = (case prove_loop es key of (r, es') \<Rightarrow> (r, Node es' h d c s))"
| "prove_loop [] key = (None, [])"
| "prove_loop (e # es) key =
     (if isValue e \<and> key < ekey e then (None, e # es)
      else if isChild e \<and> \<not> next_before key es then
        (case echild e of
           None \<Rightarrow> (Some ErrPartialTree, e # es)
         | Some ch \<Rightarrow>
             (case compareKey ch key True of (r, ch') \<Rightarrow>
                (case r of
                   Inl err \<Rightarrow> (Some err, setChild ch' False e # es)
                 | Inr order \<Rightarrow>
                     if order > 0 then
                       (case prove_loop es key of (r, es') \<Rightarrow> (r, setChild ch' False e # es'))
                     else if order < 0 then (None, setChild ch' False e # es)
                     else (case proveMutation ch' key of (r, ch'') \<Rightarrow> (r, setChild ch'' False e # es)))))
      else case prove_loop es key of (r, es') \<Rightarrow> (r, e # es'))"

subsection \<open>Lookup and walk\<close>

lemma find_child_loop_range:
  "find_child_loop key es i idx = Some j \<Longrightarrow> idx \<noteq> Some j \<Longrightarrow> i \<le> j \<and> j < i + length es"
  by (induction key es i idx rule: find_child_loop.induct) (force split: if_splits)+

lemma findExistingChild_range: "findExistingChild n key = Some i \<Longrightarrow> i < length (entries n)"
  using find_child_loop_range [of key "entries n" 0 None i] by (simp add: findExistingChild_def)

lemma size_nth_child: "i < length es \<Longrightarrow> echild (es ! i) = Some c \<Longrightarrow> size c < size_list size es"
  using size_list_estimation [of "es ! i" es "size c" size] size_echild [of "es ! i" c] by simp

lemma findExistingChild_size [termination_simp]:
  "findExistingChild n key = Some i \<Longrightarrow> echild (entries n ! i) = Some c \<Longrightarrow> size c < size n"
  using size_nth_child [OF findExistingChild_range] by (cases n) fastforce

fun getCID :: "node \<Rightarrow> bytes \<Rightarrow> int \<Rightarrow> (mst_error, cid option) result" where
  "getCID n key height =
     (if nstub n then Inl ErrPartialTree
      else let height = (if height < 0 then HeightForKey key else height) in
        if height > nheight n then Inr None
        else if height < nheight n then
          (case findExistingChild n key of
             Some idx \<Rightarrow> (case echild (entries n ! idx) of None \<Rightarrow> Inl ErrPartialTree | Some c \<Rightarrow> getCID c key height)
           | None \<Rightarrow> Inr None)
        else (case findExistingEntry n key of Some idx \<Rightarrow> Inr (evalue (entries n ! idx)) | None \<Rightarrow> Inr None))"

declare getCID.simps [simp del]

text \<open>\<^verbatim>\<open>walk\<close> with a callback that collects the pairs and does not fail; \<^verbatim>\<open>writeToMap\<close> updates a map.\<close>

fun node_walk :: "node \<Rightarrow> (bytes \<times> cid) list" and entries_walk :: "entry list \<Rightarrow> (bytes \<times> cid) list" where
  "node_walk (Node es h d c s) = entries_walk es"
| "entries_walk [] = []"
| "entries_walk (e # es) =
     (if isValue e then [(ekey e, the (evalue e))] else []) @
     (case echild e of Some c \<Rightarrow> node_walk c | None \<Rightarrow> []) @ entries_walk es"

fun writeToMap :: "node \<Rightarrow> (bytes \<rightharpoonup> cid) \<Rightarrow> (bytes \<rightharpoonup> cid)"
  and entries_writeToMap :: "entry list \<Rightarrow> (bytes \<rightharpoonup> cid) \<Rightarrow> (bytes \<rightharpoonup> cid)" where
  "writeToMap (Node es h d c s) m = entries_writeToMap es m"
| "entries_writeToMap [] m = m"
| "entries_writeToMap (e # es) m =
     (let m = (if isValue e then m(ekey e \<mapsto> the (evalue e)) else m);
          m = (case echild e of Some c \<Rightarrow> writeToMap c m | None \<Rightarrow> m)
      in entries_writeToMap es m)"

fun deepCopy :: "node \<Rightarrow> node" and entries_copy :: "entry list \<Rightarrow> entry list" where
  "deepCopy (Node es h d c s) = Node (entries_copy es) h d c s"
| "entries_copy [] = []"
| "entries_copy (e # es) =
     NodeEntry (ekey e) (evalue e) (echildcid e) (case echild e of Some c \<Rightarrow> Some (deepCopy c) | None \<Rightarrow> None) (edirty e) #
     entries_copy es"

subsection \<open>Insertion\<close>

definition splitEntries :: "node \<Rightarrow> nat \<Rightarrow> (mst_error, node \<times> node) result" where
  "splitEntries n idx =
     (if idx = 0 \<or> idx \<ge> length (entries n) then Inl ErrSplitEnd
      else
        let left = Node (take idx (entries n)) (nheight n) True None False;
            right = Node (drop idx (entries n)) (nheight n) True None False
        in if node_IsEmpty left \<or> node_IsEmpty right then Inl ErrSplitEnd else Inr (left, right))"

lemma insertion_loop_range:
  "insertion_loop key es i = Inr (j, sp) \<Longrightarrow> i \<le> j \<and> j \<le> i + length es \<and> (sp \<longrightarrow> j < i + length es)"
proof (induction key es i rule: insertion_loop.induct)
  case (2 key e es i)
  then show ?case by (fastforce simp: rbind_Inr_iff split: if_splits option.splits)
qed auto

lemma findInsertionIndex_size [termination_simp]:
  "findInsertionIndex n key = Inr (i, True) \<Longrightarrow> echild (entries n ! i) = Some c \<Longrightarrow> size c < size n"
  using insertion_loop_range [of key "entries n" 0 i True] size_nth_child [of i "entries n" c]
  by (cases n) (fastforce simp: findInsertionIndex_def split: if_splits)

fun node_split :: "node \<Rightarrow> bytes \<Rightarrow> (mst_error, node \<times> node) result" where
  "node_split n key =
     (if node_IsEmpty n then Inl ErrSplitEmpty
      else case findInsertionIndex n key of
        Inl err \<Rightarrow> Inl err
      | Inr (idx, False) \<Rightarrow> splitEntries n idx
      | Inr (idx, True) \<Rightarrow>
          (case echild (entries n ! idx) of
             None \<Rightarrow> Inl MstPanic
           | Some c \<Rightarrow> rbind (node_split c key) (\<lambda>(lowerLeft, lowerRight).
               Inr (Node (take idx (entries n) @ [childEntry lowerLeft]) (nheight n) True None False,
                    Node (childEntry lowerRight # drop (idx + 1) (entries n)) (nheight n) True None False))))"

declare node_split.simps [simp del]

text \<open>The node that \<^verbatim>\<open>insertParent\<close> puts above \<open>n\<close>.\<close>

definition insertParent :: "node \<Rightarrow> int \<Rightarrow> node" where
  "insertParent n height =
     (if node_IsEmpty n then Node [] height True None False
      else Node [childEntry n] (nheight n + 1) True None False)"

definition setDirty :: "node \<Rightarrow> node" where
  "setDirty n = Node (entries n) (nheight n) True (ncid n) (nstub n)"

definition setEntries :: "entry list \<Rightarrow> node \<Rightarrow> node" where
  "setEntries es n = Node es (nheight n) (ndirty n) (ncid n) (nstub n)"

text \<open>The end of \<^verbatim>\<open>insert\<close>, at the node whose height is that of the key: lines 41 to 99.\<close>

definition insert_here :: "node \<Rightarrow> bytes \<Rightarrow> cid \<Rightarrow> (mst_error, node \<times> cid option) result" where
  "insert_here n key val =
     (case findExistingEntry n key of
        Some idx \<Rightarrow>
          (let e = entries n ! idx in
           if the (evalue e) = val then Inr (n, Some val)
           else Inr (setDirty (setEntries ((entries n)[idx := setValue val e]) n), evalue e))
      | None \<Rightarrow>
          (case findInsertionIndex n key of
             Inl err \<Rightarrow> Inl err
           | Inr (idx, sp) \<Rightarrow>
               (case proveMutation (setDirty n) key of (perr, n) \<Rightarrow>
                  if perr \<noteq> None \<and> perr \<noteq> Some ErrPartialTree then Inl (the perr)
                  else if \<not> sp then
                    Inr (setEntries (take idx (entries n) @ [valueEntry key val] @ drop idx (entries n)) n, None)
                  else
                    (case echild (entries n ! idx) of
                       None \<Rightarrow> Inl MstPanic
                     | Some c \<Rightarrow> rbind (node_split c key) (\<lambda>(left, right).
                         Inr (setEntries (take idx (entries n) @
                           [childEntry left, valueEntry key val, childEntry right] @ drop (idx + 1) (entries n)) n, None))))))"

definition key_height :: "bytes \<Rightarrow> int \<Rightarrow> int" where
  "key_height key height = (if height < 0 then HeightForKey key else height)"

lemma size_node: "Suc 0 \<noteq> size (n :: node) \<Longrightarrow> Suc 0 < size n"
  by (cases n) simp

function insert_node :: "node \<Rightarrow> bytes \<Rightarrow> cid \<Rightarrow> int \<Rightarrow> (mst_error, node \<times> cid option) result"
  and insertChild :: "node \<Rightarrow> bytes \<Rightarrow> cid \<Rightarrow> int \<Rightarrow> (mst_error, node \<times> cid option) result" where
  "insert_node n key val height =
     (if nstub n then Inl ErrPartialTree
      else if key_height key height > nheight n then
        insert_node (insertParent n (key_height key height)) key val (key_height key height)
      else if key_height key height < nheight n then insertChild n key val (key_height key height)
      else insert_here n key val)"
| "insertChild n key val height =
     (case findExistingChild n key of
        Some idx \<Rightarrow>
          (case echild (entries n ! idx) of
             None \<Rightarrow> Inl ErrPartialTree
           | Some c \<Rightarrow> rbind (insert_node c key val height) (\<lambda>(newChild, prev).
               if prev = Some val then Inr (n, Some val)
               else Inr (setDirty (setEntries ((entries n)[idx := setChild newChild True (entries n ! idx)]) n), prev)))
      | None \<Rightarrow>
          (case findInsertionIndex n key of
             Inl err \<Rightarrow> Inl err
           | Inr (idx, sp) \<Rightarrow>
               if sp then Inl ErrUnexpectedSplit
               else rbind (insert_node (Node [] (nheight n - 1) True None False) key val height) (\<lambda>(newChild, _).
                 Inr (setDirty (setEntries (take idx (entries n) @ [childEntry newChild] @ drop idx (entries n)) n), None))))"
  by pat_completeness auto
termination
  by (relation "inv_image (less_than <*lex*> less_than <*lex*> less_than)
        (\<lambda>x. case x of
           Inl (n, key, val, height) \<Rightarrow>
             (if key_height key height < nheight n then Suc (size n) else 0, nat \<bar>key_height key height - nheight n\<bar>, 1)
         | Inr (n, key, val, height) \<Rightarrow> (Suc (size n), nat \<bar>key_height key height - nheight n\<bar>, 0))")
    (auto simp: insertParent_def key_height_def dest: findExistingChild_size intro: size_node split: if_splits)

declare insert_node.simps [simp del] insertChild.simps [simp del]

subsection \<open>Removal\<close>

function mergeNodes :: "node \<Rightarrow> node \<Rightarrow> (mst_error, node) result" where
  "mergeNodes left right =
     (let idx = length (entries left); es = entries left @ entries right in
      if idx = 0 then Inl MstPanic
      else if \<not> isChild (es ! (idx - 1)) then Inr (Node es (nheight left) True None False)
      else if idx \<ge> length es then Inl MstPanic
      else if \<not> isChild (es ! idx) then Inr (Node es (nheight left) True None False)
      else case (echild (es ! (idx - 1)), echild (es ! idx)) of
        (Some lowerLeft, Some lowerRight) \<Rightarrow>
          rbind (mergeNodes lowerLeft lowerRight) (\<lambda>lowerMerged.
            Inr (Node (take (idx - 1) es @ [childEntry lowerMerged] @ drop (idx + 1) es) (nheight left) True None False))
      | _ \<Rightarrow> Inl ErrPartialTree)"
  by pat_completeness auto
termination
proof (relation "measure (\<lambda>(l, r). size l)", goal_cases)
  case (2 left right idx es lr ll rl)
  then have "idx - 1 < length (entries left)" "es ! (idx - 1) = entries left ! (idx - 1)"
    by (auto simp: nth_append)
  then have "size rl < size_list size (entries left)"
    using 2 size_nth_child [of "idx - 1" "entries left" rl] by simp
  then show ?case by (cases left) simp
qed simp

declare mergeNodes.simps [simp del]

text \<open>The loop that trims the top of the tree.\<close>

fun trim_top :: "node \<Rightarrow> (mst_error, node) result" where
  "trim_top (Node es h d c s) =
     (case es of
        [e] \<Rightarrow>
          if \<not> isChild e then Inr (Node es h d c s)
          else (case echild e of
              None \<Rightarrow> (case echildcid e of
                  None \<Rightarrow> Inl ErrPartialTree
                | Some cc \<Rightarrow> Inr (Node [] (h - 1) False (Some cc) True))
            | Some ch \<Rightarrow> trim_top ch)
      | _ \<Rightarrow> Inr (Node es h d c s))"

text \<open>The entries without the value at \<open>idx\<close>; its neighbours are merged if both are children.\<close>

definition remove_entry :: "entry list \<Rightarrow> nat \<Rightarrow> (mst_error, entry list) result" where
  "remove_entry es idx =
     (if idx > 0 \<and> idx + 1 < length es \<and> isChild (es ! (idx - 1)) \<and> isChild (es ! (idx + 1)) then
        (case (echild (es ! (idx - 1)), echild (es ! (idx + 1))) of
           (Some l, Some r) \<Rightarrow> rbind (mergeNodes l r) (\<lambda>newChild.
             Inr ((take idx es @ drop (idx + 2) es)[idx - 1 := childEntry newChild]))
         | _ \<Rightarrow> Inl ErrPartialTree)
      else Inr (take idx es @ drop (idx + 1) es))"

definition remove_here :: "node \<Rightarrow> bytes \<Rightarrow> bool \<Rightarrow> (mst_error, node \<times> cid option) result" where
  "remove_here n key atTop =
     (case findExistingEntry n key of
        None \<Rightarrow> Inr (n, None)
      | Some idx \<Rightarrow>
          rbind (remove_entry (entries n) idx) (\<lambda>es'.
            case proveMutation (setDirty (setEntries es' n)) key of (perr, m) \<Rightarrow>
              if perr \<noteq> None \<and> perr \<noteq> Some ErrPartialTree then Inl (the perr)
              else rbind (if atTop then trim_top m else Inr m) (\<lambda>m. Inr (m, evalue (entries n ! idx)))))"

function remove_node :: "node \<Rightarrow> bytes \<Rightarrow> int \<Rightarrow> (mst_error, node \<times> cid option) result"
  and removeChild :: "node \<Rightarrow> bytes \<Rightarrow> int \<Rightarrow> (mst_error, node \<times> cid option) result" where
  "remove_node n key height =
     (if nstub n then Inl ErrPartialTree
      else if key_height key height > nheight n then Inr (n, None)
      else if key_height key height < nheight n then removeChild n key (key_height key height)
      else remove_here n key (height < 0))"
| "removeChild n key height =
     (case findExistingChild n key of
        None \<Rightarrow> Inr (n, None)
      | Some idx \<Rightarrow>
          (case echild (entries n ! idx) of
             None \<Rightarrow> Inl ErrPartialTree
           | Some c \<Rightarrow> rbind (remove_node c key height) (\<lambda>(newChild, prev).
               if prev = None then Inr (n, None)
               else if \<not> node_IsEmpty newChild then
                 Inr (setDirty (setEntries ((entries n)[idx := setChild newChild True (entries n ! idx)]) n), prev)
               else Inr (setDirty (setEntries (take idx (entries n) @ drop (idx + 1) (entries n)) n), prev))))"
  by pat_completeness auto
termination
  by (relation "inv_image (less_than <*lex*> less_than)
        (\<lambda>x. case x of Inl (n, key, height) \<Rightarrow> (size n, 1) | Inr (n, key, height) \<Rightarrow> (size n, 0))")
    (auto dest: findExistingChild_size)

declare remove_node.simps [simp del] removeChild.simps [simp del]

subsection \<open>The structural check\<close>

fun top_height :: "entry list \<Rightarrow> int" where
  "top_height [] = -1"
| "top_height (e # es) = (if isValue e then HeightForKey (ekey e) else top_height es)"

text \<open>\<open>key\<close> is the last value key seen in the loop, from the caller's at first.\<close>

fun verifyStructure :: "node \<Rightarrow> int \<Rightarrow> bytes \<Rightarrow> bool"
  and verify_loop :: "entry list \<Rightarrow> bool \<Rightarrow> int \<Rightarrow> bytes \<Rightarrow> bool" where
  "verifyStructure (Node es h d c s) height key =
     (if s then False
      else if c = None \<and> \<not> d then False
      else if es = [] then height < 0
      else
        let height = (if height < 0 then top_height es else height) in
        if height < 0 then False
        else if h = -1 \<or> h \<noteq> height then False
        else verify_loop es False height key)"
| "verify_loop [] lastWasChild height key = True"
| "verify_loop (e # es) lastWasChild height key =
     (if isChild e then
        \<not> lastWasChild \<and> \<not> isValue e \<and> height \<noteq> 0 \<and>
        (case echild e of Some c \<Rightarrow> verifyStructure c (height - 1) key | None \<Rightarrow> True) \<and>
        verify_loop es True height key
      else if isValue e then
        key \<noteq> ekey e \<and> \<not> key > ekey e \<and> height = HeightForKey (ekey e) \<and> verify_loop es False height (ekey e)
      else False)"

subsection \<open>Trees\<close>

record Tree =
  Root :: node

definition NewEmptyTree :: Tree where
  "NewEmptyTree = \<lparr> Root = Node [] 0 True None False \<rparr>"

definition Insert :: "Tree \<Rightarrow> bytes \<Rightarrow> cid \<Rightarrow> (mst_error, Tree \<times> cid option) result" where
  "Insert t key val =
     (if \<not> IsValidKey key then Inl ErrInvalidKey
      else rbind (insert_node (Root t) key val (-1)) (\<lambda>(out, prev). Inr (\<lparr> Root = out \<rparr>, prev)))"

definition Remove :: "Tree \<Rightarrow> bytes \<Rightarrow> (mst_error, Tree \<times> cid option) result" where
  "Remove t key =
     (if \<not> IsValidKey key then Inl ErrInvalidKey
      else rbind (remove_node (Root t) key (-1)) (\<lambda>(out, prev). Inr (\<lparr> Root = out \<rparr>, prev)))"

definition Get :: "Tree \<Rightarrow> bytes \<Rightarrow> (mst_error, cid option) result" where
  "Get t key = (if \<not> IsValidKey key then Inl ErrInvalidKey else getCID (Root t) key (-1))"

definition Walk :: "Tree \<Rightarrow> (bytes \<times> cid) list" where
  "Walk t = node_walk (Root t)"

definition tree_Copy :: "Tree \<Rightarrow> Tree" where
  "tree_Copy t = \<lparr> Root = deepCopy (Root t) \<rparr>"

definition Verify :: "Tree \<Rightarrow> bool" where
  "Verify t = verifyStructure (Root t) (-1) []"

text \<open>\<^verbatim>\<open>LoadTreeFromMap\<close>, with the pairs of the map in the order the iteration takes them.\<close>

fun load_pairs :: "(bytes \<times> cid) list \<Rightarrow> Tree \<Rightarrow> (mst_error, Tree) result" where
  "load_pairs [] t = Inr t"
| "load_pairs ((key, val) # m) t = rbind (Insert t key val) (\<lambda>(t, _). load_pairs m t)"

definition LoadTreeFromMap :: "(bytes \<times> cid) list \<Rightarrow> (mst_error, Tree) result" where
  "LoadTreeFromMap m = load_pairs m NewEmptyTree"

end
