(* ===== verification/MstMap.thy ===== *)
theory MstMap
  imports Mst
begin

text \<open>
  The Merkle search tree refines a sorted map: well-formed complete trees, and what lookup, insertion, splits, removal
  and merges do to the list of pairs that a walk visits.
\<close>

subsection \<open>Walks\<close>

lemma entries_walk_append [simp]: "entries_walk (es @ es') = entries_walk es @ entries_walk es'"
  by (induction es) (auto split: option.splits)

lemma node_walk_entries: "node_walk n = entries_walk (entries n)"
  by (cases n) simp

lemma entries_walk_child [simp]: "entries_walk [childEntry c] = node_walk c"
  by (simp add: childEntry_def isValue_def)

lemma entries_walk_value [simp]: "key \<noteq> [] \<Longrightarrow> entries_walk [valueEntry key val] = [(key, val)]"
  by (simp add: valueEntry_def isValue_def)

lemma entries_walk_new [simp]:
  "entries_walk (childEntry c # es) = node_walk c @ entries_walk es"
  "key \<noteq> [] \<Longrightarrow> entries_walk (valueEntry key val # es) = (key, val) # entries_walk es"
  by (simp_all add: childEntry_def valueEntry_def isValue_def)

lemma value_child_simps [simp]:
  "isChild (childEntry c)" "\<not> isValue (childEntry c)" "echild (childEntry c) = Some c"
  "\<not> isChild (valueEntry key val)" "isValue (valueEntry key val) \<longleftrightarrow> key \<noteq> []" "ekey (valueEntry key val) = key"
  "evalue (valueEntry key val) = Some val" "echild (valueEntry key val) = None"
  by (auto simp: childEntry_def valueEntry_def isChild_def isValue_def)

lemma setDirty_simps [simp]:
  "entries (setDirty n) = entries n" "nheight (setDirty n) = nheight n" "nstub (setDirty n) = nstub n"
  "ncid (setDirty n) = ncid n" "ndirty (setDirty n)"
  "entries (setEntries es n) = es" "nheight (setEntries es n) = nheight n" "nstub (setEntries es n) = nstub n"
  "ncid (setEntries es n) = ncid n" "ndirty (setEntries es n) = ndirty n"
  by (simp_all add: setDirty_def setEntries_def)

lemma node_walk_set [simp]: "node_walk (setDirty n) = node_walk n" "node_walk (setEntries es n) = entries_walk es"
  by (simp_all add: node_walk_entries)

subsection \<open>Well-formed trees\<close>

text \<open>A complete node of height \<open>h\<close>: its values have that height, no two children are next to each other, and every
  child is a non-empty node one level below.\<close>

fun wf_node :: "int \<Rightarrow> node \<Rightarrow> bool" and wf_entries :: "int \<Rightarrow> entry list \<Rightarrow> bool" where
  "wf_node h (Node es H d c s) \<longleftrightarrow> \<not> s \<and> H = h \<and> 0 \<le> h \<and> wf_entries h es"
| "wf_entries h [] \<longleftrightarrow> True"
| "wf_entries h (e # es) \<longleftrightarrow>
     (if isChild e then
        \<not> isValue e \<and> (case echild e of Some c \<Rightarrow> wf_node (h - 1) c \<and> entries c \<noteq> [] | None \<Rightarrow> False) \<and>
        (es = [] \<or> \<not> isChild (hd es))
      else isValue e \<and> HeightForKey (ekey e) = h) \<and>
     wf_entries h es"

abbreviation keys :: "(bytes \<times> cid) list \<Rightarrow> bytes list" where
  "keys xs \<equiv> map fst xs"

abbreviation sorted_keys :: "(bytes \<times> cid) list \<Rightarrow> bool" where
  "sorted_keys xs \<equiv> sorted_wrt (<) (keys xs)"

lemma wf_node_iff: "wf_node h n \<longleftrightarrow> \<not> nstub n \<and> nheight n = h \<and> 0 \<le> h \<and> wf_entries h (entries n)"
  by (cases n) auto

lemma wf_entries_append:
  "wf_entries h (es @ es') \<longleftrightarrow> wf_entries h es \<and> wf_entries h es' \<and>
     (es = [] \<or> es' = [] \<or> \<not> (isChild (last es) \<and> isChild (hd es')))"
proof (induction es)
  case (Cons e es)
  then show ?case by (cases es) (auto split: option.splits)
qed simp

lemma wf_child: "wf_entries h es \<Longrightarrow> e \<in> set es \<Longrightarrow> isChild e \<Longrightarrow>
    \<exists>c. echild e = Some c \<and> wf_node (h - 1) c \<and> entries c \<noteq> [] \<and> \<not> isValue e"
  by (induction es) (auto split: option.splits if_splits)

lemma wf_value: "wf_entries h es \<Longrightarrow> e \<in> set es \<Longrightarrow> \<not> isChild e \<Longrightarrow> isValue e \<and> HeightForKey (ekey e) = h \<and> echild e = None"
  by (induction es) (auto simp: isChild_def split: option.splits if_splits)

lemma wf_either: "wf_entries h es \<Longrightarrow> e \<in> set es \<Longrightarrow> isChild e \<longleftrightarrow> \<not> isValue e"
  using wf_child wf_value by blast

lemma walk_single_child: "echild e = Some c \<Longrightarrow> \<not> isValue e \<Longrightarrow> entries_walk [e] = node_walk c"
  by simp

lemma walk_single_value: "isValue e \<Longrightarrow> \<not> isChild e \<Longrightarrow> entries_walk [e] = [(ekey e, the (evalue e))]"
  by (simp add: isChild_def)

lemma walk_mem: "e \<in> set es \<Longrightarrow> set (entries_walk [e]) \<subseteq> set (entries_walk es)"
  by (induction es) auto

lemma wf_heights:
  "wf_node h n \<Longrightarrow> x \<in> set (node_walk n) \<Longrightarrow> HeightForKey (fst x) \<le> h"
  "wf_entries h es \<Longrightarrow> x \<in> set (entries_walk es) \<Longrightarrow> HeightForKey (fst x) \<le> h"
proof (induction n and es arbitrary: h and h rule: node_walk_entries_walk.induct)
  case (3 e es)
  show ?case
  proof (cases "x \<in> set (entries_walk es)")
    case True
    then show ?thesis using 3 by auto
  next
    case False
    then show ?thesis using 3 by (fastforce split: if_splits option.splits simp: isChild_def)
  qed
qed auto

lemma wf_walk_nonempty: "wf_node h n \<Longrightarrow> entries n \<noteq> [] \<Longrightarrow> node_walk n \<noteq> []"
  "wf_entries h es \<Longrightarrow> es \<noteq> [] \<Longrightarrow> entries_walk es \<noteq> []"
proof (induction n and es arbitrary: h and h rule: node_walk_entries_walk.induct)
  case (3 e es)
  then show ?case by (auto split: if_splits option.splits)
qed auto

subsection \<open>The gap of a key\<close>

text \<open>The entries before a key, which end with a value, and those after it, which start with one.\<close>

definition below :: "bytes \<Rightarrow> entry list \<Rightarrow> bool" where
  "below key A \<longleftrightarrow> (A \<noteq> [] \<longrightarrow> isValue (last A)) \<and> (\<forall>x\<in>set (entries_walk A). fst x < key)"

definition beyond :: "bytes \<Rightarrow> entry list \<Rightarrow> bool" where
  "beyond key B \<longleftrightarrow> (B \<noteq> [] \<longrightarrow> isValue (hd B)) \<and> (\<forall>x\<in>set (entries_walk B). key < fst x)"

lemma isValue_walk: "isValue e \<Longrightarrow> (ekey e, the (evalue e)) \<in> set (entries_walk (e # es))"
  by simp

lemma below_Cons: "below key (e # A) \<Longrightarrow> isValue e \<Longrightarrow> ekey e < key \<and> below key A"
  by (auto simp: below_def)

lemma beyond_Cons: "beyond key (e # B) \<Longrightarrow> isValue e \<and> key < ekey e"
  by (auto simp: beyond_def)

lemma sorted_head:
  assumes "sorted_keys (entries_walk (e # es))" "isValue e" "\<not> isChild e"
  shows "\<forall>x\<in>set (entries_walk es). ekey e < fst x"
  using assms by (auto simp: isChild_def)

lemma gap_exists:
  assumes "wf_entries h es" "sorted_keys (entries_walk es)" "\<forall>e\<in>set es. isValue e \<longrightarrow> ekey e \<noteq> key"
  shows "\<exists>A G B. es = A @ G @ B \<and> below key A \<and> beyond key B \<and> (G = [] \<or> (\<exists>e. G = [e] \<and> isChild e))"
  using assms
proof (induction es)
  case Nil
  then show ?case by (auto simp: below_def beyond_def)
next
  case (Cons e es)
  have tl: "wf_entries h es" "sorted_keys (entries_walk es)" using Cons.prems(1,2) by (auto simp: sorted_wrt_append)
  obtain A G B where g: "es = A @ G @ B" "below key A" "beyond key B" "G = [] \<or> (\<exists>e. G = [e] \<and> isChild e)"
    using Cons.IH [OF tl] Cons.prems(3) by auto
  show ?case
  proof (cases "isChild e")
    case True
    then obtain c where c: "echild e = Some c" "\<not> isValue e" using wf_child [OF Cons.prems(1), of e] by auto
    show ?thesis
    proof (cases "A = []")
      case A: True
      have "G = []" using g(1,4) A Cons.prems(1) True by auto
      then have "e # es = [] @ [e] @ B" using g(1) A by simp
      then show ?thesis using True g(3) by (intro exI [of _ "[]"] exI [of _ "[e]"] exI [of _ B]) (simp add: below_def)
    next
      case False
      have "isValue (last A)" "\<forall>x\<in>set (entries_walk A). fst x < key" using g(2) False by (auto simp: below_def)
      moreover have "\<forall>x\<in>set (node_walk c). fst x < key"
      proof
        fix x assume x: "x \<in> set (node_walk c)"
        have "entries_walk A \<noteq> []" using \<open>isValue (last A)\<close> False by (cases A rule: rev_cases) auto
        then obtain y where y: "y \<in> set (entries_walk A)" by (meson last_in_set)
        then have "fst x < fst y" using Cons.prems(2) x c g(1) by (auto simp: sorted_wrt_append)
        then show "fst x < key" using g(2) y by (auto simp: below_def)
      qed
      ultimately have "below key (e # A)" using c False by (auto simp: below_def)
      then show ?thesis using g by (intro exI [of _ "e # A"] exI [of _ G] exI [of _ B]) simp
    qed
  next
    case False
    then have v: "isValue e" "echild e = None" using wf_value [OF Cons.prems(1), of e] by auto
    show ?thesis
    proof (cases "key < ekey e")
      case True
      have "beyond key (e # es)"
        using True sorted_head [OF Cons.prems(2) v(1) False] v by (fastforce simp: beyond_def)
      then show ?thesis by (intro exI [of _ "[]"] exI [of _ "[]"] exI [of _ "e # es"]) (simp add: below_def)
    next
      case F: False
      then have "ekey e < key" using Cons.prems(3) v(1) by force
      then have "below key (e # A)" using g(2) v by (auto simp: below_def)
      then show ?thesis using g by (intro exI [of _ "e # A"] exI [of _ G] exI [of _ B]) simp
    qed
  qed
qed

text \<open>The loops skip the entries below the key.\<close>

lemma below_next:
  assumes "wf_entries h (e # A @ R)" "below key (e # A)" "isChild e"
  shows "A \<noteq> [] \<and> next_before key (A @ R) \<and> below key A"
proof -
  have "\<not> isValue e" using wf_child [OF assms(1), of e] assms(3) by auto
  then have A: "A \<noteq> []" using assms(2) by (auto simp: below_def split: if_splits)
  then obtain a A' where a: "A = a # A'" by (cases A) auto
  have "\<not> isChild a" using assms(1,3) by (auto simp: a)
  then have "isValue a" using wf_value [of h "e # A @ R" a] assms(1) by (auto simp: a)
  moreover have "ekey a < key" using assms(2) \<open>isValue a\<close> by (auto simp: below_def a)
  moreover have "below key A" using assms(2) A by (auto simp: below_def split: if_splits)
  ultimately show ?thesis by (simp add: next_before_def a)
qed

lemma find_child_skip:
  "wf_entries h (A @ R) \<Longrightarrow> below key A \<Longrightarrow>
     find_child_loop key (A @ R) i idx = find_child_loop key R (i + length A) (if A = [] then idx else None)"
proof (induction A arbitrary: i idx)
  case (Cons e A)
  show ?case
  proof (cases "isChild e")
    case True
    then have "A \<noteq> []" "below key A" using below_next [of h e A R key] Cons.prems True by simp_all
    then show ?thesis using Cons True by auto
  next
    case False
    then have "isValue e" using wf_value [OF Cons.prems(1), of e] by auto
    moreover from this have "ekey e < key" "below key A" using below_Cons [OF Cons.prems(2)] by blast+
    ultimately show ?thesis using Cons False by auto
  qed
qed simp

lemma insertion_skip:
  "wf_entries h (A @ R) \<Longrightarrow> below key A \<Longrightarrow> insertion_loop key (A @ R) i = insertion_loop key R (i + length A)"
proof (induction A arbitrary: i)
  case (Cons e A)
  show ?case
  proof (cases "isChild e")
    case True
    then have "next_before key (A @ R)" "below key A" using below_next [of h e A R key] Cons.prems True by simp_all
    moreover have "\<not> isValue e" using wf_child [OF Cons.prems(1), of e] True by auto
    ultimately show ?thesis using Cons True by auto
  next
    case False
    then have "isValue e" using wf_value [OF Cons.prems(1), of e] by auto
    moreover from this have "ekey e < key" "below key A" using below_Cons [OF Cons.prems(2)] by blast+
    ultimately show ?thesis using Cons False by auto
  qed
qed simp

lemma compare_skip:
  "wf_entries h (A @ R) \<Longrightarrow> below key A \<Longrightarrow>
     compare_loop (A @ R) first key m = (case compare_loop R (first \<and> A = []) key m of (r, R') \<Rightarrow> (r, A @ R'))"
proof (induction A arbitrary: first)
  case (Cons e A)
  show ?case
  proof (cases "isChild e")
    case True
    then have "next_before key (A @ R)" "below key A" "A \<noteq> []" using below_next [of h e A R key] Cons.prems True by simp_all
    moreover have "\<not> isValue e" using wf_child [OF Cons.prems(1), of e] True by auto
    ultimately show ?thesis using Cons True by (auto split: prod.splits)
  next
    case False
    then have "isValue e" using wf_value [OF Cons.prems(1), of e] by auto
    moreover from this have "ekey e < key" "below key A" using below_Cons [OF Cons.prems(2)] by blast+
    ultimately show ?thesis using Cons False by (auto split: prod.splits)
  qed
qed (simp split: prod.splits)

lemma prove_skip:
  "wf_entries h (A @ R) \<Longrightarrow> below key A \<Longrightarrow>
     prove_loop (A @ R) key = (case prove_loop R key of (r, R') \<Rightarrow> (r, A @ R'))"
proof (induction A)
  case (Cons e A)
  show ?case
  proof (cases "isChild e")
    case True
    then have "next_before key (A @ R)" "below key A" "A \<noteq> []" using below_next [of h e A R key] Cons.prems True by simp_all
    moreover have "\<not> isValue e" using wf_child [OF Cons.prems(1), of e] True by auto
    ultimately show ?thesis using Cons True by (auto split: prod.splits)
  next
    case False
    then have "isValue e" using wf_value [OF Cons.prems(1), of e] by auto
    moreover from this have "ekey e < key" "below key A" using below_Cons [OF Cons.prems(2)] by blast+
    ultimately show ?thesis using Cons False by (auto split: prod.splits)
  qed
qed (simp split: prod.splits)

subsection \<open>Comparing a key with a subtree\<close>

definition key_order :: "bytes \<Rightarrow> (bytes \<times> cid) list \<Rightarrow> int" where
  "key_order key xs = (if \<forall>x\<in>set xs. key < fst x then -1 else if \<forall>x\<in>set xs. fst x < key then 1 else 0)"

lemma key_order_around:
  assumes "\<forall>x\<in>set xs. fst x < key" "\<forall>z\<in>set zs. key < fst z" "ys \<noteq> []"
  shows "key_order key (xs @ ys @ zs) =
     (if xs = [] \<and> key_order key ys < 0 then -1 else if zs = [] \<and> key_order key ys > 0 then 1 else 0)"
proof -
  let ?lo = "\<lambda>ys. \<forall>x\<in>set ys. key < fst x" and ?hi = "\<lambda>ys. \<forall>x\<in>set ys. fst x < key"
  have lo: "?lo (xs @ ys @ zs) \<longleftrightarrow> xs = [] \<and> ?lo ys"
  proof (cases xs)
    case (Cons x xs')
    then have "\<not> key < fst x" using assms(1) by (auto dest: order.asym)
    then show ?thesis by (simp add: Cons)
  qed (use assms(2) in auto)
  have hi: "?hi (xs @ ys @ zs) \<longleftrightarrow> ?hi ys \<and> zs = []"
  proof (cases zs)
    case (Cons z zs')
    then have "\<not> fst z < key" using assms(2) by (auto dest: order.asym)
    then show ?thesis by (simp add: Cons)
  qed (use assms(1) in auto)
  have "?lo ys \<Longrightarrow> \<not> ?hi ys" using assms(3) by (cases ys) (auto dest: order.asym)
  then show ?thesis unfolding key_order_def lo hi by auto
qed

text \<open>A key that is not in a well-formed node, with its gap.\<close>

lemma node_gap:
  assumes "wf_node h n" "sorted_keys (node_walk n)" "key \<notin> set (keys (node_walk n))"
  obtains A G B where "entries n = A @ G @ B" "below key A" "beyond key B" "G = [] \<or> (\<exists>e. G = [e] \<and> isChild e)"
    "wf_entries h (A @ G @ B)"
proof -
  have wf: "wf_entries h (entries n)" using assms(1) by (simp add: wf_node_iff)
  have "\<forall>e\<in>set (entries n). isValue e \<longrightarrow> ekey e \<noteq> key"
  proof (intro ballI impI notI)
    fix e assume "e \<in> set (entries n)" "isValue e" "ekey e = key"
    then have "(key, the (evalue e)) \<in> set (node_walk n)"
      using walk_mem [of e "entries n"] by (auto simp: node_walk_entries)
    then show False using assms(3) by force
  qed
  with gap_exists [OF wf, of key] assms(2) obtain A G B where "entries n = A @ G @ B" "below key A" "beyond key B"
    "G = [] \<or> (\<exists>e. G = [e] \<and> isChild e)" unfolding node_walk_entries by blast
  with that wf show thesis by metis
qed

lemma next_before_beyond: "beyond key B \<Longrightarrow> \<not> next_before key B"
  by (cases B) (auto simp: next_before_def beyond_def)

lemma value_gap_last:
  assumes "below key A" "A \<noteq> []"
  shows "isValue (last A)" "ekey (last A) < key" "entries_walk A \<noteq> []"
  using assms by (cases A rule: rev_cases; auto simp: below_def)+

lemma compareKey_correct:
  assumes "wf_node h n" "sorted_keys (node_walk n)" "key \<notin> set (keys (node_walk n))" "entries n \<noteq> []"
  shows "fst (compareKey n key m) = Inr (key_order key (node_walk n))"
  using assms
proof (induction "size n" arbitrary: n h rule: less_induct)
  case less
  obtain es H d c s where n: "n = Node es H d c s" by (cases n)
  obtain A G B where g: "entries n = A @ G @ B" "below key A" "beyond key B" "G = [] \<or> (\<exists>e. G = [e] \<and> isChild e)"
    "wf_entries h (A @ G @ B)" by (rule node_gap [OF less.prems(1-3)])
  have es: "es = A @ G @ B" using g(1) n by simp
  have ne: "es \<noteq> []" "\<not> s" using less.prems n by auto
  have bA: "\<forall>x\<in>set (entries_walk A). fst x < key" and aB: "\<forall>x\<in>set (entries_walk B). key < fst x"
    using g(2,3) by (auto simp: below_def beyond_def)
  note lastA = value_gap_last [OF g(2)]
  have hdB: "B \<noteq> [] \<Longrightarrow> isValue (hd B) \<and> key < ekey (hd B) \<and> entries_walk B \<noteq> []"
    using beyond_Cons [of key "hd B" "tl B"] g(3) by (cases B) auto
  show ?case
  proof (cases "G = []")
    case True
    have w: "node_walk n = entries_walk A @ entries_walk B" by (simp add: n es True)
    have lp: "compare_loop es True key m = (Inr 0, es)" if "A \<noteq> []" "B \<noteq> []"
      using compare_skip [of h A "B" key True m] g(2,5) True hdB that by (cases B) (auto simp: es)
    have mem: "A \<noteq> [] \<Longrightarrow> \<exists>x\<in>set (entries_walk A). fst x < key" "B \<noteq> [] \<Longrightarrow> \<exists>x\<in>set (entries_walk B). key < fst x"
      using bA aB lastA(3) hdB by (meson last_in_set)+
    consider "A = []" "B \<noteq> []" | "A \<noteq> []" "B = []" | "A \<noteq> []" "B \<noteq> []" using ne(1) es True by auto
    then show ?thesis
    proof cases
      case 1
      then show ?thesis using hdB ne aB w by (simp add: n es True key_order_def)
    next
      case 2
      then have "\<not> (isValue (hd es) \<and> key < ekey (hd es))"
        using bA walk_mem [of "hd A" A] by (cases A) (auto simp: es True)
      then show ?thesis using 2 lastA ne bA w mem(1) by (auto simp: n es True key_order_def dest: order.asym)
    next
      case 3
      have "\<not> (isValue (hd es) \<and> key < ekey (hd es))"
        using 3 bA walk_mem [of "hd A" A] by (cases A) (auto simp: es True)
      moreover have "\<not> (isValue (last es) \<and> key > ekey (last es))"
        using 3 aB walk_mem [of "last B" B] by (cases B rule: rev_cases) (auto simp: es True)
      ultimately show ?thesis using 3 ne lp mem w by (auto simp: n key_order_def dest: order.asym)
    qed
  next
    case False
    then obtain e where e: "G = [e]" "isChild e" using g(4) by blast
    then obtain ch where ch: "echild e = Some ch" "wf_node (h - 1) ch" "entries ch \<noteq> []" "\<not> isValue e"
      using wf_child [OF g(5), of e] by auto
    have w: "node_walk n = entries_walk A @ node_walk ch @ entries_walk B" using ch by (simp add: n es e)
    have "size ch < size n" using size_nth_child [of "length A" es ch] ch(1) by (simp add: n es e)
    moreover have "sorted_keys (node_walk ch)" "key \<notin> set (keys (node_walk ch))"
      using less.prems(2,3) w by (auto simp: sorted_wrt_append)
    ultimately have IH: "fst (compareKey ch key m) = Inr (key_order key (node_walk ch))"
      using less.hyps [of ch "h - 1"] ch by blast
    have c1: "\<not> (isValue (hd es) \<and> key < ekey (hd es))"
      using bA walk_mem [of "hd A" A] ch(4) by (cases A) (auto simp: es e)
    have c2: "\<not> (isValue (last es) \<and> key > ekey (last es))"
      using aB walk_mem [of "last B" B] ch(4) by (cases B rule: rev_cases) (auto simp: es e)
    have ea: "entries_walk A = [] \<longleftrightarrow> A = []" "entries_walk B = [] \<longleftrightarrow> B = []" using lastA(3) hdB by auto
    have lp: "fst (compare_loop es True key m) = Inr (key_order key (node_walk n))"
      using compare_skip [of h A "e # B" key True m] g(2,5) next_before_beyond [OF g(3)] e ch IH
        key_order_around [OF bA aB, of "node_walk ch"] wf_walk_nonempty(1) [OF ch(2,3)] ea w
      by (auto simp: es split: prod.splits)
    show ?thesis
    proof (cases "compare_loop es True key m")
      case (Pair r es')
      then have "compareKey n key m = (r, Node es' H (d \<or> m) c s)" using c1 c2 ne unfolding n compareKey.simps by auto
      then show ?thesis using lp Pair by simp
    qed
  qed
qed

subsection \<open>Where a new entry goes\<close>

definition all_before :: "bytes \<Rightarrow> (bytes \<times> cid) list \<Rightarrow> bool" where
  "all_before key xs \<longleftrightarrow> (\<forall>x\<in>set xs. fst x < key)"

definition all_after :: "bytes \<Rightarrow> (bytes \<times> cid) list \<Rightarrow> bool" where
  "all_after key xs \<longleftrightarrow> (\<forall>x\<in>set xs. key < fst x)"

lemma all_before_simps [simp]:
  "all_before key []" "all_before key (xs @ ys) \<longleftrightarrow> all_before key xs \<and> all_before key ys"
  "all_after key []" "all_after key (xs @ ys) \<longleftrightarrow> all_after key xs \<and> all_after key ys"
  by (auto simp: all_before_def all_after_def)

lemma key_order_cases:
  assumes "xs \<noteq> []"
  shows "key_order key xs < 0 \<longleftrightarrow> all_after key xs" "key_order key xs > 0 \<longleftrightarrow> all_before key xs"
proof -
  have "\<not> (all_before key xs \<and> all_after key xs)"
    using assms by (cases xs) (auto simp: all_before_def all_after_def dest: order.asym)
  then show "key_order key xs < 0 \<longleftrightarrow> all_after key xs" "key_order key xs > 0 \<longleftrightarrow> all_before key xs"
    by (auto simp: key_order_def all_before_def all_after_def)
qed

lemma insertion_beyond: "beyond key B \<Longrightarrow> insertion_loop key B i = Inr (i, False)"
  by (cases B) (auto dest: beyond_Cons)

text \<open>The insertion index splits the entries around the key, or names the child that has keys on both sides.\<close>

lemma insertion_index:
  assumes "wf_node h n" "sorted_keys (node_walk n)" "key \<notin> set (keys (node_walk n))"
  obtains (nosplit) A R where "entries n = A @ R" "findInsertionIndex n key = Inr (length A, False)"
      "all_before key (entries_walk A)" "all_after key (entries_walk R)"
  | (split) A e ch B where "entries n = A @ [e] @ B" "findInsertionIndex n key = Inr (length A, True)" "isChild e"
      "echild e = Some ch" "\<not> isValue e" "wf_node (h - 1) ch" "entries ch \<noteq> []"
      "all_before key (entries_walk A)" "all_after key (entries_walk B)"
      "\<not> all_before key (node_walk ch)" "\<not> all_after key (node_walk ch)"
proof -
  obtain A G B where g: "entries n = A @ G @ B" "below key A" "beyond key B" "G = [] \<or> (\<exists>e. G = [e] \<and> isChild e)"
    "wf_entries h (A @ G @ B)" by (rule node_gap [OF assms])
  have st: "findInsertionIndex n key = insertion_loop key (G @ B) (length A)"
    using assms(1) insertion_skip [OF g(5,2), of 0] by (simp add: findInsertionIndex_def g(1) wf_node_iff)
  have w: "all_before key (entries_walk A)" "all_after key (entries_walk B)"
    using g(2,3) by (auto simp: below_def beyond_def all_before_def all_after_def)
  show thesis
  proof (cases "G = []")
    case True
    then show ?thesis using nosplit [of A B] g(1) w st insertion_beyond [OF g(3)] by simp
  next
    case False
    then obtain e where e: "G = [e]" "isChild e" using g(4) by blast
    then obtain ch where ch: "echild e = Some ch" "wf_node (h - 1) ch" "entries ch \<noteq> []" "\<not> isValue e"
      using wf_child [OF g(5), of e] by auto
    have wn: "node_walk n = entries_walk A @ node_walk ch @ entries_walk B"
      using ch by (simp add: node_walk_entries [of n] g(1) e)
    have "sorted_keys (node_walk ch)" "key \<notin> set (keys (node_walk ch))"
      using assms(2,3) wn by (auto simp: sorted_wrt_append)
    note cmp = compareKey_correct [OF ch(2) this ch(3), of False]
    note ord = key_order_cases [OF wf_walk_nonempty(1) [OF ch(2,3)], of key]
    have lp: "insertion_loop key (G @ B) (length A) =
        (if all_after key (node_walk ch) then Inr (length A, False)
         else if all_before key (node_walk ch) then Inr (length A + 1, False) else Inr (length A, True))"
      using ch e cmp ord next_before_beyond [OF g(3)] insertion_beyond [OF g(3)] by auto
    show ?thesis
    proof (cases "all_after key (node_walk ch)")
      case True
      then show ?thesis using nosplit [of A "[e] @ B"] g(1) e ch w lp st by (simp add: node_walk_entries)
    next
      case na: False
      show ?thesis
      proof (cases "all_before key (node_walk ch)")
        case True
        then show ?thesis using nosplit [of "A @ [e]" B] g(1) e ch w lp st na by simp
      next
        case False
        then show ?thesis using split [of A e B ch] g(1) e ch w lp st na by simp
      qed
    qed
  qed
qed

subsection \<open>Splitting a node\<close>

definition lower :: "bytes \<Rightarrow> (bytes \<times> cid) list \<Rightarrow> (bytes \<times> cid) list" where
  "lower key xs = filter (\<lambda>x. fst x < key) xs"

definition upper :: "bytes \<Rightarrow> (bytes \<times> cid) list \<Rightarrow> (bytes \<times> cid) list" where
  "upper key xs = filter (\<lambda>x. key < fst x) xs"

lemma lower_upper_append [simp]:
  "lower key (xs @ ys) = lower key xs @ lower key ys" "upper key (xs @ ys) = upper key xs @ upper key ys"
  "lower key [] = []" "upper key [] = []"
  by (auto simp: lower_def upper_def)

lemma lower_upper_all:
  "all_before key xs \<Longrightarrow> lower key xs = xs \<and> upper key xs = []" "all_after key xs \<Longrightarrow> lower key xs = [] \<and> upper key xs = xs"
  by (auto simp: lower_def upper_def all_before_def all_after_def filter_empty_conv filter_id_conv dest: order.asym)

lemma node_split_correct:
  assumes "wf_node h n" "sorted_keys (node_walk n)" "key \<notin> set (keys (node_walk n))"
    and "\<not> all_before key (node_walk n)" "\<not> all_after key (node_walk n)"
  shows "\<exists>l r. node_split n key = Inr (l, r) \<and> wf_node h l \<and> wf_node h r \<and> entries l \<noteq> [] \<and> entries r \<noteq> [] \<and>
     node_walk l = lower key (node_walk n) \<and> node_walk r = upper key (node_walk n)"
  using assms
proof (induction "size n" arbitrary: n h rule: less_induct)
  case less
  have ne: "entries n \<noteq> []" using less.prems(4) by (auto simp: node_walk_entries [of n])
  have wf: "wf_entries h (entries n)" "nheight n = h" "0 \<le> h" using less.prems(1) by (auto simp: wf_node_iff)
  from less.prems(1-3) show ?case
  proof (cases rule: insertion_index)
    case (nosplit A R)
    have "A \<noteq> []" "R \<noteq> []" using nosplit less.prems(4,5) by (auto simp: node_walk_entries [of n])
    then have "node_split n key = Inr (Node A h True None False, Node R h True None False)"
      using nosplit(1,2) ne wf(2)
      by (subst node_split.simps) (simp add: node_IsEmpty_def splitEntries_def Let_def)
    then show ?thesis
      using wf nosplit \<open>A \<noteq> []\<close> \<open>R \<noteq> []\<close> lower_upper_all [of key]
      by (auto simp: wf_entries_append node_walk_entries [of n])
  next
    case (split A e ch B)
    have w: "node_walk n = entries_walk A @ node_walk ch @ entries_walk B"
      using split by (simp add: node_walk_entries [of n])
    have "size ch < size n" using findInsertionIndex_size split(1,2,4) by fastforce
    moreover have "sorted_keys (node_walk ch)" "key \<notin> set (keys (node_walk ch))"
      using less.prems(2,3) w by (auto simp: sorted_wrt_append)
    ultimately obtain l r where lr: "node_split ch key = Inr (l, r)" "wf_node (h - 1) l" "wf_node (h - 1) r"
      "entries l \<noteq> []" "entries r \<noteq> []" "node_walk l = lower key (node_walk ch)" "node_walk r = upper key (node_walk ch)"
      using less.hyps [of ch "h - 1"] split(6,10,11) by blast
    let ?l = "Node (A @ [childEntry l]) h True None False" and ?r = "Node (childEntry r # B) h True None False"
    have "node_split n key = Inr (?l, ?r)"
      using split(1,2,4) ne wf(2) lr(1) by (subst node_split.simps) (simp add: node_IsEmpty_def)
    moreover have "wf_node h ?l" "wf_node h ?r"
      using wf split(1,3) lr by (auto simp: wf_entries_append)
    moreover have "node_walk ?l = lower key (node_walk n)" "node_walk ?r = upper key (node_walk n)"
      using lower_upper_all [of key] split(8,9) lr(6,7) by (auto simp: w)
    ultimately show ?thesis by fastforce
  qed
qed

subsection \<open>Dirty flags\<close>

text \<open>A tree with all dirty flags cleared.\<close>

fun undirty :: "node \<Rightarrow> node" and undirty_es :: "entry list \<Rightarrow> entry list" where
  "undirty (Node es h d c s) = Node (undirty_es es) h False c s"
| "undirty_es [] = []"
| "undirty_es (e # es) =
     NodeEntry (ekey e) (evalue e) (echildcid e) (case echild e of Some c \<Rightarrow> Some (undirty c) | None \<Rightarrow> None) False #
     undirty_es es"

lemma undirty_append [simp]: "undirty_es (es @ es') = undirty_es es @ undirty_es es'"
  by (induction es) auto

lemma undirty_length [simp]: "length (undirty_es es) = length es"
  by (induction es) auto

lemma undirty_take_drop: "undirty_es (take i es) = take i (undirty_es es)" "undirty_es (drop i es) = drop i (undirty_es es)"
proof -
  have "undirty_es (take i es) @ undirty_es (drop i es) = undirty_es es" by (metis append_take_drop_id undirty_append)
  moreover have "length (undirty_es (take i es)) = length (take i (undirty_es es))" by simp
  ultimately show "undirty_es (take i es) = take i (undirty_es es)" "undirty_es (drop i es) = drop i (undirty_es es)"
    by (metis append_eq_append_conv append_take_drop_id)+
qed

lemma setChild_simps [simp]:
  "ekey (setChild c b e) = ekey e" "evalue (setChild c b e) = evalue e" "echildcid (setChild c b e) = echildcid e"
  "echild (setChild c b e) = Some c" "isValue (setChild c b e) = isValue e" "isChild (setChild c b e)"
  by (cases e; simp add: isValue_def isChild_def)+

lemma undirty_setChild:
  "echild e = Some ch \<Longrightarrow> undirty ch' = undirty ch \<Longrightarrow> undirty_es (setChild ch' b e # es) = undirty_es (e # es)"
  by (cases e) simp

lemma undirty_eqs:
  "undirty (setDirty n) = undirty n" "undirty_es (entries n) = entries (undirty n)" "nheight (undirty n) = nheight n"
  "nstub (undirty n) = nstub n" "ncid (undirty n) = ncid n"
  by (cases n; simp add: setDirty_def)+

lemma compareKey_undirty:
  "undirty (snd (compareKey n key m)) = undirty n"
  "undirty_es (snd (compare_loop es first key m)) = undirty_es es"
proof (induction n key m and es first key m rule: compareKey_compare_loop.induct)
  case (1 es h d c s key m)
  then show ?case by (auto split: prod.splits)
next
  case (3 e es first key m)
  then show ?case
    by (auto split: prod.splits option.splits sum.splits simp: undirty_setChild simp del: undirty_es.simps(2))
      (auto split: prod.splits option.splits)
qed simp

lemma proveMutation_undirty:
  "undirty (snd (proveMutation n key)) = undirty n"
  "undirty_es (snd (prove_loop es key)) = undirty_es es"
proof (induction n key and es key rule: proveMutation_prove_loop.induct)
  case (1 es h d c s key)
  then show ?case by (auto split: prod.splits)
next
  case (3 e es key)
  show ?case
  proof (cases "isChild e \<and> \<not> next_before key es \<and> \<not> (isValue e \<and> key < ekey e)")
    case True
    show ?thesis
    proof (cases "echild e")
      case None
      then show ?thesis using True by auto
    next
      case (Some ch)
      obtain r ch' where ck: "compareKey ch key True = (r, ch')" by fastforce
      have u: "undirty ch' = undirty ch" using compareKey_undirty(1) [of ch key True] ck by simp
      have sc: "undirty_es (setChild x False e # ys) = undirty_es (e # ys)" if "undirty x = undirty ch" for x ys
        by (rule undirty_setChild [OF Some that])
      show ?thesis
      proof (cases r)
        case (Inl err)
        then show ?thesis using True Some ck sc [OF u] by auto
      next
        case (Inr order)
        have p1: "undirty_es (snd (prove_loop es key)) = undirty_es es" if "0 < order"
          using 3(1) [of ch r ch' order] that True Some ck Inr by auto
        have p2: "undirty (snd (proveMutation ch' key)) = undirty ch'" if "\<not> 0 < order" "\<not> order < 0"
          using 3(2) [of ch r ch' order] that True Some ck Inr by auto
        consider "0 < order" | "order < 0" | "order = 0" by linarith
        then show ?thesis
        proof cases
          case 1
          then show ?thesis using True Some ck Inr p1 sc [OF u] by (auto split: prod.splits)
        next
          case 2
          then show ?thesis using True Some ck Inr sc [OF u] by auto
        next
          case 3
          obtain r2 ch2 where pm: "proveMutation ch' key = (r2, ch2)" by fastforce
          then have "undirty ch2 = undirty ch" using p2 3 u by simp
          then show ?thesis using True Some ck Inr 3 sc pm by auto
        qed
      qed
    qed
  next
    case False
    then show ?thesis using 3(3) by (auto split: prod.splits)
  qed
qed simp

lemma walk_undirty: "node_walk (undirty n) = node_walk n" "entries_walk (undirty_es es) = entries_walk es"
proof (induction n and es rule: node_walk_entries_walk.induct)
  case (3 e es)
  then show ?case by (cases "echild e") (auto simp: isValue_def)
qed auto

lemma wf_undirty: "wf_node h (undirty n) = wf_node h n" "wf_entries h (undirty_es es) = wf_entries h es"
proof (induction n and es arbitrary: h and h rule: undirty_undirty_es.induct)
  case (3 e es)
  have "es = [] \<or> \<not> isChild (hd (undirty_es es)) \<longleftrightarrow> es = [] \<or> \<not> isChild (hd es)"
    by (cases es) (auto simp: isChild_def split: option.splits)
  moreover have "entries (undirty c) = [] \<longleftrightarrow> entries c = []" for c
    by (metis undirty_eqs(2) undirty_length length_0_conv)
  moreover have "undirty_es es = [] \<longleftrightarrow> es = []" by (metis undirty_length length_0_conv)
  ultimately show ?case using 3 by (cases "echild e") (auto simp: isChild_def isValue_def)
qed auto

text \<open>Nodes that differ in dirty flags only.\<close>

lemma same_undirty:
  assumes "undirty n' = undirty n"
  shows "node_walk n' = node_walk n" "wf_node h n' = wf_node h n" "length (entries n') = length (entries n)"
    "undirty_es (entries n') = undirty_es (entries n)" "nheight n' = nheight n" "nstub n' = nstub n"
  using assms walk_undirty(1) wf_undirty(1) undirty_eqs by (metis undirty_length)+

lemma undirty_parts:
  assumes "undirty_es es' = undirty_es (A @ R)"
  obtains A' R' where "es' = A' @ R'" "length A' = length A" "undirty_es A' = undirty_es A" "undirty_es R' = undirty_es R"
proof
  let ?A = "take (length A) es'" and ?R = "drop (length A) es'"
  show "es' = ?A @ ?R" by simp
  have "length es' = length (A @ R)" using assms by (metis undirty_length)
  then show "length ?A = length A" by simp
  show "undirty_es ?A = undirty_es A" "undirty_es ?R = undirty_es R"
    using assms by (simp_all add: undirty_take_drop)
qed

lemma undirty_single:
  assumes "undirty_es es' = undirty_es [e]"
  obtains e' where "es' = [e']" "isChild e' = isChild e" "isValue e' = isValue e" "ekey e' = ekey e" "evalue e' = evalue e"
    "\<And>c. echild e = Some c \<Longrightarrow> \<exists>c'. echild e' = Some c' \<and> undirty c' = undirty c"
proof -
  have "length es' = 1" using assms by (metis undirty_length One_nat_def length_Cons list.size(3))
  then obtain e' where e': "es' = [e']" by (metis One_nat_def Suc_length_conv length_0_conv)
  then have "ekey e' = ekey e" "evalue e' = evalue e" "echildcid e' = echildcid e"
    "(case echild e' of Some c \<Rightarrow> Some (undirty c) | None \<Rightarrow> None) = (case echild e of Some c \<Rightarrow> Some (undirty c) | None \<Rightarrow> None)"
    using assms by auto
  with e' that [of e'] show thesis by (auto simp: isChild_def isValue_def split: option.splits)
qed

lemma prove_ok:
  assumes "wf_node h n" "sorted_keys (node_walk n)" "key \<notin> set (keys (node_walk n))"
  shows "fst (proveMutation n key) = None"
  using assms
proof (induction "size n" arbitrary: n h rule: less_induct)
  case less
  obtain es H d c s where n: "n = Node es H d c s" by (cases n)
  obtain A G B where g: "entries n = A @ G @ B" "below key A" "beyond key B" "G = [] \<or> (\<exists>e. G = [e] \<and> isChild e)"
    "wf_entries h (A @ G @ B)" by (rule node_gap [OF less.prems])
  have B: "prove_loop B key = (None, B)" using beyond_Cons g(3) by (cases B) auto
  have "fst (prove_loop (G @ B) key) = None"
  proof (cases "G = []")
    case True
    then show ?thesis using B by simp
  next
    case False
    then obtain e where e: "G = [e]" "isChild e" using g(4) by blast
    then obtain ch where ch: "echild e = Some ch" "wf_node (h - 1) ch" "entries ch \<noteq> []" "\<not> isValue e"
      using wf_child [OF g(5), of e] by auto
    have w: "node_walk n = entries_walk A @ node_walk ch @ entries_walk B"
      using ch by (simp add: node_walk_entries [of n] g(1) e)
    have s: "sorted_keys (node_walk ch)" "key \<notin> set (keys (node_walk ch))"
      using less.prems(2,3) w by (auto simp: sorted_wrt_append)
    obtain ch' where ck: "compareKey ch key True = (Inr (key_order key (node_walk ch)), ch')"
      using compareKey_correct [OF ch(2) s ch(3), of True] by (cases "compareKey ch key True") auto
    have u: "undirty ch' = undirty ch" using compareKey_undirty(1) [of ch key True] ck by simp
    have "size ch' < size n"
      using size_nth_child [of "length A" es ch] ch(1) compareKey_size(1) [of ch key True] ck g(1) by (simp add: n e)
    then have "fst (proveMutation ch' key) = None"
      using less.hyps [of ch' "h - 1"] ch(2) s same_undirty(1,2) [OF u] by simp
    then show ?thesis
      using e ch ck B next_before_beyond [OF g(3)] by (auto split: prod.splits)
  qed
  then show ?case using prove_skip [OF g(5,2)] g(1) by (simp add: n split: prod.splits)
qed

subsection \<open>Insertion\<close>

text \<open>The specification: insertion into a sorted association list.\<close>

definition ins :: "bytes \<Rightarrow> cid \<Rightarrow> (bytes \<times> cid) list \<Rightarrow> (bytes \<times> cid) list" where
  "ins key val xs = lower key xs @ (key, val) # upper key xs"

lemma ins_around:
  "all_before key xs \<Longrightarrow> all_after key zs \<Longrightarrow> ins key val (xs @ ys @ zs) = xs @ ins key val ys @ zs"
  "all_before key xs \<Longrightarrow> all_after key zs \<Longrightarrow> ins key val (xs @ zs) = xs @ (key, val) # zs"
  using lower_upper_all [of key] by (simp_all add: ins_def)

lemma ins_sorted: "sorted_keys xs \<Longrightarrow> sorted_keys (ins key val xs)"
  by (auto simp: ins_def lower_def upper_def sorted_wrt_append sorted_wrt_map sorted_wrt_filter)

lemma map_of_lower_upper:
  "map_of (lower key xs) x = (if x < key then map_of xs x else None)"
  "map_of (upper key xs) x = (if key < x then map_of xs x else None)"
  by (induction xs) (auto simp: lower_def upper_def)

lemma map_of_ins: "map_of (ins key val xs) = (map_of xs)(key \<mapsto> val)"
proof
  fix x
  show "map_of (ins key val xs) x = ((map_of xs)(key \<mapsto> val)) x"
    using linorder_neqE [of x key] by (auto simp: ins_def map_add_def map_of_lower_upper split: option.splits)
qed

lemma sorted_split_at:
  assumes "sorted_keys (xs @ (key, v) # zs)"
  shows "all_before key xs" "all_after key zs" "map_of (xs @ (key, v) # zs) key = Some v"
    "ins key val (xs @ (key, v) # zs) = xs @ (key, val) # zs"
proof -
  show b: "all_before key xs" and a: "all_after key zs"
    using assms by (auto simp: sorted_wrt_append all_before_def all_after_def)
  then show "map_of (xs @ (key, v) # zs) key = Some v"
    by (auto simp: map_add_Some_iff map_of_eq_None_iff all_before_def)
  have "ins key val [(key, v)] = [(key, val)]" by (simp add: ins_def lower_def upper_def)
  then show "ins key val (xs @ (key, v) # zs) = xs @ (key, val) # zs"
    using ins_around(1) [OF b a, of val "[(key, v)]"] by simp
qed

lemma ins_same:
  assumes "sorted_keys xs" "map_of xs key = Some val"
  shows "ins key val xs = xs"
proof -
  obtain ys zs where "xs = ys @ (key, val) # zs" using map_of_SomeD [OF assms(2)] by (meson split_list)
  then show ?thesis using sorted_split_at(4) [of ys key val zs val] assms(1) by simp
qed

lemma map_of_around:
  assumes "all_before key xs" "all_after key zs"
  shows "map_of (xs @ ys @ zs) key = map_of ys key"
proof -
  have "map_of xs key = None" "map_of zs key = None"
    using assms by (auto simp: map_of_eq_None_iff all_before_def all_after_def)
  then show ?thesis by (simp add: map_add_def split: option.splits)
qed

lemma find_entry_loop_spec:
  "case find_entry_loop key es i of
     Some j \<Rightarrow> \<exists>A e B. es = A @ e # B \<and> j = i + length A \<and> isValue e \<and> ekey e = key
   | None \<Rightarrow> \<forall>e\<in>set es. isValue e \<longrightarrow> ekey e \<noteq> key"
proof (induction es arbitrary: i)
  case (Cons e es)
  show ?case
  proof (cases "isValue e \<and> key = ekey e")
    case True
    then show ?thesis by (auto intro!: exI [of _ "[]"])
  next
    case False
    then have step: "find_entry_loop key (e # es) i = find_entry_loop key es (i + 1)" by auto
    show ?thesis
    proof (cases "find_entry_loop key es (i + 1)")
      case None
      then show ?thesis using Cons [of "i + 1"] False step by auto
    next
      case (Some j)
      then obtain A e' B where "es = A @ e' # B" "j = i + 1 + length A" "isValue e'" "ekey e' = key"
        using Cons [of "i + 1"] by auto
      then show ?thesis unfolding step Some by (auto intro!: exI [of _ "e # A"])
    qed
  qed
qed simp

text \<open>A key of the height of a node is in the subtree only as a value of that node.\<close>

lemma key_at_level:
  assumes "wf_node h n" "HeightForKey key = h" "\<forall>e\<in>set (entries n). isValue e \<longrightarrow> ekey e \<noteq> key"
  shows "key \<notin> set (keys (node_walk n))"
proof -
  have "wf_entries h es \<Longrightarrow> \<forall>e\<in>set es. isValue e \<longrightarrow> ekey e \<noteq> key \<Longrightarrow> key \<notin> set (keys (entries_walk es))" for es
  proof (induction es)
    case (Cons e es)
    have "key \<notin> set (keys (entries_walk [e]))"
    proof (cases "isChild e")
      case True
      then obtain c where c: "echild e = Some c" "wf_node (h - 1) c" "\<not> isValue e"
        using wf_child [OF Cons.prems(1), of e] by auto
      have "\<forall>x\<in>set (node_walk c). HeightForKey (fst x) \<noteq> h" using wf_heights(1) [OF c(2)] by force
      then show ?thesis using c assms(2) by auto
    next
      case False
      then show ?thesis using Cons.prems(2) by (auto simp: isChild_def)
    qed
    then show ?case using Cons by auto
  qed simp
  then show ?thesis using assms(1,3) by (simp add: wf_node_iff node_walk_entries)
qed

lemma wf_entries_setValue:
  "wf_entries h (A @ e # B) \<Longrightarrow> isValue e \<Longrightarrow> wf_entries h (A @ setValue val e # B) \<and>
     entries_walk (A @ setValue val e # B) = entries_walk A @ (ekey e, val) # entries_walk B"
proof -
  assume a: "wf_entries h (A @ e # B)" "isValue e"
  then have "\<not> isChild e" using wf_either [OF a(1), of e] by simp
  moreover from this have "echild e = None" by (simp add: isChild_def)
  moreover obtain k v cc c d where "e = NodeEntry k v cc c d" by (cases e)
  ultimately show ?thesis using a by (auto simp: wf_entries_append isValue_def isChild_def)
qed

lemma isChild_undirty:
  assumes "es \<noteq> []"
  shows "isChild (hd (undirty_es es)) = isChild (hd es)" "isChild (last (undirty_es es)) = isChild (last es)"
proof -
  have c: "isChild (hd (undirty_es [e])) = isChild e" for e by (cases "echild e") (simp_all add: isChild_def)
  show "isChild (hd (undirty_es es)) = isChild (hd es)" using assms c by (cases es) simp_all
  show "isChild (last (undirty_es es)) = isChild (last es)" using assms c by (cases es rule: rev_cases) simp_all
qed

lemma undirty_ends:
  assumes "undirty_es es' = undirty_es es"
  shows "es' = [] \<longleftrightarrow> es = []" "es \<noteq> [] \<Longrightarrow> isChild (last es') = isChild (last es)" "es \<noteq> [] \<Longrightarrow> isChild (hd es') = isChild (hd es)"
proof -
  show e: "es' = [] \<longleftrightarrow> es = []" using assms by (metis undirty_length length_0_conv)
  assume ne: "es \<noteq> []"
  then show "isChild (last es') = isChild (last es)" "isChild (hd es') = isChild (hd es)"
    using isChild_undirty [of es] isChild_undirty [of es'] e by (simp_all add: assms)
qed

lemma HeightForKey_nonneg: "0 \<le> HeightForKey key"
proof -
  have "h \<le> height_loop bs h" for bs h by (induction bs h rule: height_loop.induct) auto
  then show ?thesis by (simp add: HeightForKey_def)
qed

text \<open>What an insertion into a node must return.\<close>

definition insert_ok :: "int \<Rightarrow> bytes \<Rightarrow> cid \<Rightarrow> node \<Rightarrow> (mst_error, node \<times> cid option) result \<Rightarrow> bool" where
  "insert_ok h key val n res \<longleftrightarrow> (\<exists>n'. res = Inr (n', map_of (node_walk n) key) \<and> wf_node h n' \<and> entries n' \<noteq> [] \<and>
     node_walk n' = ins key val (node_walk n))"

lemma insert_okI:
  "wf_node h n' \<Longrightarrow> entries n' \<noteq> [] \<Longrightarrow> node_walk n' = ins key val (node_walk n) \<Longrightarrow> prev = map_of (node_walk n) key \<Longrightarrow>
     insert_ok h key val n (Inr (n', prev))"
  unfolding insert_ok_def by blast

lemma insert_here_existing:
  assumes "wf_node h n" "sorted_keys (node_walk n)" "findExistingEntry n key = Some idx"
  shows "insert_ok h key val n (insert_here n key val)"
proof -
  obtain A e B where e: "entries n = A @ e # B" "idx = length A" "isValue e" "ekey e = key"
    using find_entry_loop_spec [where key = key and es = "entries n" and i = 0] assms(3) by (auto simp: findExistingEntry_def)
  have wf: "wf_entries h (A @ e # B)" "\<not> nstub n" "nheight n = h" "0 \<le> h" using assms(1) e(1) by (auto simp: wf_node_iff)
  have "\<not> isChild e" using wf_either [OF wf(1), of e] e(3) by simp
  then have c: "echild e = None" by (simp add: isChild_def)
  have w: "node_walk n = entries_walk A @ (key, the (evalue e)) # entries_walk B"
    using e c by (simp add: node_walk_entries [of n])
  note sp = sorted_split_at [OF assms(2) [unfolded w]]
  note sv = wf_entries_setValue [OF wf(1) e(3), of val]
  obtain v where ev: "evalue e = Some v" using e(3) by (auto simp: isValue_def)
  show ?thesis
  proof (cases "the (evalue e) = val")
    case True
    then have "insert_here n key val = Inr (n, Some val)"
      using assms(3) e(1,2) by (simp add: insert_here_def)
    then show ?thesis
      using insert_okI [of h n key val n "Some val"] assms(1) e(1) sp(3,4) w True by simp
  next
    case False
    then have "insert_here n key val = Inr (setDirty (setEntries (A @ setValue val e # B) n), evalue e)"
      using assms(3) e(1,2) by (simp add: insert_here_def)
    moreover have "wf_node h (setDirty (setEntries (A @ setValue val e # B) n))"
      using sv wf by (simp add: wf_node_iff)
    moreover have "node_walk (setDirty (setEntries (A @ setValue val e # B) n)) = ins key val (node_walk n)"
      using sv e(4) sp(4) w by (simp add: node_walk_entries)
    ultimately show ?thesis
      using insert_okI [of h _ key val n "evalue e"] sp(3) w ev by simp
  qed
qed

lemma insert_here_new:
  assumes "wf_node h n" "sorted_keys (node_walk n)" "HeightForKey key = h" "key \<noteq> []" "findExistingEntry n key = None"
  shows "insert_ok h key val n (insert_here n key val)"
proof -
  have "\<forall>e\<in>set (entries n). isValue e \<longrightarrow> ekey e \<noteq> key"
    using find_entry_loop_spec [where key = key and es = "entries n" and i = 0] assms(5) by (simp add: findExistingEntry_def)
  then have fresh: "key \<notin> set (keys (node_walk n))" by (rule key_at_level [OF assms(1,3)])
  then have none: "map_of (node_walk n) key = None" by (simp add: map_of_eq_None_iff)
  have wf: "wf_entries h (entries n)" "0 \<le> h" using assms(1) by (auto simp: wf_node_iff)
  obtain m where m: "proveMutation (setDirty n) key = (None, m)"
    using prove_ok [of h "setDirty n" key] assms(1,2) fresh
    by (cases "proveMutation (setDirty n) key") (simp add: wf_node_iff node_walk_entries)
  then have "undirty m = undirty n" using proveMutation_undirty(1) [of "setDirty n" key] by (simp add: undirty_eqs)
  note u = same_undirty [OF this]
  from assms(1,2) fresh show ?thesis
  proof (cases rule: insertion_index)
    case (nosplit A R)
    then obtain A' R' where p: "entries m = A' @ R'" "length A' = length A" "undirty_es A' = undirty_es A"
      "undirty_es R' = undirty_es R" using undirty_parts [of "entries m" A R] u(4) by auto
    have "wf_entries h A'" "wf_entries h R'"
      using wf(1) nosplit(1) p(3,4) by (metis wf_entries_append wf_undirty(2))+
    moreover have "entries_walk A' = entries_walk A" "entries_walk R' = entries_walk R" using p(3,4) by (metis walk_undirty(2))+
    moreover have "insert_here n key val = Inr (setEntries (A' @ [valueEntry key val] @ R') m, None)"
      using assms(5) nosplit(2) m p(1,2) by (simp add: insert_here_def)
    moreover from calculation have "wf_node h (setEntries (A' @ [valueEntry key val] @ R') m)"
      using assms(1,3,4) u(5,6) by (simp add: wf_node_iff wf_entries_append)
    moreover from calculation have "node_walk (setEntries (A' @ [valueEntry key val] @ R') m) = ins key val (node_walk n)"
      using ins_around(2) [of key "entries_walk A" "entries_walk R" val] nosplit assms(4) by (simp add: node_walk_entries)
    ultimately show ?thesis by (simp add: none insert_okI)
  next
    case (split A e ch B)
    then obtain A' R' where p: "entries m = A' @ R'" "length A' = length A" "undirty_es A' = undirty_es A"
      "undirty_es R' = undirty_es ([e] @ B)" using undirty_parts [of "entries m" A "[e] @ B"] u(4) by auto
    obtain E' B' where q: "R' = E' @ B'" "length E' = 1" "undirty_es E' = undirty_es [e]" "undirty_es B' = undirty_es B"
      using undirty_parts [OF p(4)] by auto
    obtain e' ch' where e': "E' = [e']" and ch': "echild e' = Some ch'" "undirty ch' = undirty ch"
      using undirty_single [OF q(3)] split(4) by metis
    note uc = same_undirty(1,2) [OF ch'(2)]
    have w: "node_walk n = entries_walk A @ node_walk ch @ entries_walk B"
      using split by (simp add: node_walk_entries [of n])
    have "sorted_keys (node_walk ch')" "key \<notin> set (keys (node_walk ch'))"
      using assms(2) fresh w uc(1) by (auto simp: sorted_wrt_append)
    then obtain l r where lr: "node_split ch' key = Inr (l, r)" "wf_node (h - 1) l" "wf_node (h - 1) r"
      "entries l \<noteq> []" "entries r \<noteq> []" "node_walk l = lower key (node_walk ch)" "node_walk r = upper key (node_walk ch)"
      using node_split_correct [of "h - 1" ch' key] split(6,10,11) uc by auto
    have ws: "wf_entries h A'" "wf_entries h B'"
      using wf(1) split(1) p(3) q(4) by (metis append_assoc wf_entries_append wf_undirty(2))+
    have "entries_walk A' = entries_walk A" "entries_walk B' = entries_walk B" using p(3) q(4) by (metis walk_undirty(2))+
    moreover have "isChild e" "wf_entries h (A @ [e] @ B)" using split wf(1) by auto
    then have adj: "A' = [] \<or> \<not> isChild (last A')" "B' = [] \<or> \<not> isChild (hd B')"
      using p(3) q(4) undirty_ends [of A' A] undirty_ends [of B' B] by (auto simp: wf_entries_append)
    moreover have "insert_here n key val =
        Inr (setEntries (A' @ [childEntry l, valueEntry key val, childEntry r] @ B') m, None)"
      using assms(5) split(2) m p(1) p(2) [symmetric] q(1) e' ch'(1) lr(1) by (simp add: insert_here_def)
    moreover have "wf_node h (setEntries (A' @ [childEntry l, valueEntry key val, childEntry r] @ B') m)"
      using assms(1,3,4) u(5,6) ws adj lr(2-5) by (simp add: wf_node_iff wf_entries_append)
    moreover have "ins key val (node_walk n) = entries_walk A @ ins key val (node_walk ch) @ entries_walk B"
      unfolding w using split(8,9) by (rule ins_around(1))
    with calculation(1,2) have "node_walk (setEntries (A' @ [childEntry l, valueEntry key val, childEntry r] @ B') m) =
        ins key val (node_walk n)"
      using lr(6,7) assms(4) by (simp add: ins_def)
    ultimately show ?thesis by (simp add: none insert_okI)
  qed
qed

lemma replace_child:
  assumes "wf_entries h (A @ [e] @ B)" "isChild e" "wf_node (h - 1) c'" "entries c' \<noteq> []"
  shows "wf_entries h (A @ [setChild c' b e] @ B)"
    "entries_walk (A @ [setChild c' b e] @ B) = entries_walk A @ node_walk c' @ entries_walk B"
proof -
  have "\<not> isValue e" using wf_child [OF assms(1), of e] assms(2) by auto
  then show "wf_entries h (A @ [setChild c' b e] @ B)"
    "entries_walk (A @ [setChild c' b e] @ B) = entries_walk A @ node_walk c' @ entries_walk B"
    using assms by (simp_all add: wf_entries_append)
qed

text \<open>A key below the height of a node, in terms of its gap.\<close>

lemma key_below:
  assumes "wf_node h n" "sorted_keys (node_walk n)" "HeightForKey key < h"
  obtains (child) A e c B where "entries n = A @ [e] @ B" "findExistingChild n key = Some (length A)" "isChild e"
      "echild e = Some c" "wf_node (h - 1) c" "entries c \<noteq> []" "\<not> isValue e"
      "node_walk n = entries_walk A @ node_walk c @ entries_walk B"
      "all_before key (entries_walk A)" "all_after key (entries_walk B)"
  | (nochild) A B where "entries n = A @ B" "findExistingChild n key = None"
      "findInsertionIndex n key = Inr (length A, False)" "A = [] \<or> \<not> isChild (last A)" "B = [] \<or> \<not> isChild (hd B)"
      "all_before key (entries_walk A)" "all_after key (entries_walk B)"
proof -
  have wf: "wf_entries h (entries n)" "\<not> nstub n" using assms(1) by (auto simp: wf_node_iff)
  have "\<forall>e\<in>set (entries n). isValue e \<longrightarrow> ekey e \<noteq> key"
    using wf_value [OF wf(1)] wf_either [OF wf(1)] assms(3) by fastforce
  with gap_exists [OF wf(1)] assms(2) obtain A G B where g: "entries n = A @ G @ B" "below key A" "beyond key B"
    "G = [] \<or> (\<exists>e. G = [e] \<and> isChild e)" unfolding node_walk_entries by blast
  have wfg: "wf_entries h (A @ G @ B)" using wf(1) g(1) by simp
  have w: "all_before key (entries_walk A)" "all_after key (entries_walk B)"
    using g(2,3) by (auto simp: below_def beyond_def all_before_def all_after_def)
  have B: "find_child_loop key B i idx = idx" for i idx
    using beyond_Cons [of key "hd B" "tl B"] g(3) wf_either [OF wfg, of "hd B"] by (cases B) auto
  have fc: "findExistingChild n key = find_child_loop key (G @ B) (length A) None"
    using find_child_skip [OF wfg g(2), of 0 None] by (simp add: findExistingChild_def g(1))
  show thesis
  proof (cases "G = []")
    case True
    have "findInsertionIndex n key = Inr (length A, False)"
      using insertion_skip [OF wfg g(2), of 0] insertion_beyond [OF g(3)] wf(2) True
      by (simp add: findInsertionIndex_def g(1))
    moreover have "A = [] \<or> \<not> isChild (last A)" "B = [] \<or> \<not> isChild (hd B)"
      using g(2,3) wf_either [OF wfg, of "last A"] wf_either [OF wfg, of "hd B"] by (auto simp: below_def beyond_def)
    ultimately show ?thesis using nochild [of A B] True g(1) fc B w by simp
  next
    case False
    then obtain e where e: "G = [e]" "isChild e" using g(4) by blast
    then obtain c where c: "echild e = Some c" "wf_node (h - 1) c" "entries c \<noteq> []" "\<not> isValue e"
      using wf_child [OF wfg, of e] by auto
    then have "node_walk n = entries_walk A @ node_walk c @ entries_walk B" by (simp add: node_walk_entries [of n] g(1) e)
    then show ?thesis using child [of A e B c] g(1) fc B w e c by simp
  qed
qed

lemma insert_down:
  assumes "wf_node h n" "sorted_keys (node_walk n)" "HeightForKey key \<le> h" "key \<noteq> []"
  shows "insert_ok h key val n (insert_node n key val (HeightForKey key))"
  using assms
proof (induction "nat h" arbitrary: n h rule: less_induct)
  case less
  have wf: "wf_entries h (entries n)" "\<not> nstub n" "nheight n = h" "0 \<le> h" using less.prems(1) by (auto simp: wf_node_iff)
  have kh: "key_height key (HeightForKey key) = HeightForKey key" using HeightForKey_nonneg [of key] by (simp add: key_height_def)
  show ?case
  proof (cases "HeightForKey key = h")
    case True
    then have "insert_node n key val (HeightForKey key) = insert_here n key val"
      using wf kh by (subst insert_node.simps) simp
    then show ?thesis
      using insert_here_existing insert_here_new less.prems True by (cases "findExistingEntry n key") metis+
  next
    case False
    then have lt: "HeightForKey key < h" "nat (h - 1) < nat h"
      using less.prems(3) wf(4) HeightForKey_nonneg [of key] by auto
    have st: "insert_node n key val (HeightForKey key) = insertChild n key val (HeightForKey key)"
      using wf kh lt by (subst insert_node.simps) simp
    from less.prems(1,2) lt(1) show ?thesis
    proof (cases rule: key_below)
      case (child A e c B)
      have "sorted_keys (node_walk c)" using less.prems(2) child(8) by (simp add: sorted_wrt_append)
      from less.hyps [OF lt(2) child(5) this] lt less.prems(4) obtain c' where
        c': "insert_node c key val (HeightForKey key) = Inr (c', map_of (node_walk c) key)" "wf_node (h - 1) c'"
        "entries c' \<noteq> []" "node_walk c' = ins key val (node_walk c)" by (auto simp: insert_ok_def)
      note mo = map_of_around [OF child(9,10), of "node_walk c", folded child(8)]
      note ia = ins_around(1) [OF child(9,10), of val "node_walk c", folded child(8)]
      show ?thesis
      proof (cases "map_of (node_walk c) key = Some val")
        case True
        then have "insertChild n key val (HeightForKey key) = Inr (n, Some val)"
          using child(1,2,4) c'(1) by (subst insertChild.simps) simp
        moreover have "ins key val (node_walk n) = node_walk n" using ins_same [OF less.prems(2)] mo True by simp
        ultimately show ?thesis
          unfolding st using insert_okI [OF less.prems(1), of key val n "Some val"] child(1) mo True by simp
      next
        case False
        let ?n = "setDirty (setEntries (A @ [setChild c' True e] @ B) n)"
        have "insertChild n key val (HeightForKey key) = Inr (?n, map_of (node_walk c) key)"
          using child(1,2,4) c'(1) False by (subst insertChild.simps) simp
        moreover note replace_child [OF wf(1) [unfolded child(1)] child(3) c'(2,3), of True]
        then have "wf_node h ?n" "node_walk ?n = ins key val (node_walk n)"
          using wf c'(4) ia by (simp_all add: wf_node_iff)
        ultimately show ?thesis using st mo by (simp add: insert_okI)
      qed
    next
      case (nochild A B)
      let ?c = "Node [] (h - 1) True None False"
      have "wf_node (h - 1) ?c" using lt HeightForKey_nonneg [of key] by simp
      from less.hyps [OF lt(2) this] lt less.prems(4) obtain c' where
        c': "insert_node ?c key val (HeightForKey key) = Inr (c', None)" "wf_node (h - 1) c'"
        "entries c' \<noteq> []" "node_walk c' = [(key, val)]" by (auto simp: insert_ok_def ins_def)
      let ?n = "setDirty (setEntries (A @ [childEntry c'] @ B) n)"
      have "insertChild n key val (HeightForKey key) = Inr (?n, None)"
        using nochild(1-3) c'(1) wf(3) by (subst insertChild.simps) simp
      moreover have "wf_node h ?n"
        using wf nochild(1,4,5) c'(2,3) by (auto simp: wf_node_iff wf_entries_append)
      moreover have w: "node_walk n = entries_walk A @ entries_walk B" by (simp add: node_walk_entries [of n] nochild(1))
      then have "node_walk ?n = ins key val (node_walk n)"
        using ins_around(2) [OF nochild(6,7), of val] c'(4) by simp
      moreover have "map_of (node_walk n) key = None"
        using map_of_around [OF nochild(6,7), of "[]"] w by simp
      ultimately show ?thesis using st by (simp add: insert_okI)
    qed
  qed
qed

lemma insert_up:
  assumes "wf_node h n" "sorted_keys (node_walk n)" "h \<le> HeightForKey key" "key \<noteq> []"
  shows "insert_ok (HeightForKey key) key val n (insert_node n key val (HeightForKey key))"
  using assms
proof (induction "nat (HeightForKey key - h)" arbitrary: n h rule: less_induct)
  case less
  have kh: "key_height key (HeightForKey key) = HeightForKey key" using HeightForKey_nonneg [of key] by (simp add: key_height_def)
  have wf: "\<not> nstub n" "nheight n = h" "0 \<le> h" using less.prems(1) by (auto simp: wf_node_iff)
  show ?case
  proof (cases "HeightForKey key = h")
    case True
    then show ?thesis using insert_down [OF less.prems(1,2) _ less.prems(4)] by simp
  next
    case False
    then have st: "insert_node n key val (HeightForKey key) =
        insert_node (insertParent n (HeightForKey key)) key val (HeightForKey key)"
      using wf kh less.prems(3) by (subst insert_node.simps) simp
    have w: "node_walk (insertParent n (HeightForKey key)) = node_walk n"
      by (simp add: insertParent_def node_IsEmpty_def node_walk_entries [of n])
    show ?thesis
    proof (cases "entries n = []")
      case True
      then have "wf_node (HeightForKey key) (insertParent n (HeightForKey key))"
        using HeightForKey_nonneg [of key] by (simp add: insertParent_def node_IsEmpty_def)
      from insert_down [OF this, of key val] show ?thesis
        using st w less.prems(2,4) by (simp add: insert_ok_def)
    next
      case ne: False
      then have "wf_node (h + 1) (insertParent n (HeightForKey key))"
        using less.prems(1) wf by (simp add: insertParent_def node_IsEmpty_def)
      from less.hyps [OF _ this] show ?thesis
        using st w less.prems(2-4) False by (simp add: insert_ok_def)
    qed
  qed
qed

lemma insert_node_correct:
  assumes "wf_node h n" "sorted_keys (node_walk n)" "key \<noteq> []"
  shows "insert_ok (max h (HeightForKey key)) key val n (insert_node n key val (-1))"
proof -
  have "insert_node n key val (-1) = insert_node n key val (HeightForKey key)"
    using HeightForKey_nonneg [of key]
    by (subst (1 2) insert_node.simps) (simp add: key_height_def)
  then show ?thesis
    using insert_up [OF assms(1,2) _ assms(3)] insert_down [OF assms(1,2) _ assms(3)]
    by (cases "h \<le> HeightForKey key") (simp_all add: max_def)
qed

subsection \<open>Lookup\<close>

lemma getCID_correct:
  assumes "wf_node h n" "sorted_keys (node_walk n)" "0 \<le> height" "height = HeightForKey key"
  shows "getCID n key height = Inr (map_of (node_walk n) key)"
  using assms
proof (induction "nat h" arbitrary: n h rule: less_induct)
  case less
  have wf: "wf_entries h (entries n)" "\<not> nstub n" "nheight n = h" "0 \<le> h" using less.prems(1) by (auto simp: wf_node_iff)
  consider "height > h" | "height = h" | "height < h" by linarith
  then show ?case
  proof cases
    case 1
    have "key \<notin> set (keys (node_walk n))" using wf_heights(1) [OF less.prems(1)] 1 less.prems(4) by fastforce
    then have "map_of (node_walk n) key = None" by (simp add: map_of_eq_None_iff)
    then show ?thesis using 1 wf less.prems(3) by (subst getCID.simps) simp
  next
    case 2
    show ?thesis
    proof (cases "findExistingEntry n key")
      case None
      then have "\<forall>e\<in>set (entries n). isValue e \<longrightarrow> ekey e \<noteq> key"
        using find_entry_loop_spec [where key = key and es = "entries n" and i = 0] by (simp add: findExistingEntry_def)
      then have "map_of (node_walk n) key = None"
        using key_at_level [OF less.prems(1)] 2 less.prems(4) by (simp add: map_of_eq_None_iff)
      then show ?thesis using 2 None wf less.prems(3) by (subst getCID.simps) simp
    next
      case (Some idx)
      then obtain A e B where e: "entries n = A @ e # B" "idx = length A" "isValue e" "ekey e = key"
        using find_entry_loop_spec [where key = key and es = "entries n" and i = 0] by (auto simp: findExistingEntry_def)
      have "echild e = None" using wf_either [OF wf(1), of e] e by (auto simp: isChild_def)
      then have "node_walk n = entries_walk A @ (key, the (evalue e)) # entries_walk B"
        using e by (simp add: node_walk_entries [of n])
      then have "map_of (node_walk n) key = evalue e"
        using sorted_split_at(3) less.prems(2) e(3) by (auto simp: isValue_def)
      then show ?thesis using 2 Some wf less.prems(3) e(1,2) by (subst getCID.simps) simp
    qed
  next
    case 3
    then have lt: "HeightForKey key < h" "nat (h - 1) < nat h" using less.prems(3,4) by auto
    from less.prems(1,2) lt(1) show ?thesis
    proof (cases rule: key_below)
      case (child A e c B)
      have "sorted_keys (node_walk c)" using less.prems(2) child(8) by (simp add: sorted_wrt_append)
      from less.hyps [OF lt(2) child(5) this less.prems(3,4)] show ?thesis
        using 3 wf less.prems(3) child(1,2,4) map_of_around [OF child(9,10), of "node_walk c", folded child(8)]
        by (subst getCID.simps) simp
    next
      case (nochild A B)
      have "map_of (node_walk n) key = None"
        using map_of_around [OF nochild(6,7), of "[]"] by (simp add: node_walk_entries [of n] nochild(1))
      then show ?thesis using 3 wf less.prems(3) nochild(2) by (subst getCID.simps) simp
    qed
  qed
qed

subsection \<open>Removal\<close>

definition del :: "bytes \<Rightarrow> (bytes \<times> cid) list \<Rightarrow> (bytes \<times> cid) list" where
  "del key xs = filter (\<lambda>x. fst x \<noteq> key) xs"

lemma del_append [simp]: "del key (xs @ ys) = del key xs @ del key ys"
  by (simp add: del_def)

lemma del_none: "key \<notin> set (keys xs) \<Longrightarrow> del key xs = xs"
  by (auto simp: del_def filter_id_conv)

lemma del_map_of: "map_of xs key = None \<Longrightarrow> del key xs = xs"
  by (intro del_none) (simp add: map_of_eq_None_iff)

lemma del_around:
  assumes "all_before key xs" "all_after key zs"
  shows "del key (xs @ ys @ zs) = xs @ del key ys @ zs"
proof -
  have "key \<notin> set (keys xs)" "key \<notin> set (keys zs)" using assms by (auto simp: all_before_def all_after_def)
  then show ?thesis by (simp add: del_none)
qed

lemma del_sorted: "sorted_keys xs \<Longrightarrow> sorted_keys (del key xs)"
  by (simp add: del_def sorted_wrt_map sorted_wrt_filter)

lemma map_of_del: "map_of (del key xs) = (map_of xs)(key := None)"
  by (induction xs) (auto simp: del_def)

lemma mergeNodes_correct:
  assumes "wf_node h l" "wf_node h r" "entries l \<noteq> []" "entries r \<noteq> []"
  shows "\<exists>m. mergeNodes l r = Inr m \<and> wf_node h m \<and> entries m \<noteq> [] \<and> node_walk m = node_walk l @ node_walk r"
  using assms
proof (induction "size l" arbitrary: l r h rule: less_induct)
  case less
  obtain L x where L: "entries l = L @ [x]" using less.prems(3) by (cases "entries l" rule: rev_cases) auto
  obtain y R where R: "entries r = y # R" using less.prems(4) by (cases "entries r") auto
  have wf: "wf_entries h (L @ [x])" "wf_entries h (y # R)" "nheight l = h" "0 \<le> h"
    using less.prems(1,2) L R by (auto simp: wf_node_iff)
  have st: "mergeNodes l r =
      (if \<not> (isChild x \<and> isChild y) then Inr (Node (L @ [x] @ y # R) h True None False)
       else case (echild x, echild y) of
         (Some a, Some b) \<Rightarrow> rbind (mergeNodes a b) (\<lambda>m. Inr (Node (L @ [childEntry m] @ R) h True None False))
       | _ \<Rightarrow> Inl ErrPartialTree)"
    using L R wf(3) by (subst mergeNodes.simps) (auto simp: Let_def nth_append split: option.splits)
  have w: "node_walk l @ node_walk r = entries_walk (L @ [x] @ [y] @ R)" by (simp add: node_walk_entries L R)
  show ?case
  proof (cases "isChild x \<and> isChild y")
    case False
    then have "wf_node h (Node (L @ [x] @ y # R) h True None False)" using wf by (auto simp: wf_entries_append)
    then show ?thesis using st False w by simp
  next
    case True
    obtain a where a: "echild x = Some a" "wf_node (h - 1) a" "entries a \<noteq> []" "\<not> isValue x"
      using wf_child [OF wf(1), of x] True by auto
    obtain b where b: "echild y = Some b" "wf_node (h - 1) b" "entries b \<noteq> []" "\<not> isValue y"
      using wf_child [OF wf(2), of y] True by auto
    have "size a < size l" using size_nth_child [of "length L" "entries l" a] a(1) L by (cases l) simp
    from less.hyps [OF this a(2) b(2) a(3) b(3)] obtain m where
      m: "mergeNodes a b = Inr m" "wf_node (h - 1) m" "entries m \<noteq> []" "node_walk m = node_walk a @ node_walk b" by blast
    have "mergeNodes l r = Inr (Node (L @ [childEntry m] @ R) h True None False)" using st True a(1) b(1) m(1) by simp
    moreover have "wf_node h (Node (L @ [childEntry m] @ R) h True None False)"
      using wf True m(2,3) by (auto simp: wf_entries_append)
    moreover have "node_walk (Node (L @ [childEntry m] @ R) h True None False) = node_walk l @ node_walk r"
      unfolding w using a b m(4) by simp
    ultimately show ?thesis by fastforce
  qed
qed

text \<open>What a removal from a node must return.\<close>

definition remove_ok :: "(int \<Rightarrow> bool) \<Rightarrow> bytes \<Rightarrow> node \<Rightarrow> (mst_error, node \<times> cid option) result \<Rightarrow> bool" where
  "remove_ok P key n res \<longleftrightarrow> (\<exists>n' h. res = Inr (n', map_of (node_walk n) key) \<and> P h \<and> wf_node h n' \<and>
     node_walk n' = del key (node_walk n) \<and> (map_of (node_walk n) key = None \<longrightarrow> n' = n))"

text \<open>The entries that are left when a value is taken out, with its neighbours merged if both are children.\<close>

lemma removed_entries:
  assumes "wf_entries h (A @ e # B)" "isValue e"
  shows "\<exists>es'. remove_entry (A @ e # B) (length A) = Inr es' \<and> wf_entries h es' \<and>
     entries_walk es' = entries_walk A @ entries_walk B"
proof (cases "A \<noteq> [] \<and> B \<noteq> [] \<and> isChild (last A) \<and> isChild (hd B)")
  case True
  then obtain A0 x where A: "A = A0 @ [x]" "isChild x" by (cases A rule: rev_cases) auto
  obtain y B0 where B: "B = y # B0" "isChild y" using True by (cases B) auto
  have nth: "(A @ e # B) ! (length A - 1) = x" "(A @ e # B) ! (length A + 1) = y" by (simp_all add: A B nth_append)
  obtain a where a: "echild x = Some a" "wf_node (h - 1) a" "entries a \<noteq> []" "\<not> isValue x"
    using wf_child [OF assms(1), of x] A by auto
  obtain b where b: "echild y = Some b" "wf_node (h - 1) b" "entries b \<noteq> []" "\<not> isValue y"
    using wf_child [OF assms(1), of y] B by auto
  from mergeNodes_correct [OF a(2) b(2) a(3) b(3)] obtain m where
    m: "mergeNodes a b = Inr m" "wf_node (h - 1) m" "entries m \<noteq> []" "node_walk m = node_walk a @ node_walk b" by blast
  have upd: "(take (length A) (A @ e # B) @ drop (length A + 2) (A @ e # B))[length A - 1 := childEntry m] =
      A0 @ [childEntry m] @ B0"
    by (simp add: A B list_update_append)
  have "remove_entry (A @ e # B) (length A) = Inr (A0 @ [childEntry m] @ B0)"
    unfolding remove_entry_def nth using A B a(1) b(1) m(1) upd by simp
  moreover have "wf_entries h (A0 @ [childEntry m] @ B0)"
    using assms(1) A B m(2,3) by (auto simp: wf_entries_append)
  moreover have "entries_walk (A0 @ [childEntry m] @ B0) = entries_walk A @ entries_walk B"
    using a b m(4) by (simp add: A B)
  ultimately show ?thesis by blast
next
  case False
  have "\<not> (length A > 0 \<and> length A + 1 < length (A @ e # B) \<and> isChild ((A @ e # B) ! (length A - 1)) \<and>
             isChild ((A @ e # B) ! (length A + 1)))"
    using False by (cases A rule: rev_cases; cases B) (auto simp: nth_append)
  then have "remove_entry (A @ e # B) (length A) = Inr (take (length A) (A @ e # B) @ drop (length A + 1) (A @ e # B))"
    unfolding remove_entry_def by (simp only: if_False)
  then have "remove_entry (A @ e # B) (length A) = Inr (A @ B)" by simp
  moreover have "wf_entries h (A @ B)" using assms(1) False by (auto simp: wf_entries_append)
  ultimately show ?thesis by simp
qed

definition has_value :: "node \<Rightarrow> bool" where
  "has_value n \<longleftrightarrow> (\<exists>e\<in>set (entries n). isValue e)"

lemma trim_top_correct:
  assumes "wf_node h n"
  shows "\<exists>n' h'. trim_top n = Inr n' \<and> h' \<le> h \<and> wf_node h' n' \<and> node_walk n' = node_walk n \<and>
     (entries n = [] \<and> n' = n \<or> has_value n')"
  using assms
proof (induction "size n" arbitrary: n h rule: less_induct)
  case less
  obtain es H d c s where n: "n = Node es H d c s" by (cases n)
  have wf: "wf_entries h es" using less.prems n by simp
  show ?case
  proof (cases "\<exists>e. es = [e] \<and> isChild e")
    case True
    then obtain e where e: "es = [e]" "isChild e" by blast
    obtain ch where ch: "echild e = Some ch" "wf_node (h - 1) ch" "entries ch \<noteq> []" "\<not> isValue e"
      using wf_child [OF wf, of e] e by auto
    have "size ch < size n" using size_echild [OF ch(1)] by (simp add: n e)
    from less.hyps [OF this ch(2)] ch(3) obtain n' h' where
      "trim_top ch = Inr n'" "h' \<le> h - 1" "wf_node h' n'" "node_walk n' = node_walk ch" "has_value n'" by blast
    then show ?thesis using e ch by (intro exI [of _ n'] exI [of _ h']) (simp add: n)
  next
    case False
    then have "trim_top n = Inr n" by (auto simp: n split: list.splits)
    have "es = [] \<or> has_value n"
    proof (cases es)
      case (Cons x xs)
      show ?thesis
      proof (cases "isChild x")
        case True
        then obtain y ys where y: "xs = y # ys" "\<not> isChild y" using False Cons wf by (cases xs) auto
        then show ?thesis using wf_value [OF wf, of y] by (auto simp: has_value_def n Cons)
      next
        case False
        then show ?thesis using wf_value [OF wf, of x] by (auto simp: has_value_def n Cons)
      qed
    qed simp
    then show ?thesis
      using \<open>trim_top n = Inr n\<close> less.prems n by (intro exI [of _ n] exI [of _ h]) (auto simp del: trim_top.simps)
  qed
qed

lemma remove_here_correct:
  assumes "wf_node h n" "sorted_keys (node_walk n)" "HeightForKey key = h"
  shows "remove_ok (\<lambda>h'. if atTop then h' \<le> h else h' = h) key n (remove_here n key atTop)"
    "atTop \<Longrightarrow> remove_here n key atTop = Inr (n', Some v) \<Longrightarrow> entries n' = [] \<or> has_value n'"
proof -
  have wf: "wf_entries h (entries n)" "nheight n = h" "0 \<le> h" "\<not> nstub n" using assms(1) by (auto simp: wf_node_iff)
  note spec = find_entry_loop_spec [where key = key and es = "entries n" and i = 0, folded findExistingEntry_def]
  have "remove_ok (\<lambda>h'. if atTop then h' \<le> h else h' = h) key n (remove_here n key atTop) \<and>
     (atTop \<longrightarrow> (\<forall>n' v. remove_here n key atTop = Inr (n', Some v) \<longrightarrow> entries n' = [] \<or> has_value n'))"
  proof (cases "findExistingEntry n key")
    case None
    then have "key \<notin> set (keys (node_walk n))" using spec key_at_level [OF assms(1,3)] by simp
    then have "map_of (node_walk n) key = None" "del key (node_walk n) = node_walk n"
      by (simp_all add: map_of_eq_None_iff del_none)
    then show ?thesis using None assms(1) by (auto simp: remove_here_def remove_ok_def)
  next
    case (Some idx)
    then obtain A e B where e: "entries n = A @ e # B" "idx = length A" "isValue e" "ekey e = key" using spec by auto
    have c: "echild e = None" using wf_either [OF wf(1), of e] e by (auto simp: isChild_def)
    obtain v where v: "evalue e = Some v" using e(3) by (auto simp: isValue_def)
    have w: "node_walk n = entries_walk A @ (key, v) # entries_walk B" using e c v by (simp add: node_walk_entries [of n])
    note sp = sorted_split_at [OF assms(2) [unfolded w]]
    have d: "del key (node_walk n) = entries_walk A @ entries_walk B"
      using del_around [OF sp(1,2), of "[(key, v)]"] w by (simp add: del_def)
    have nth: "entries n ! idx = e" using e(1,2) by simp
    obtain es' where re: "remove_entry (entries n) idx = Inr es'" and es': "wf_entries h es'"
      "entries_walk es' = entries_walk A @ entries_walk B"
      using removed_entries [OF wf(1) [unfolded e(1)] e(3)] e(1,2) by auto
    let ?n = "setDirty (setEntries es' n)"
    have wn: "wf_node h ?n" "node_walk ?n = del key (node_walk n)" using wf es' d by (simp_all add: wf_node_iff)
    have "sorted_keys (node_walk ?n)" "key \<notin> set (keys (node_walk ?n))"
      unfolding wn(2) using del_sorted [OF assms(2)] by (auto simp: del_def)
    from prove_ok [OF wn(1) this] obtain m where m: "proveMutation ?n key = (None, m)"
      by (cases "proveMutation ?n key") simp
    then have "undirty m = undirty ?n" using proveMutation_undirty(1) [of ?n key] by simp
    then have mm: "wf_node h m" "node_walk m = del key (node_walk n)" using same_undirty(1,2) wn by metis+
    have mo: "map_of (node_walk n) key = Some v" using sp(3) w by simp
    have st: "remove_here n key atTop = rbind (if atTop then trim_top m else Inr m) (\<lambda>m. Inr (m, Some v))"
      unfolding remove_here_def using Some re m nth v by simp
    show ?thesis
    proof (cases atTop)
      case True
      obtain n' h' where "trim_top m = Inr n'" "h' \<le> h" "wf_node h' n'" "node_walk n' = node_walk m"
        "entries n' = [] \<or> has_value n'" using trim_top_correct [OF mm(1)] by metis
      then show ?thesis using st mo mm True by (auto simp: remove_ok_def)
    next
      case False
      then show ?thesis using st mo mm by (auto simp: remove_ok_def)
    qed
  qed
  then show "remove_ok (\<lambda>h'. if atTop then h' \<le> h else h' = h) key n (remove_here n key atTop)"
    "atTop \<Longrightarrow> remove_here n key atTop = Inr (n', Some v) \<Longrightarrow> entries n' = [] \<or> has_value n'" by blast+
qed

lemma remove_down:
  assumes "wf_node h n" "sorted_keys (node_walk n)"
  shows "remove_ok (\<lambda>h'. h' = h) key n (remove_node n key (HeightForKey key))"
  using assms
proof (induction "nat h" arbitrary: n h rule: less_induct)
  case less
  have wf: "wf_entries h (entries n)" "\<not> nstub n" "nheight n = h" "0 \<le> h" using less.prems(1) by (auto simp: wf_node_iff)
  have kh: "key_height key (HeightForKey key) = HeightForKey key" "\<not> HeightForKey key < 0"
    using HeightForKey_nonneg [of key] by (simp_all add: key_height_def)
  consider "HeightForKey key > h" | "HeightForKey key = h" | "HeightForKey key < h" by linarith
  then show ?case
  proof cases
    case 1
    have k: "key \<notin> set (keys (node_walk n))" using wf_heights(1) [OF less.prems(1)] 1 by fastforce
    then have "map_of (node_walk n) key = None" by (simp add: map_of_eq_None_iff)
    moreover have "remove_node n key (HeightForKey key) = Inr (n, None)" using 1 wf kh by (subst remove_node.simps) simp
    ultimately show ?thesis using less.prems(1) del_none [OF k] by (simp add: remove_ok_def)
  next
    case 2
    then have "remove_node n key (HeightForKey key) = remove_here n key False"
      using wf kh by (subst remove_node.simps) simp
    then show ?thesis using remove_here_correct(1) [OF less.prems 2, of False] by simp
  next
    case 3
    then have lt: "nat (h - 1) < nat h" using kh(2) by auto
    have st: "remove_node n key (HeightForKey key) = removeChild n key (HeightForKey key)"
      using wf kh 3 by (subst remove_node.simps) simp
    from less.prems 3 show ?thesis
    proof (cases rule: key_below)
      case (child A e c B)
      have "sorted_keys (node_walk c)" using less.prems(2) child(8) by (simp add: sorted_wrt_append)
      from less.hyps [OF lt child(5) this] obtain c' where
        c': "remove_node c key (HeightForKey key) = Inr (c', map_of (node_walk c) key)" "wf_node (h - 1) c'"
        "node_walk c' = del key (node_walk c)" "map_of (node_walk c) key = None \<longrightarrow> c' = c" by (auto simp: remove_ok_def)
      note mo = map_of_around [OF child(9,10), of "node_walk c", folded child(8)]
      note da = del_around [OF child(9,10), of "node_walk c", folded child(8)]
      show ?thesis
      proof (cases "map_of (node_walk c) key = None")
        case True
        then have "removeChild n key (HeightForKey key) = Inr (n, None)"
          using child(1,2,4) c'(1) by (subst removeChild.simps) simp
        moreover have "del key (node_walk n) = node_walk n"
          using True mo by (intro del_map_of) simp
        ultimately show ?thesis unfolding st using less.prems(1) mo True by (simp add: remove_ok_def)
      next
        case False
        have "removeChild n key (HeightForKey key) =
            Inr (setDirty (setEntries (if entries c' = [] then A @ B else A @ [setChild c' True e] @ B) n), map_of (node_walk c) key)"
          using child(1,2,4) c'(1) False by (subst removeChild.simps) (auto simp: node_IsEmpty_def)
        moreover have "wf_entries h (if entries c' = [] then A @ B else A @ [setChild c' True e] @ B) \<and>
            entries_walk (if entries c' = [] then A @ B else A @ [setChild c' True e] @ B) = del key (node_walk n)"
        proof (cases "entries c' = []")
          case True
          then have "node_walk c' = []" by (simp add: node_walk_entries)
          moreover have "wf_entries h (A @ B)" using wf(1) child(1,3) by (auto simp: wf_entries_append)
          ultimately show ?thesis using True da c'(3) by simp
        next
          case False
          then show ?thesis using replace_child [OF wf(1) [unfolded child(1)] child(3) c'(2) False, of True] da c'(3) by simp
        qed
        ultimately show ?thesis unfolding st using wf mo False by (auto simp: remove_ok_def wf_node_iff)
      qed
    next
      case (nochild A B)
      have "map_of (node_walk n) key = None"
        using map_of_around [OF nochild(6,7), of "[]"] by (simp add: node_walk_entries [of n] nochild(1))
      moreover from this have "del key (node_walk n) = node_walk n" by (rule del_map_of)
      moreover have "removeChild n key (HeightForKey key) = Inr (n, None)"
        using nochild(2) by (subst removeChild.simps) simp
      ultimately show ?thesis unfolding st using less.prems(1) by (simp add: remove_ok_def)
    qed
  qed
qed

lemma remove_node_correct:
  assumes "wf_node h n" "sorted_keys (node_walk n)"
  shows "remove_ok (\<lambda>h'. h' \<le> h) key n (remove_node n key (-1))"
proof (cases "HeightForKey key = h")
  case True
  then have "remove_node n key (-1) = remove_here n key True"
    using assms(1) by (subst remove_node.simps) (simp add: key_height_def wf_node_iff)
  then show ?thesis using remove_here_correct(1) [OF assms True, of True] by simp
next
  case False
  then have "remove_node n key (-1) = remove_node n key (HeightForKey key)"
    using assms(1) HeightForKey_nonneg [of key]
    by (subst (1 2) remove_node.simps) (simp add: key_height_def wf_node_iff)
  then show ?thesis using remove_down [OF assms, of key] by (auto simp: remove_ok_def)
qed

end
