(* ===== verification/MstEncoding.thy ===== *)
theory MstEncoding
  imports MstMap
begin

text \<open>
  The encoded form of a tree node (\<^verbatim>\<open>atproto/repo/mst/encoding.go\<close>) and its CBOR codec (\<^verbatim>\<open>cbor_gen.go\<close>). The CBOR
  library and the content-identifier package are not part of the repository: \<open>cborlib\<close> has the functions that the codec
  calls, and \<open>cbor_laws\<close> what it relies on. Readers are the bytes that are left, and every error of the codec is
  \<open>ErrEncoding\<close>.
\<close>

subsection \<open>The library functions\<close>

record cborlib =
  WriteMajorTypeHeader :: "nat \<Rightarrow> u64 \<Rightarrow> bytes"
  ReadHeader :: "bytes \<Rightarrow> (nat \<times> u64 \<times> bytes) option"
  WriteCid :: "cid \<Rightarrow> bytes option"
  ReadCid :: "bytes \<Rightarrow> (cid \<times> bytes) option"
  ReadFullStringIntoBuf :: "nat \<Rightarrow> bytes \<Rightarrow> (bytes option \<times> bytes) option"
  ReadStringWithMax :: "bytes \<Rightarrow> (bytes \<times> bytes) option"
  ScanForLinks :: "bytes \<Rightarrow> bytes option"
  MaxLength :: u64
  SumCid :: "bytes \<Rightarrow> cid"

abbreviation (input) MajUnsignedInt :: nat where "MajUnsignedInt \<equiv> 0"
abbreviation (input) MajNegativeInt :: nat where "MajNegativeInt \<equiv> 1"
abbreviation (input) MajByteString :: nat where "MajByteString \<equiv> 2"
abbreviation (input) MajTextString :: nat where "MajTextString \<equiv> 3"
abbreviation (input) MajArray :: nat where "MajArray \<equiv> 4"
abbreviation (input) MajMap :: nat where "MajMap \<equiv> 5"
abbreviation (input) CborNull :: byte where "CborNull \<equiv> 0xf6"

text \<open>A header is read back as written, short lengths are part of the first byte, an identifier is read back as written
  and does not start like the null value, a name that fits the buffer is read, and so is an ASCII text within the limit
  of a million bytes.\<close>

definition cbor_laws :: "cborlib \<Rightarrow> bool" where
  "cbor_laws L \<longleftrightarrow>
     (\<forall>m n r. m < 8 \<longrightarrow> ReadHeader L (WriteMajorTypeHeader L m n @ r) = Some (m, n, r)) \<and>
     (\<forall>m n r. m < 8 \<longrightarrow> n < 24 \<longrightarrow> ReadHeader L (word_of_nat (m * 32 + n) # r) = Some (m, word_of_nat n, r)) \<and>
     (\<forall>c b r. WriteCid L c = Some b \<longrightarrow> ReadCid L (b @ r) = Some (c, r) \<and> b \<noteq> [] \<and> hd b \<noteq> CborNull) \<and>
     (\<forall>k s r. k \<le> 7 \<longrightarrow> length s \<le> k \<longrightarrow>
        ReadFullStringIntoBuf L k (WriteMajorTypeHeader L MajTextString (word_of_nat (length s)) @ s @ r) = Some (Some s, r)) \<and>
     (\<forall>s r. length s \<le> 1000000 \<longrightarrow> list_all (\<lambda>x. x < 128) s \<longrightarrow>
        ReadStringWithMax L (WriteMajorTypeHeader L MajTextString (word_of_nat (length s)) @ s @ r) = Some (s, r)) \<and>
     6 \<le> MaxLength L"

definition lift_read :: "'a option \<Rightarrow> (mst_error, 'a) result" where
  "lift_read x = (case x of None \<Rightarrow> Inl ErrEncoding | Some y \<Rightarrow> Inr y)"

lemma lift_read_simps [simp]: "lift_read (Some y) = Inr y" "lift_read None = Inl ErrEncoding"
  by (simp_all add: lift_read_def)

lemma lift_read_Inr [simp]: "lift_read x = Inr y \<longleftrightarrow> x = Some y"
  by (cases x) simp_all

subsection \<open>Encoded nodes\<close>

record EntryData =
  PrefixLen :: i64
  KeySuffix :: bytes
  Value :: cid
  Right :: "cid option"

record NodeData =
  Left :: "cid option"
  Entries :: "EntryData list"

text \<open>A field name with its header; its length is below the limit of a million bytes.\<close>

definition write_name :: "cborlib \<Rightarrow> byte \<Rightarrow> bytes" where
  "write_name L x = WriteMajorTypeHeader L MajTextString 1 @ [x]"

definition write_link :: "cborlib \<Rightarrow> cid option \<Rightarrow> (mst_error, bytes) result" where
  "write_link L c = (case c of None \<Rightarrow> Inr [CborNull] | Some c \<Rightarrow> lift_read (WriteCid L c))"

definition write_int64 :: "cborlib \<Rightarrow> i64 \<Rightarrow> bytes" where
  "write_int64 L p =
     (if sint p \<ge> 0 then WriteMajorTypeHeader L MajUnsignedInt p else WriteMajorTypeHeader L MajNegativeInt (- p - 1))"

definition EntryData_MarshalCBOR :: "cborlib \<Rightarrow> EntryData \<Rightarrow> (mst_error, bytes) result" where
  "EntryData_MarshalCBOR L t =
     (if int (length (KeySuffix t)) > 2097152 then Inl ErrEncoding
      else rbind (write_link L (Right t)) (\<lambda>right.
        rbind (lift_read (WriteCid L (Value t))) (\<lambda>val.
          Inr ([164] @
            write_name L 107 @ WriteMajorTypeHeader L MajByteString (word_of_nat (length (KeySuffix t))) @ KeySuffix t @
            write_name L 112 @
            write_int64 L (PrefixLen t) @
            write_name L 116 @ right @
            write_name L 118 @ val))))"

fun marshal_entries :: "cborlib \<Rightarrow> EntryData list \<Rightarrow> (mst_error, bytes) result" where
  "marshal_entries L [] = Inr []"
| "marshal_entries L (v # vs) =
     rbind (EntryData_MarshalCBOR L v) (\<lambda>b. rbind (marshal_entries L vs) (\<lambda>bs. Inr (b @ bs)))"

definition NodeData_MarshalCBOR :: "cborlib \<Rightarrow> NodeData \<Rightarrow> (mst_error, bytes) result" where
  "NodeData_MarshalCBOR L t =
     (if int (length (Entries t)) > 8192 then Inl ErrEncoding
      else rbind (marshal_entries L (Entries t)) (\<lambda>es.
        rbind (write_link L (Left t)) (\<lambda>left.
          Inr ([162] @
            write_name L 101 @ WriteMajorTypeHeader L MajArray (word_of_nat (length (Entries t))) @ es @
            write_name L 108 @ left))))"

subsection \<open>Decoding\<close>

text \<open>A nullable link: a null leaves the field as it is.\<close>

definition read_link :: "cborlib \<Rightarrow> cid option \<Rightarrow> bytes \<Rightarrow> (mst_error, cid option \<times> bytes) result" where
  "read_link L old r =
     (case r of
        [] \<Rightarrow> Inl ErrEncoding
      | b # r' \<Rightarrow>
          if b \<noteq> CborNull then rbind (lift_read (ReadCid L r)) (\<lambda>(c, r). Inr (Some c, r))
          else Inr (old, r'))"

definition read_int64 :: "cborlib \<Rightarrow> bytes \<Rightarrow> (mst_error, i64 \<times> bytes) result" where
  "read_int64 L r =
     rbind (lift_read (ReadHeader L r)) (\<lambda>(maj, extra, r).
       if maj = MajUnsignedInt then (if sint (extra :: i64) < 0 then Inl ErrEncoding else Inr (extra, r))
       else if maj = MajNegativeInt then (if sint (extra :: i64) < 0 then Inl ErrEncoding else Inr (- 1 - extra, r))
       else Inl ErrEncoding)"

definition read_key_suffix :: "cborlib \<Rightarrow> bytes \<Rightarrow> bytes \<Rightarrow> (mst_error, bytes \<times> bytes) result" where
  "read_key_suffix L old r =
     rbind (lift_read (ReadHeader L r)) (\<lambda>(maj, extra, r).
       if extra > 2097152 then Inl ErrEncoding
       else if maj \<noteq> MajByteString then Inl ErrEncoding
       else let n = (if extra > 0 then unat extra else length old) in
         if length r < n then Inl ErrEncoding else Inr (take n r, drop n r))"

definition entry_field :: "cborlib \<Rightarrow> bytes \<Rightarrow> EntryData \<Rightarrow> bytes \<Rightarrow> (mst_error, EntryData \<times> bytes) result" where
  "entry_field L name t r =
     (if name = [107] then rbind (read_key_suffix L (KeySuffix t) r) (\<lambda>(k, r). Inr (t\<lparr>KeySuffix := k\<rparr>, r))
      else if name = [112] then rbind (read_int64 L r) (\<lambda>(p, r). Inr (t\<lparr>PrefixLen := p\<rparr>, r))
      else if name = [116] then rbind (read_link L (Right t) r) (\<lambda>(c, r). Inr (t\<lparr>Right := c\<rparr>, r))
      else if name = [118] then rbind (lift_read (ReadCid L r)) (\<lambda>(c, r). Inr (t\<lparr>Value := c\<rparr>, r))
      else rbind (lift_read (ScanForLinks L r)) (\<lambda>r. Inr (t, r)))"

text \<open>The loop over the fields of a map: \<open>field\<close> reads the field of a given name, and a name that does
  not fit the buffer of \<open>k\<close> bytes is skipped.\<close>

fun read_fields :: "cborlib \<Rightarrow> nat \<Rightarrow> (bytes \<Rightarrow> 'a \<Rightarrow> bytes \<Rightarrow> (mst_error, 'a \<times> bytes) result) \<Rightarrow> nat \<Rightarrow> 'a \<Rightarrow> bytes \<Rightarrow>
    (mst_error, 'a \<times> bytes) result" where
  "read_fields L k field 0 t r = Inr (t, r)"
| "read_fields L k field (Suc n) t r =
     rbind (lift_read (ReadFullStringIntoBuf L k r)) (\<lambda>(name, r).
       case name of
         None \<Rightarrow> rbind (lift_read (ScanForLinks L r)) (\<lambda>r. read_fields L k field n t r)
       | Some name \<Rightarrow> rbind (field name t r) (\<lambda>(t, r). read_fields L k field n t r))"

definition read_map :: "cborlib \<Rightarrow> nat \<Rightarrow> (bytes \<Rightarrow> 'a \<Rightarrow> bytes \<Rightarrow> (mst_error, 'a \<times> bytes) result) \<Rightarrow> 'a \<Rightarrow> bytes \<Rightarrow>
    (mst_error, 'a \<times> bytes) result" where
  "read_map L k field t r =
     rbind (lift_read (ReadHeader L r)) (\<lambda>(maj, extra, r).
       if maj \<noteq> MajMap then Inl ErrEncoding
       else if extra > MaxLength L then Inl ErrEncoding
       else read_fields L k field (unat extra) t r)"

definition EntryData_UnmarshalCBOR :: "cborlib \<Rightarrow> bytes \<Rightarrow> (mst_error, EntryData \<times> bytes) result" where
  "EntryData_UnmarshalCBOR L r =
     read_map L 1 (entry_field L) \<lparr> PrefixLen = 0, KeySuffix = [], Value = [], Right = None \<rparr> r"

fun unmarshal_entries :: "cborlib \<Rightarrow> nat \<Rightarrow> bytes \<Rightarrow> (mst_error, EntryData list \<times> bytes) result" where
  "unmarshal_entries L 0 r = Inr ([], r)"
| "unmarshal_entries L (Suc n) r =
     rbind (EntryData_UnmarshalCBOR L r) (\<lambda>(e, r). rbind (unmarshal_entries L n r) (\<lambda>(es, r). Inr (e # es, r)))"

definition node_field :: "cborlib \<Rightarrow> bytes \<Rightarrow> NodeData \<Rightarrow> bytes \<Rightarrow> (mst_error, NodeData \<times> bytes) result" where
  "node_field L name t r =
     (if name = [101] then
        rbind (lift_read (ReadHeader L r)) (\<lambda>(maj, extra, r).
          if extra > 8192 then Inl ErrEncoding
          else if maj \<noteq> MajArray then Inl ErrEncoding
          else if extra = 0 then Inr (t, r)
          else rbind (unmarshal_entries L (unat extra) r) (\<lambda>(es, r). Inr (t\<lparr>Entries := es\<rparr>, r)))
      else if name = [108] then rbind (read_link L (Left t) r) (\<lambda>(c, r). Inr (t\<lparr>Left := c\<rparr>, r))
      else rbind (lift_read (ScanForLinks L r)) (\<lambda>r. Inr (t, r)))"

definition NodeData_UnmarshalCBOR :: "cborlib \<Rightarrow> bytes \<Rightarrow> (mst_error, NodeData \<times> bytes) result" where
  "NodeData_UnmarshalCBOR L r = read_map L 1 (node_field L) \<lparr> Left = None, Entries = [] \<rparr> r"

definition NodeDataFromCBOR :: "cborlib \<Rightarrow> bytes \<Rightarrow> (mst_error, NodeData) result" where
  "NodeDataFromCBOR L r = rbind (NodeData_UnmarshalCBOR L r) (\<lambda>(nd, _). Inr nd)"

definition nd_Bytes :: "cborlib \<Rightarrow> NodeData \<Rightarrow> (mst_error, bytes \<times> cid) result" where
  "nd_Bytes L d = rbind (NodeData_MarshalCBOR L d) (\<lambda>b. Inr (b, SumCid L b))"

subsection \<open>Round trip of the codec\<close>

lemma cbor_header: "cbor_laws L \<Longrightarrow> m < 8 \<Longrightarrow> ReadHeader L (WriteMajorTypeHeader L m n @ r) = Some (m, n, r)"
  by (simp add: cbor_laws_def)

lemma cbor_map_headers:
  assumes "cbor_laws L"
  shows "ReadHeader L (162 # r) = Some (5, 2, r)" "ReadHeader L (164 # r) = Some (5, 4, r)"
proof -
  have "ReadHeader L (word_of_nat (5 * 32 + 2) # r) = Some (5, word_of_nat 2, r)"
    "ReadHeader L (word_of_nat (5 * 32 + 4) # r) = Some (5, word_of_nat 4, r)"
    using assms unfolding cbor_laws_def by (meson less_numeral_extra numeral_less_iff semiring_norm)+
  then show "ReadHeader L (162 # r) = Some (5, 2, r)" "ReadHeader L (164 # r) = Some (5, 4, r)" by simp_all
qed

lemma cbor_text:
  assumes "cbor_laws L" "k \<le> 7" "length s \<le> k"
  shows "ReadFullStringIntoBuf L k (WriteMajorTypeHeader L MajTextString (word_of_nat (length s)) @ s @ r) = Some (Some s, r)"
  using assms by (simp add: cbor_laws_def)

lemma cbor_name: "cbor_laws L \<Longrightarrow> ReadFullStringIntoBuf L (Suc 0) (write_name L x @ r) = Some (Some [x], r)"
  using cbor_text [of L "Suc 0" "[x]" r] by (simp add: write_name_def)

lemma cbor_max: "cbor_laws L \<Longrightarrow> n \<le> 6 \<Longrightarrow> \<not> n > MaxLength L"
  by (auto simp: cbor_laws_def)

lemma read_map_counts:
  assumes "cbor_laws L"
  shows "read_map L k field t (162 # r) = read_fields L k field (Suc (Suc 0)) t r"
    "read_map L k field t (164 # r) = read_fields L k field (Suc (Suc (Suc (Suc 0)))) t r"
proof -
  have "(2 :: nat) = Suc (Suc 0)" "(4 :: nat) = Suc (Suc (Suc (Suc 0)))" by simp_all
  then have "read_fields L k field 2 t r = read_fields L k field (Suc (Suc 0)) t r"
    "read_fields L k field 4 t r = read_fields L k field (Suc (Suc (Suc (Suc 0)))) t r" by argo+
  then show "read_map L k field t (162 # r) = read_fields L k field (Suc (Suc 0)) t r"
    "read_map L k field t (164 # r) = read_fields L k field (Suc (Suc (Suc (Suc 0)))) t r"
    using cbor_map_headers [OF assms] cbor_max [OF assms, of 2] cbor_max [OF assms, of 4] by (simp_all add: read_map_def del: read_fields.simps)
qed

lemma cbor_cid: "cbor_laws L \<Longrightarrow> WriteCid L c = Some b \<Longrightarrow> ReadCid L (b @ r) = Some (c, r)"
  by (simp add: cbor_laws_def)

lemma cbor_link:
  assumes "cbor_laws L" "write_link L c = Inr b"
  shows "read_link L None (b @ r) = Inr (c, r)"
proof (cases c)
  case None
  then have "b = [CborNull]" using assms(2) by (simp add: write_link_def)
  then show ?thesis using None by (simp add: read_link_def)
next
  case (Some x)
  then have "WriteCid L x = Some b" using assms(2) by (simp add: write_link_def)
  then have "ReadCid L (b @ r) = Some (x, r)" "b \<noteq> []" "hd b \<noteq> CborNull" using assms(1) by (simp_all add: cbor_laws_def)
  then show ?thesis using Some by (cases b) (simp_all add: read_link_def)
qed

lemma cbor_int64:
  assumes "cbor_laws L"
  shows "read_int64 L (write_int64 L p @ r) = Inr (p, r)"
proof (cases "sint p \<ge> 0")
  case True
  then show ?thesis using cbor_header [OF assms, of 0] by (simp add: read_int64_def write_int64_def)
next
  case False
  have "- p - 1 = NOT p" by (simp add: not_eq_complement)
  moreover have "bit p 63" using False bit_last_iff [of p] by simp
  ultimately have "\<not> sint (- p - 1) < 0" using bit_last_iff [of "- p - 1"] by (simp add: bit_not_iff)
  then show ?thesis using False cbor_header [OF assms, of 1] by (simp add: read_int64_def write_int64_def)
qed

lemma cbor_key_suffix:
  assumes "cbor_laws L" "length k \<le> 2097152"
  shows "read_key_suffix L [] (WriteMajorTypeHeader L MajByteString (word_of_nat (length k)) @ k @ r) = Inr (k, r)"
proof -
  have u: "unat (word_of_nat (length k) :: u64) = length k" using assms(2) by (intro unat_of_nat_less) simp
  then have "\<not> (word_of_nat (length k) :: u64) > 2097152" using assms(2) by (simp add: word_less_nat_alt)
  moreover have "(word_of_nat (length k) :: u64) > 0 \<longleftrightarrow> k \<noteq> []" using u by (simp add: word_greater_zero_iff unat_eq_0 [symmetric])
  ultimately show ?thesis using cbor_header [OF assms(1), of 2] u by (simp add: read_key_suffix_def)
qed

lemma entry_roundtrip:
  assumes "cbor_laws L" "EntryData_MarshalCBOR L t = Inr b"
  shows "EntryData_UnmarshalCBOR L (b @ r) = Inr (t, r)"
proof -
  obtain right val where rv: "write_link L (Right t) = Inr right" "WriteCid L (Value t) = Some val" "length (KeySuffix t) \<le> 2097152"
    and b: "b = [164] @ write_name L 107 @ WriteMajorTypeHeader L MajByteString (word_of_nat (length (KeySuffix t))) @
      KeySuffix t @ write_name L 112 @ write_int64 L (PrefixLen t) @ write_name L 116 @ right @ write_name L 118 @ val"
    using assms(2) by (auto simp: EntryData_MarshalCBOR_def rbind_Inr_iff split: if_split_asm)
  note simps = cbor_name [OF assms(1)] cbor_int64 [OF assms(1)]
    cbor_key_suffix [OF assms(1) rv(3)] cbor_link [OF assms(1) rv(1)] cbor_cid [OF assms(1) rv(2)]
  show ?thesis
    unfolding EntryData_UnmarshalCBOR_def b append_assoc append_Cons append_Nil read_map_counts(2) [OF assms(1)]
    by (simp add: simps entry_field_def)
qed

lemma entries_roundtrip:
  assumes "cbor_laws L" "marshal_entries L es = Inr b"
  shows "unmarshal_entries L (length es) (b @ r) = Inr (es, r)"
  using assms(2)
proof (induction es arbitrary: b r)
  case (Cons e es)
  then obtain b1 b2 where b: "EntryData_MarshalCBOR L e = Inr b1" "marshal_entries L es = Inr b2" "b = b1 @ b2"
    by (auto simp: rbind_Inr_iff)
  then show ?case using entry_roundtrip [OF assms(1) b(1)] Cons.IH [OF b(2)] by simp
qed simp

lemma node_roundtrip:
  assumes "cbor_laws L" "NodeData_MarshalCBOR L t = Inr b"
  shows "NodeData_UnmarshalCBOR L (b @ r) = Inr (t, r)"
proof -
  obtain es left where el: "marshal_entries L (Entries t) = Inr es" "write_link L (Left t) = Inr left" "length (Entries t) \<le> 8192"
    and b: "b = [162] @ write_name L 101 @ WriteMajorTypeHeader L MajArray (word_of_nat (length (Entries t))) @ es @
      write_name L 108 @ left"
    using assms(2) by (auto simp: NodeData_MarshalCBOR_def rbind_Inr_iff split: if_split_asm)
  have u: "unat (word_of_nat (length (Entries t)) :: u64) = length (Entries t)" using el(3) by (intro unat_of_nat_less) simp
  have le: "\<not> (word_of_nat (length (Entries t)) :: u64) > 8192" using u el(3) by (simp add: word_less_nat_alt)
  have z: "(word_of_nat (length (Entries t)) :: u64) = 0 \<longleftrightarrow> Entries t = []" using u by (simp add: unat_eq_0 [symmetric])
  have nil: "es = [] \<and> t = \<lparr> Left = Left t, Entries = [] \<rparr>" if "Entries t = []" using that el(1) by simp
  note simps = cbor_name [OF assms(1)] cbor_header [OF assms(1), of 4] cbor_link [OF assms(1) el(2)]
    entries_roundtrip [OF assms(1) el(1)]
  show ?thesis
    unfolding NodeData_UnmarshalCBOR_def b append_assoc append_Cons append_Nil read_map_counts(1) [OF assms(1)]
    using nil le by (cases "Entries t = []") (simp_all add: simps node_field_def u z)
qed

subsection \<open>Nodes and encoded nodes\<close>

text \<open>\<^verbatim>\<open>NodeData()\<close>: \<open>first\<close> is true at index 0, and \<open>prevKey\<close> is the last key seen. A child that is not first and comes before
  any value is the panic of the code.\<close>

fun nodedata_loop :: "entry list \<Rightarrow> bool \<Rightarrow> bytes \<Rightarrow> NodeData \<Rightarrow> (mst_error, NodeData) result" where
  "nodedata_loop [] first prevKey d = Inr d"
| "nodedata_loop (e # es) first prevKey d =
     (if first \<and> isChild e then nodedata_loop es False prevKey (d\<lparr>Left := echildcid e\<rparr>)
      else if isChild e \<and> Entries d = [] then Inl MstPanic
      else
        let d = (if isChild e then d\<lparr>Entries := butlast (Entries d) @ [(last (Entries d))\<lparr>Right := echildcid e\<rparr>]\<rparr> else d) in
        if isValue e then
          let idx = CountPrefixLen prevKey (ekey e) in
          nodedata_loop es False (ekey e)
            (d\<lparr>Entries := Entries d @
               [\<lparr> PrefixLen = word_of_nat idx, KeySuffix = drop idx (ekey e), Value = the (evalue e), Right = None \<rparr>]\<rparr>)
        else nodedata_loop es False prevKey d)"

definition node_NodeData :: "node \<Rightarrow> (mst_error, NodeData) result" where
  "node_NodeData n = nodedata_loop (entries n) True [] \<lparr> Left = None, Entries = [] \<rparr>"

text \<open>\<^verbatim>\<open>Node(c)\<close>: the entries, and the height of the first key or -1.\<close>

definition linkEntry :: "cid option \<Rightarrow> entry list" where
  "linkEntry c = (case c of None \<Rightarrow> [] | Some c \<Rightarrow> [NodeEntry [] None (Some c) None False])"

fun nd_node_loop :: "EntryData list \<Rightarrow> bytes \<Rightarrow> int \<Rightarrow> entry list \<Rightarrow> (mst_error, int \<times> entry list) result" where
  "nd_node_loop [] prevKey height out = Inr (height, out)"
| "nd_node_loop (e # es) prevKey height out =
     (if sint (PrefixLen e) < 0 \<or> sint (PrefixLen e) > int (length prevKey) then Inl ErrInvalidTree
      else
        let key = take (unat (PrefixLen e)) prevKey @ KeySuffix e in
        nd_node_loop es key (if height < 0 then HeightForKey key else height)
          (out @ [NodeEntry key (Some (Value e)) None None False] @ linkEntry (Right e)))"

definition nd_Node :: "NodeData \<Rightarrow> cid option \<Rightarrow> (mst_error, node) result" where
  "nd_Node d c =
     rbind (nd_node_loop (Entries d) [] (-1) (linkEntry (Left d))) (\<lambda>(height, out). Inr (Node out height (c = None) c False))"

text \<open>Entries in the form that an encoded node keeps.\<close>

definition strip :: "entry \<Rightarrow> entry" where
  "strip e = (if isChild e then NodeEntry [] None (echildcid e) None False else NodeEntry (ekey e) (evalue e) None None False)"

text \<open>Entries that can be encoded: values and children with known identifiers, no two children in a row, keys of a valid
  length.\<close>

fun linked :: "entry list \<Rightarrow> bool" where
  "linked [] \<longleftrightarrow> True"
| "linked (e # es) \<longleftrightarrow>
     (if isChild e then \<not> isValue e \<and> echildcid e \<noteq> None \<and> (es = [] \<or> \<not> isChild (hd es))
      else isValue e \<and> length (ekey e) \<le> MAX_KEY_BYTES) \<and> linked es"

definition pack_value :: "entry \<Rightarrow> bytes \<Rightarrow> cid option \<Rightarrow> EntryData" where
  "pack_value e prev right =
     (let idx = CountPrefixLen prev (ekey e) in
      \<lparr> PrefixLen = word_of_nat idx, KeySuffix = drop idx (ekey e), Value = the (evalue e), Right = right \<rparr>)"

fun pack :: "entry list \<Rightarrow> bytes \<Rightarrow> EntryData list" where
  "pack [] prev = []"
| "pack [e] prev = [pack_value e prev None]"
| "pack (e # f # es) prev =
     (if isChild f then pack_value e prev (echildcid f) # pack es (ekey e)
      else pack_value e prev None # pack (f # es) (ekey e))"

lemma nodedata_pack:
  "linked es \<Longrightarrow> es = [] \<or> \<not> isChild (hd es) \<Longrightarrow>
     nodedata_loop es False prev d = Inr (d\<lparr>Entries := Entries d @ pack es prev\<rparr>)"
proof (induction es prev arbitrary: d rule: pack.induct)
  case (3 e f es prev)
  then show ?case
  proof (cases "isChild f")
    case True
    have "es = [] \<or> \<not> isChild (hd es)" "linked es" "\<not> isValue f" using 3 True by auto
    with 3 True show ?thesis by (simp add: Let_def pack_value_def)
  next
    case False
    then show ?thesis using 3 by (auto simp: Let_def pack_value_def)
  qed
qed (auto simp: Let_def pack_value_def)

lemma CountPrefixLen_prefix: "take (CountPrefixLen a b) a = take (CountPrefixLen a b) b"
  "CountPrefixLen a b \<le> length a" "CountPrefixLen a b \<le> length b"
  by (induction a b rule: CountPrefixLen.induct) auto

lemma prefix_int:
  assumes "length key \<le> MAX_KEY_BYTES"
  shows "sint (word_of_nat (CountPrefixLen prev key) :: i64) = int (CountPrefixLen prev key)"
    "unat (word_of_nat (CountPrefixLen prev key) :: i64) = CountPrefixLen prev key"
proof -
  have "CountPrefixLen prev key \<le> 1024" using CountPrefixLen_prefix(3) [of prev key] assms by (simp add: MAX_KEY_BYTES_def)
  then show "unat (word_of_nat (CountPrefixLen prev key) :: i64) = CountPrefixLen prev key"
    "sint (word_of_nat (CountPrefixLen prev key) :: i64) = int (CountPrefixLen prev key)"
    by (auto intro!: unat_of_nat_less) (simp add: signed_of_nat signed_take_bit_int_eq_self)
qed

lemma unpack_value:
  assumes "length (ekey e) \<le> MAX_KEY_BYTES"
  shows "nd_node_loop (pack_value e prev right # ds) prev height out =
     nd_node_loop ds (ekey e) (if height < 0 then HeightForKey (ekey e) else height)
       (out @ [NodeEntry (ekey e) (Some (the (evalue e))) None None False] @ linkEntry right)"
proof -
  note p = CountPrefixLen_prefix [of prev "ekey e"]
  have "take (CountPrefixLen prev (ekey e)) prev @ drop (CountPrefixLen prev (ekey e)) (ekey e) = ekey e"
    unfolding p(1) by (rule append_take_drop_id)
  then show ?thesis using p(2) prefix_int [OF assms] by (simp add: pack_value_def Let_def)
qed

lemma strip_value: "isValue e \<Longrightarrow> \<not> isChild e \<Longrightarrow> NodeEntry (ekey e) (Some (the (evalue e))) None None False = strip e"
  by (auto simp: strip_def isValue_def)

lemma strip_child: "isChild e \<Longrightarrow> echildcid e \<noteq> None \<Longrightarrow> linkEntry (echildcid e) = [strip e]"
  by (auto simp: strip_def linkEntry_def)

lemma unpack:
  "linked es \<Longrightarrow> es = [] \<or> \<not> isChild (hd es) \<Longrightarrow>
     nd_node_loop (pack es prev) prev height out = Inr (if height < 0 then (if es = [] then height else top_height es) else height, out @ map strip es)"
proof (induction es prev arbitrary: height out rule: pack.induct)
  case (2 e prev)
  then show ?case
    by (simp add: unpack_value linkEntry_def strip_value del: nd_node_loop.simps(2))
next
  case (3 e f es prev)
  note h = HeightForKey_nonneg [of "ekey e"]
  show ?case
  proof (cases "isChild f")
    case True
    have "es = [] \<or> \<not> isChild (hd es)" "linked es" "isValue e" using 3 True by auto
    then show ?thesis using 3 True h
      by (simp add: unpack_value strip_value strip_child del: nd_node_loop.simps(2))
  next
    case False
    have "linked (f # es)" "isValue e" "length (ekey e) \<le> MAX_KEY_BYTES" using 3(3,4) False by auto
    then show ?thesis using 3 False h
      by (simp add: unpack_value strip_value linkEntry_def del: nd_node_loop.simps(2) linked.simps(2))
  qed
qed simp

lemma Node_NodeData:
  assumes "linked (entries n)"
  shows "\<exists>d. node_NodeData n = Inr d \<and>
    nd_Node d c = Inr (Node (map strip (entries n)) (top_height (entries n)) (c = None) c False)" (is ?thesis)
proof -
  let ?d = "\<lparr> Left = None, Entries = [] \<rparr>"
  have *: ?thesis if "entries n = pre @ es" "node_NodeData n = nodedata_loop es False [] (?d\<lparr>Left := l\<rparr>)" "linkEntry l = map strip pre"
    "linked es" "es = [] \<or> \<not> isChild (hd es)" "top_height (entries n) = top_height es" for pre es l
  proof (intro exI conjI)
    show "node_NodeData n = Inr (?d\<lparr>Left := l, Entries := pack es []\<rparr>)"
      using that(2) nodedata_pack [OF that(4,5), of "[]" "?d\<lparr>Left := l\<rparr>"] by simp
    show "nd_Node (?d\<lparr>Left := l, Entries := pack es []\<rparr>) c =
        Inr (Node (map strip (entries n)) (top_height (entries n)) (c = None) c False)"
      using that(1,3,6) unpack [OF that(4,5), of "[]" "-1" "map strip pre"] by (simp add: nd_Node_def)
  qed
  show ?thesis
  proof (cases "entries n")
    case Nil
    then show ?thesis by (intro * [of "[]" "[]" None]) (simp_all add: node_NodeData_def linkEntry_def)
  next
    case (Cons e es)
    show ?thesis
    proof (cases "isChild e")
      case True
      then show ?thesis using Cons assms
        by (intro * [of "[e]" es "echildcid e"]) (simp_all add: node_NodeData_def strip_child)
    next
      case False
      then show ?thesis using Cons assms
        by (intro * [of "[]" "entries n" None]) (simp_all add: node_NodeData_def linkEntry_def)
    qed
  qed
qed

lemma nodedata_same:
  assumes "list_all2 (\<lambda>e f. isChild e = isChild f \<and> isValue e = isValue f \<and>
      (isChild e \<longrightarrow> echildcid e = echildcid f) \<and> (isValue e \<longrightarrow> ekey e = ekey f \<and> evalue e = evalue f)) es es'"
  shows "nodedata_loop es first prev d = nodedata_loop es' first prev d"
  using assms
proof (induction es es' arbitrary: first prev d rule: list_all2_induct)
  case (Cons e es f es')
  then show ?case by (auto simp: Let_def)
qed simp

end
