(* ===== verification/MstTree.thy ===== *)
theory MstTree
  imports MstMap "HOL-Library.Multiset"
begin

text \<open>
  Trees as maps with an invariant, the shape of a tree, and canonical trees: the shape is determined by the contents,
  whatever the order of the operations that built it, as long as the tree does not become empty in between.
\<close>

subsection \<open>The invariant of trees\<close>

definition tree_ok :: "Tree \<Rightarrow> bool" where
  "tree_ok t \<longleftrightarrow> (\<exists>h. wf_node h (Root t)) \<and> sorted_keys (Walk t)"

definition contents :: "Tree \<Rightarrow> (bytes \<rightharpoonup> cid)" where
  "contents t = map_of (Walk t)"

lemma valid_key_nonempty: "IsValidKey key \<Longrightarrow> key \<noteq> []"
  by (auto simp: IsValidKey_def)

lemma NewEmptyTree_ok: "tree_ok NewEmptyTree" "contents NewEmptyTree = Map.empty"
  by (auto simp: tree_ok_def NewEmptyTree_def Walk_def contents_def)

lemma Insert_ok:
  assumes "tree_ok t" "IsValidKey key"
  obtains t' where "Insert t key val = Inr (t', contents t key)" "tree_ok t'" "Walk t' = ins key val (Walk t)"
    "\<And>h. wf_node h (Root t) \<Longrightarrow> wf_node (max h (HeightForKey key)) (Root t')" "entries (Root t') \<noteq> []"
proof -
  obtain h where h: "wf_node h (Root t)" "sorted_keys (node_walk (Root t))" using assms(1) by (auto simp: tree_ok_def Walk_def)
  from insert_node_correct [OF h valid_key_nonempty [OF assms(2)], of val] obtain n' where
    n': "insert_node (Root t) key val (-1) = Inr (n', map_of (node_walk (Root t)) key)"
    "wf_node (max h (HeightForKey key)) n'" "entries n' \<noteq> []" "node_walk n' = ins key val (node_walk (Root t))"
    by (auto simp: insert_ok_def)
  have hh: "k = h" if "wf_node k (Root t)" for k using that h(1) by (auto simp: wf_node_iff)
  have "tree_ok \<lparr> Root = n' \<rparr>" using n' ins_sorted [OF h(2)] by (auto simp: tree_ok_def Walk_def)
  then show thesis
    using that [of "\<lparr> Root = n' \<rparr>"] n' assms(2) hh by (auto simp: Insert_def contents_def Walk_def)
qed

lemma Remove_ok:
  assumes "tree_ok t" "IsValidKey key"
  obtains t' where "Remove t key = Inr (t', contents t key)" "tree_ok t'" "Walk t' = del key (Walk t)"
proof -
  obtain h where h: "wf_node h (Root t)" "sorted_keys (node_walk (Root t))" using assms(1) by (auto simp: tree_ok_def Walk_def)
  from remove_node_correct [OF h, of key] obtain n' h' where
    n': "remove_node (Root t) key (-1) = Inr (n', map_of (node_walk (Root t)) key)" "wf_node h' n'"
    "node_walk n' = del key (node_walk (Root t))" by (auto simp: remove_ok_def)
  have "tree_ok \<lparr> Root = n' \<rparr>" using n' del_sorted [OF h(2)] by (auto simp: tree_ok_def Walk_def)
  then show thesis
    using that [of "\<lparr> Root = n' \<rparr>"] n' assms(2) by (auto simp: Remove_def contents_def Walk_def)
qed

lemma Get_ok: "tree_ok t \<Longrightarrow> IsValidKey key \<Longrightarrow> Get t key = Inr (contents t key)"
proof -
  assume a: "tree_ok t" "IsValidKey key"
  then obtain h where h: "wf_node h (Root t)" "sorted_keys (node_walk (Root t))" by (auto simp: tree_ok_def Walk_def)
  have "getCID (Root t) key (-1) = getCID (Root t) key (HeightForKey key)"
    using HeightForKey_nonneg [of key] by (subst (1 2) getCID.simps) simp
  then show ?thesis
    using getCID_correct [OF h HeightForKey_nonneg refl] a(2) by (simp add: Get_def contents_def Walk_def)
qed

subsection \<open>The interface of a key-value tree\<close>

locale kv_tree =
  fixes lookup :: "'t \<Rightarrow> bytes \<Rightarrow> ('e, cid option) result"
    and put :: "'t \<Rightarrow> bytes \<Rightarrow> cid \<Rightarrow> ('e, 't \<times> cid option) result"
    and remove :: "'t \<Rightarrow> bytes \<Rightarrow> ('e, 't \<times> cid option) result"
    and ok :: "'t \<Rightarrow> bool"
    and abs :: "'t \<Rightarrow> (bytes \<rightharpoonup> cid)"
  assumes lookup_law: "ok t \<Longrightarrow> IsValidKey key \<Longrightarrow> lookup t key = Inr (abs t key)"
    and put_law: "ok t \<Longrightarrow> IsValidKey key \<Longrightarrow>
      \<exists>t'. put t key val = Inr (t', abs t key) \<and> ok t' \<and> abs t' = (abs t)(key \<mapsto> val)"
    and remove_law: "ok t \<Longrightarrow> IsValidKey key \<Longrightarrow>
      \<exists>t'. remove t key = Inr (t', abs t key) \<and> ok t' \<and> abs t' = (abs t)(key := None)"
begin

lemma put_lookup:
  assumes "ok t" "IsValidKey key" "IsValidKey key'"
  shows "\<exists>t' prev. put t key val = Inr (t', prev) \<and>
     lookup t' key' = (if key' = key then Inr (Some val) else lookup t key')"
  using put_law [OF assms(1,2), of val] lookup_law assms by fastforce

lemma put_remove:
  assumes "ok t" "IsValidKey key"
  shows "\<exists>t1 t2 prev. put t key val = Inr (t1, prev) \<and> remove t1 key = Inr (t2, Some val) \<and> ok t2 \<and>
     abs t2 = (abs t)(key := None)"
proof -
  obtain t1 where t1: "put t key val = Inr (t1, abs t key)" "ok t1" "abs t1 = (abs t)(key \<mapsto> val)"
    using put_law [OF assms, of val] by blast
  obtain t2 where "remove t1 key = Inr (t2, abs t1 key)" "ok t2" "abs t2 = (abs t1)(key := None)"
    using remove_law [OF t1(2) assms(2)] by blast
  with t1 show ?thesis by fastforce
qed

end

interpretation mst: kv_tree Get Insert Remove tree_ok contents
proof
  show "tree_ok t \<Longrightarrow> IsValidKey key \<Longrightarrow> Get t key = Inr (contents t key)" for t key by (rule Get_ok)
  show "\<exists>t'. Insert t key val = Inr (t', contents t key) \<and> tree_ok t' \<and> contents t' = (contents t)(key \<mapsto> val)"
    if "tree_ok t" "IsValidKey key" for t key val
    using Insert_ok [OF that, of val] by (metis contents_def map_of_ins)
  show "\<exists>t'. Remove t key = Inr (t', contents t key) \<and> tree_ok t' \<and> contents t' = (contents t)(key := None)"
    if "tree_ok t" "IsValidKey key" for t key
    using Remove_ok [OF that] by (metis contents_def map_of_del)
qed

subsection \<open>Shapes\<close>

text \<open>The tree without its caches: dirty flags and content identifiers of complete children are dropped, and so are
  the fields of an entry that do not count.\<close>

fun shape :: "node \<Rightarrow> node" and shape_es :: "entry list \<Rightarrow> entry list" where
  "shape (Node es h d c s) = Node (shape_es es) h False None s"
| "shape_es [] = []"
| "shape_es (e # es) =
     NodeEntry (if isValue e then ekey e else []) (if isValue e then evalue e else None) (if echild e = None then echildcid e else None)
       (case echild e of Some c \<Rightarrow> Some (shape c) | None \<Rightarrow> None) False # shape_es es"

definition at_top :: "int \<Rightarrow> (bytes \<times> cid) list \<Rightarrow> bool" where
  "at_top h xs \<longleftrightarrow> (\<exists>x \<in> set xs. HeightForKey (fst x) = h)"

lemma at_topI: "x \<in> set xs \<Longrightarrow> HeightForKey (fst x) = h \<Longrightarrow> at_top h xs"
  by (auto simp: at_top_def)

lemma low_prefix:
  fixes a b xs ys :: "(bytes \<times> cid) list"
  assumes "\<forall>x \<in> set a. HeightForKey (fst x) < h" "\<forall>x \<in> set b. HeightForKey (fst x) < h"
    "xs = [] \<or> HeightForKey (fst (hd xs)) = h" "ys = [] \<or> HeightForKey (fst (hd ys)) = h" "a @ xs = b @ ys"
  shows "a = b \<and> xs = ys"
proof -
  have *: "takeWhile (\<lambda>x. HeightForKey (fst x) < h) (c @ zs) = c"
    if "\<forall>x \<in> set c. HeightForKey (fst x) < h" "zs = [] \<or> HeightForKey (fst (hd zs)) = h" for c zs :: "(bytes \<times> cid) list"
    using that by (cases zs) (auto simp: takeWhile_append2)
  have "a = b" using * [OF assms(1,3)] * [OF assms(2,4)] assms(5) by metis
  then show ?thesis using assms(5) by simp
qed

lemma rest_starts_high:
  assumes "wf_entries h (e # es)" "isChild e"
  shows "entries_walk es = [] \<or> HeightForKey (fst (hd (entries_walk es))) = h"
proof (cases es)
  case (Cons f fs)
  then have "\<not> isChild f" using assms by simp
  then show ?thesis using assms Cons by auto
qed simp

lemma first_is_value:
  assumes "wf_entries h es" "entries_walk es = x # xs" "HeightForKey (fst x) = h"
  obtains e es' where "es = e # es'" "\<not> isChild e" "isValue e" "ekey e = fst x" "evalue e = Some (snd x)"
    "entries_walk es' = xs" "wf_entries h es'"
proof (cases es)
  case (Cons e es')
  have n: "\<not> isChild e"
  proof
    assume c: "isChild e"
    then obtain ch where ch: "echild e = Some ch" "wf_node (h - 1) ch" "entries ch \<noteq> []" "\<not> isValue e"
      using wf_child [OF assms(1), of e] Cons by auto
    then obtain y ys where "node_walk ch = y # ys" using wf_walk_nonempty by (meson neq_Nil_conv)
    then have "x \<in> set (node_walk ch)" using assms(2) Cons ch by simp
    from wf_heights(1) [OF ch(2) this] show False using assms(3) by simp
  qed
  have ev: "isValue e" "echild e = None" using wf_value [OF assms(1) _ n] Cons by auto
  then obtain v where v: "evalue e = Some v" by (auto simp: isValue_def)
  have w: "x = (ekey e, v)" "entries_walk es' = xs" using assms(2) ev v by (simp_all add: Cons)
  show thesis by (rule that [OF Cons n ev(1)]) (use w v assms(1) Cons in simp_all)
qed (use assms in simp)

lemma shape_value:
  assumes "\<not> isChild e" "\<not> isChild e'" "ekey e = ekey e'" "evalue e = evalue e'" "shape_es es = shape_es es'"
  shows "shape_es (e # es) = shape_es (e' # es')"
  using assms by (auto simp: isChild_def isValue_def)

lemma shape_child:
  assumes "echild e = Some c" "echild e' = Some c'" "\<not> isValue e" "\<not> isValue e'"
    "shape c = shape c'" "shape_es es = shape_es es'"
  shows "shape_es (e # es) = shape_es (e' # es')"
  using assms by auto

lemma wf_child_Cons:
  assumes "wf_entries h (e # es)" "isChild e"
  obtains c where "echild e = Some c" "wf_node (h - 1) c" "entries c \<noteq> []" "\<not> isValue e" "wf_entries h es"
    "entries_walk (e # es) = node_walk c @ entries_walk es" "\<forall>x \<in> set (node_walk c). HeightForKey (fst x) < h"
    "entries_walk es = [] \<or> HeightForKey (fst (hd (entries_walk es))) = h"
proof -
  obtain c where c: "echild e = Some c" "wf_node (h - 1) c" "entries c \<noteq> []" "\<not> isValue e"
    using wf_child [OF assms(1) _ assms(2)] by auto
  have "\<forall>x \<in> set (node_walk c). HeightForKey (fst x) < h" using wf_heights(1) [OF c(2)] by fastforce
  then show thesis using that c rest_starts_high [OF assms] assms by simp
qed

lemma shape_unique:
  "wf_node h n \<Longrightarrow> wf_node h n' \<Longrightarrow> node_walk n = node_walk n' \<Longrightarrow> shape n = shape n'"
  "wf_entries h es \<Longrightarrow> wf_entries h es' \<Longrightarrow> entries_walk es = entries_walk es' \<Longrightarrow> shape_es es = shape_es es'"
proof (induction h n and h es arbitrary: n' and es' rule: wf_node_wf_entries.induct)
  case (1 h es H d c s)
  then show ?case by (cases n') auto
next
  case (2 h)
  then show ?case using wf_walk_nonempty(2) [of h es'] by (cases "es' = []") auto
next
  case (3 h e es)
  show ?case
  proof (cases "isChild e")
    case False
    then obtain v where v: "isValue e" "HeightForKey (ekey e) = h" "evalue e = Some v" "wf_entries h es" "echild e = None"
      using 3(3) wf_value [OF 3(3) _ False] by (auto simp: isValue_def)
    then have w: "entries_walk es' = (ekey e, v) # entries_walk es" using 3(5) by simp
    obtain e' fs where f: "es' = e' # fs" "\<not> isChild e'" "isValue e'" "ekey e' = ekey e" "evalue e' = Some v"
      "entries_walk fs = entries_walk es" "wf_entries h fs"
      by (rule first_is_value [OF 3(4) w]) (use v in auto)
    have "shape_es es = shape_es fs" by (rule 3(2) [OF v(4) f(7) f(6) [symmetric]])
    with f v False show ?thesis using shape_value [of e e'] by simp
  next
    case True
    from wf_child_Cons [OF 3(3) this] obtain c where c: "echild e = Some c" "wf_node (h - 1) c" "entries c \<noteq> []"
      "\<not> isValue e" "wf_entries h es" "entries_walk (e # es) = node_walk c @ entries_walk es"
      "\<forall>x \<in> set (node_walk c). HeightForKey (fst x) < h"
      "entries_walk es = [] \<or> HeightForKey (fst (hd (entries_walk es))) = h" .
    obtain x xs where x: "node_walk c = x # xs" using wf_walk_nonempty(1) [OF c(2,3)] by (meson neq_Nil_conv)
    show ?thesis
    proof (cases es')
      case Nil
      then show ?thesis using 3(5) c(6) x by simp
    next
      case (Cons e' fs)
      have "isChild e'"
      proof (rule ccontr)
        assume n: "\<not> isChild e'"
        then have "isValue e'" "HeightForKey (ekey e') = h" using wf_value [OF 3(4) _ n] Cons by auto
        then have "HeightForKey (fst x) = h" using 3(5) c(6) x Cons by auto
        then show False using c(7) x by simp
      qed
      then obtain c' where c': "echild e' = Some c'" "wf_node (h - 1) c'" "\<not> isValue e'" "wf_entries h fs"
        "entries_walk (e' # fs) = node_walk c' @ entries_walk fs" "\<forall>x \<in> set (node_walk c'). HeightForKey (fst x) < h"
        "entries_walk fs = [] \<or> HeightForKey (fst (hd (entries_walk fs))) = h"
        using wf_child_Cons [of h e' fs] 3(4) Cons by metis
      have "node_walk c @ entries_walk es = node_walk c' @ entries_walk fs" using 3(5) c(6) c'(5) Cons by simp
      with low_prefix [OF c(7) c'(6) c(8) c'(7)] have
        w: "node_walk c = node_walk c'" "entries_walk es = entries_walk fs" by auto
      have "shape c = shape c'" "shape_es es = shape_es fs"
        by (rule 3(1) [OF True c(1) c(2) c'(2) w(1)]) (rule 3(2) [OF c(5) c'(4) w(2)])
      then show ?thesis unfolding Cons by (rule shape_child [OF c(1) c'(1) c(4) c'(3)])
    qed
  qed
qed

subsection \<open>Canonical trees\<close>

text \<open>A node that is not empty has a value of its own height; an empty tree has height 0.\<close>

definition canonical :: "Tree \<Rightarrow> bool" where
  "canonical t \<longleftrightarrow> tree_ok t \<and> (if entries (Root t) = [] then nheight (Root t) = 0 else has_value (Root t))"

lemma has_value_at_top:
  assumes "wf_node h n"
  shows "has_value n \<longleftrightarrow> at_top h (node_walk n)"
proof
  assume "has_value n"
  then obtain e where e: "e \<in> set (entries n)" "isValue e" by (auto simp: has_value_def)
  have w: "wf_entries h (entries n)" using assms by (simp add: wf_node_iff)
  have "\<not> isChild e" using wf_child [OF w e(1)] e(2) by auto
  from wf_value [OF w e(1) this] walk_single_value [OF e(2) this] walk_mem [OF e(1)]
  show "at_top h (node_walk n)" by (force simp: at_top_def node_walk_entries)
next
  assume "at_top h (node_walk n)"
  then obtain x where x: "x \<in> set (entries_walk (entries n))" "HeightForKey (fst x) = h"
    by (auto simp: at_top_def node_walk_entries)
  have "wf_entries h es \<Longrightarrow> x \<in> set (entries_walk es) \<Longrightarrow> \<exists>e \<in> set es. isValue e" for es
  proof (induction es)
    case (Cons e es)
    show ?case
    proof (cases "isChild e")
      case True
      from wf_child_Cons [OF Cons.prems(1) this] obtain c where c: "wf_entries h es"
        "entries_walk (e # es) = node_walk c @ entries_walk es" "\<forall>x \<in> set (node_walk c). HeightForKey (fst x) < h" .
      have "x \<in> set (entries_walk es)" using Cons.prems(2) c x(2) unfolding c(2) by auto
      then show ?thesis using Cons.IH c(1) by auto
    next
      case False
      then show ?thesis using wf_value [OF Cons.prems(1) _ False] by simp
    qed
  qed simp
  from this [of "entries n"] show "has_value n" using assms x by (simp add: has_value_def wf_node_iff)
qed

lemma canonical_height:
  assumes "canonical t" "Walk t \<noteq> []"
  shows "nheight (Root t) = Max (HeightForKey ` set (keys (Walk t)))"
proof -
  obtain h where h: "wf_node h (Root t)" using assms by (auto simp: canonical_def tree_ok_def)
  have "entries (Root t) \<noteq> []" using assms(2) by (auto simp: Walk_def node_walk_entries)
  then have "has_value (Root t)" using assms(1) by (simp add: canonical_def)
  then have "at_top h (Walk t)" using has_value_at_top [OF h] by (simp add: Walk_def)
  then have "h \<in> HeightForKey ` set (keys (Walk t))" by (auto simp: at_top_def image_image)
  moreover have "x \<le> h" if "x \<in> HeightForKey ` set (keys (Walk t))" for x
    using that wf_heights(1) [OF h] by (auto simp: Walk_def image_image)
  ultimately have "Max (HeightForKey ` set (keys (Walk t))) = h" by (intro Max_eqI) auto
  moreover have "nheight (Root t) = h" using h by (simp add: wf_node_iff)
  ultimately show ?thesis by simp
qed

lemma canonical_shape:
  assumes "canonical t" "canonical t'" "Walk t = Walk t'"
  shows "shape (Root t) = shape (Root t')"
proof -
  obtain h h' where h: "wf_node h (Root t)" "wf_node h' (Root t')" using assms by (auto simp: canonical_def tree_ok_def)
  have n: "nheight (Root t) = h" "nheight (Root t') = h'" using h by (simp_all add: wf_node_iff)
  have "h = h'"
  proof (cases "Walk t = []")
    case True
    then have "entries (Root t) = []" "entries (Root t') = []"
      using wf_walk_nonempty(1) [OF h(1)] wf_walk_nonempty(1) [OF h(2)] assms(3) by (auto simp: Walk_def)
    then show ?thesis using assms n by (simp add: canonical_def)
  next
    case False
    then show ?thesis using canonical_height [OF assms(1)] canonical_height [OF assms(2)] assms(3) n by simp
  qed
  then show ?thesis using shape_unique(1) [OF h(1)] h(2) assms(3) by (simp add: Walk_def)
qed

lemma canonicalI:
  assumes "tree_ok t" "wf_node h (Root t)" "at_top h (Walk t)"
  shows "canonical t"
proof -
  have "has_value (Root t)" using has_value_at_top [OF assms(2)] assms(3) by (simp add: Walk_def)
  moreover then have "entries (Root t) \<noteq> []" by (auto simp: has_value_def)
  ultimately show ?thesis using assms(1) by (simp add: canonical_def)
qed

lemma canonical_cases:
  assumes "canonical t"
  obtains "Walk t = []" "entries (Root t) = []" "wf_node 0 (Root t)" | h where "wf_node h (Root t)" "at_top h (Walk t)" "Walk t \<noteq> []"
proof -
  obtain h where h: "wf_node h (Root t)" using assms by (auto simp: canonical_def tree_ok_def)
  show thesis
  proof (cases "entries (Root t) = []")
    case True
    then show thesis using h assms that(1) by (simp add: canonical_def Walk_def node_walk_entries wf_node_iff)
  next
    case False
    then show thesis using that(2) [OF h] h assms has_value_at_top [OF h] wf_walk_nonempty(1) [OF h]
      by (simp add: canonical_def Walk_def)
  qed
qed

lemma ins_set: "(key, val) \<in> set (ins key val xs)" "x \<in> set xs \<Longrightarrow> fst x \<noteq> key \<Longrightarrow> x \<in> set (ins key val xs)"
  by (auto simp: ins_def lower_def upper_def not_less_iff_gr_or_eq)

lemma Insert_canonical:
  assumes "canonical t" "IsValidKey key"
  shows "\<exists>t'. Insert t key val = Inr (t', contents t key) \<and> canonical t' \<and> Walk t' = ins key val (Walk t)"
proof -
  have ok: "tree_ok t" using assms(1) by (simp add: canonical_def)
  obtain t' where t': "Insert t key val = Inr (t', contents t key)" "tree_ok t'" "Walk t' = ins key val (Walk t)"
    "\<And>h. wf_node h (Root t) \<Longrightarrow> wf_node (max h (HeightForKey key)) (Root t')"
    using Insert_ok [OF ok assms(2), of val] by metis
  have "canonical t'"
  proof (cases rule: canonical_cases [OF assms(1)])
    case 1
    then have "wf_node (HeightForKey key) (Root t')" using t'(4) [of 0] HeightForKey_nonneg [of key] by simp
    moreover have "at_top (HeightForKey key) (Walk t')" unfolding t'(3) by (rule at_topI [OF ins_set(1)]) simp
    ultimately show ?thesis using t'(2) canonicalI by blast
  next
    case (2 h)
    then obtain x where x: "x \<in> set (Walk t)" "HeightForKey (fst x) = h" by (auto simp: at_top_def)
    show ?thesis
    proof (cases "HeightForKey key < h")
      case True
      then have "x \<in> set (Walk t')" using x ins_set(2) [of x "Walk t" key val] t'(3) by auto
      then have "at_top h (Walk t')" using x(2) by (rule at_topI)
      then show ?thesis using t'(2) t'(4) [OF 2(1)] True canonicalI by simp
    next
      case False
      have "at_top (HeightForKey key) (Walk t')" unfolding t'(3) by (rule at_topI [OF ins_set(1)]) simp
      then show ?thesis using t'(2) t'(4) [OF 2(1)] False canonicalI by (simp add: max_def split: if_splits)
    qed
  qed
  with t' show ?thesis by blast
qed

lemma remove_keeps_top:
  assumes "wf_node h n" "sorted_keys (node_walk n)" "at_top h (node_walk n)" "remove_node n key (-1) = Inr (n', prev)"
  shows "entries n' = [] \<or> has_value n'"
proof (cases "HeightForKey key = h")
  case True
  then have eq: "remove_node n key (-1) = remove_here n key True"
    using assms(1) by (subst remove_node.simps) (simp add: key_height_def wf_node_iff)
  note here = remove_here_correct [OF assms(1,2) True, where atTop = True]
  show ?thesis
  proof (cases prev)
    case None
    then have "n' = n" using here(1) assms(4) eq by (auto simp: remove_ok_def)
    then show ?thesis using assms(3) has_value_at_top [OF assms(1)] by simp
  next
    case (Some v)
    then show ?thesis using here(2) assms(4) eq by simp
  qed
next
  case False
  then have "remove_node n key (-1) = remove_node n key (HeightForKey key)"
    using assms(1) HeightForKey_nonneg [of key]
    by (subst (1 2) remove_node.simps) (simp add: key_height_def wf_node_iff)
  then have n': "wf_node h n'" "node_walk n' = del key (node_walk n)"
    using remove_down [OF assms(1,2), of key] assms(4) by (auto simp: remove_ok_def)
  obtain x where x: "x \<in> set (node_walk n)" "HeightForKey (fst x) = h" using assms(3) by (auto simp: at_top_def)
  then have "x \<in> set (node_walk n')" using False unfolding n'(2) by (auto simp: del_def)
  then have "at_top h (node_walk n')" using x(2) by (rule at_topI)
  then show ?thesis using has_value_at_top [OF n'(1)] by simp
qed

lemma Remove_canonical:
  assumes "canonical t" "IsValidKey key"
  shows "\<exists>t'. Remove t key = Inr (t', contents t key) \<and> tree_ok t' \<and> Walk t' = del key (Walk t) \<and>
     (Walk t' \<noteq> [] \<longrightarrow> canonical t')"
proof -
  have ok: "tree_ok t" using assms(1) by (simp add: canonical_def)
  obtain t' where t': "Remove t key = Inr (t', contents t key)" "tree_ok t'" "Walk t' = del key (Walk t)"
    using Remove_ok [OF ok assms(2)] by metis
  have "canonical t'" if ne: "Walk t' \<noteq> []"
  proof (cases rule: canonical_cases [OF assms(1)])
    case 1
    then show ?thesis using t'(3) ne by (simp add: del_def)
  next
    case (2 h)
    have "remove_node (Root t) key (-1) = Inr (Root t', contents t key)"
      using t'(1) assms(2) by (auto simp: Remove_def rbind_Inr_iff)
    from remove_keeps_top [OF 2(1) _ _ this] have "entries (Root t') = [] \<or> has_value (Root t')"
      using ok 2(2) by (simp add: tree_ok_def Walk_def)
    moreover have "entries (Root t') \<noteq> []" using ne by (auto simp: Walk_def node_walk_entries)
    ultimately show ?thesis using t'(2) by (simp add: canonical_def)
  qed
  with t' show ?thesis by blast
qed

lemma NewEmptyTree_canonical: "canonical NewEmptyTree"
  by (auto simp: canonical_def NewEmptyTree_ok) (simp_all add: NewEmptyTree_def)

subsection \<open>Loading\<close>

lemma load_pairs_correct:
  assumes "canonical t" "list_all (\<lambda>x. IsValidKey (fst x)) m"
  shows "\<exists>t'. load_pairs m t = Inr t' \<and> canonical t' \<and> contents t' = contents t ++ map_of (rev m)"
  using assms
proof (induction m arbitrary: t)
  case (Cons x m)
  obtain key val where x: "x = (key, val)" by (cases x)
  with Cons.prems Insert_canonical [of t key val] obtain t1 where
    t1: "Insert t key val = Inr (t1, contents t key)" "canonical t1" "Walk t1 = ins key val (Walk t)" by auto
  have "contents t1 = (contents t)(key \<mapsto> val)" by (simp add: contents_def t1(3) map_of_ins)
  moreover obtain t' where "load_pairs m t1 = Inr t'" "canonical t'" "contents t' = contents t1 ++ map_of (rev m)"
    using Cons.IH [OF t1(2)] Cons.prems(2) by auto
  ultimately show ?case using t1(1) x by simp
qed simp

lemma sorted_pairs_unique:
  assumes "sorted_keys xs" "sorted_keys ys" "map_of xs = map_of ys"
  shows "xs = ys"
proof -
  have d: "distinct (keys xs)" "distinct (keys ys)" using assms(1,2) by (simp_all add: strict_sorted_iff)
  have s: "set xs = set ys" using map_of_inject_set [OF d] assms(3) by simp
  then have "keys xs = keys ys" using strict_sorted_equal [OF assms(1,2)] by simp
  then have l: "length xs = length ys" by (metis length_map)
  show ?thesis
  proof (rule nth_equalityI [OF l])
    fix i assume i: "i < length xs"
    have "xs ! i \<in> set ys" "ys ! i \<in> set ys" using s i l nth_mem by auto
    moreover have "fst (xs ! i) = fst (ys ! i)" using \<open>keys xs = keys ys\<close> i l by (metis nth_map)
    ultimately show "xs ! i = ys ! i" using eq_key_imp_eq_value [OF d(2)] by (metis prod.collapse)
  qed
qed

lemma canonical_contents:
  assumes "canonical t" "canonical t'" "contents t = contents t'"
  shows "Walk t = Walk t'" "shape (Root t) = shape (Root t')"
proof -
  show "Walk t = Walk t'"
    using assms sorted_pairs_unique by (simp add: canonical_def tree_ok_def contents_def)
  with assms show "shape (Root t) = shape (Root t')" by (intro canonical_shape)
qed

subsection \<open>Sample keys\<close>

lemma sha_a: "sha_int [97] =
   [202, 151, 129, 18, 202, 27, 189, 202, 250, 194, 49, 179, 154, 35, 220, 77, 167, 134, 239, 248, 20, 124, 78, 114, 185, 128, 119, 133, 175, 238, 72, 187]"
  by code_simp

lemma sha_b: "sha_int [98] =
   [62, 35, 232, 22, 0, 57, 89, 74, 51, 137, 79, 101, 100, 225, 177, 52, 139, 189, 122, 0, 136, 212, 44, 74, 203, 115, 238, 174, 213, 156, 0, 157]"
  by code_simp

lemma sha_s: "sha_int [115] =
   [4, 58, 113, 135, 116, 197, 114, 189, 138, 37, 173, 190, 177, 191, 205, 92, 2, 86, 174, 17, 206, 207, 159, 156, 63, 146, 93, 14, 82, 190, 175, 137]"
  by code_simp

lemma sha_g: "sha_int [103] =
   [205, 10, 169, 133, 97, 71, 182, 197, 180, 255, 43, 125, 254, 229, 218, 32, 170, 56, 37, 48, 153, 239, 27, 74, 100, 172, 237, 35, 60, 154, 254, 41]"
  by code_simp

lemma sample_heights [simp]:
  "HeightForKey [97] = 0" "HeightForKey [98] = 1" "HeightForKey [103] = 0" "HeightForKey [115] = 2"
  by (simp_all add: HeightForKey_def Sum256_def sha_a sha_b sha_g sha_s)

definition sample_tree :: Tree where
  "sample_tree = \<lparr> Root = Node [childEntry (Node [childEntry (Node [valueEntry [97] [1]] 0 True None False),
     valueEntry [98] [2]] 1 True None False), valueEntry [115] [3]] 2 True None False \<rparr>"

lemma sample_walk: "Walk sample_tree = [([97], [1]), ([98], [2]), ([115], [3])]"
  by (simp add: sample_tree_def Walk_def)

lemma sample_canonical: "canonical sample_tree"
proof -
  have "wf_node 2 (Root sample_tree)" by (simp add: sample_tree_def)
  moreover have "sorted_keys (Walk sample_tree)" by (simp add: sample_walk)
  ultimately show ?thesis by (auto simp: canonical_def tree_ok_def has_value_def) (simp_all add: sample_tree_def)
qed

lemma sample_ok: "tree_ok sample_tree"
  using sample_canonical by (simp add: canonical_def)

subsection \<open>Properties of the search tree\<close>

lemma sha_mix_length [simp]: "length (sha_mix t1 t2 s) = length s"
  by (auto simp: sha_mix_def split: list.splits)

lemma sha_round_length [simp]: "length (sha_round kw s) = length s"
  by (cases "(kw, s)" rule: sha_round.cases) simp_all

lemma fold_length: "(\<And>x s. length (f x s) = length s) \<Longrightarrow> length (fold f xs s) = length s"
  by (induction xs arbitrary: s) simp_all

lemma Sum256_length: "length (Sum256 m) = 32"
proof -
  have c: "length (sha_compress b s) = length s" for b s
    by (simp add: sha_compress_def fold_length)
  have l: "length (concat (map (\<lambda>w. [f w, g w, k w, j w]) ws)) = 4 * length ws" for f g k j :: "int \<Rightarrow> int" and ws
    by (induction ws) simp_all
  have "length sha_init = 8" unfolding sha_init_def length_map by (simp add: sha_primes_def)
  then show ?thesis by (simp add: Sum256_def sha_int_def l fold_length c)
qed

lemma height_loop_bounds: "height \<le> height_loop bs height \<and> height_loop bs height \<le> height + 4 * int (length bs)"
proof (induction bs arbitrary: height)
  case (Cons b bs)
  have "height + 4 \<le> height_loop bs (height + 4) \<and> height_loop bs (height + 4) \<le> height + 4 + 4 * int (length bs)"
    by (rule Cons)
  then show ?case by (simp only: height_loop.simps split: if_split) simp
qed simp

lemma writeToMap_walk:
  "writeToMap n m = m ++ map_of (rev (node_walk n))"
  "entries_writeToMap es m = m ++ map_of (rev (entries_walk es))"
proof (induction n and es arbitrary: m and m rule: node_walk_entries_walk.induct)
  case (3 e es)
  then show ?case by (cases "isValue e"; cases "echild e") (simp_all add: Let_def)
qed simp_all

lemma deepCopy_id: "deepCopy n = n" "entries_copy es = es"
proof (induction n and es rule: deepCopy_entries_copy.induct)
  case (3 e es)
  then show ?case by (cases e) (auto split: option.splits)
qed simp_all

text \<open>C31: Every key has a height between 0 and 128: the pairs of leading zero bits of its SHA-256 hash.\<close>

theorem height_bounds: "0 \<le> HeightForKey key \<and> HeightForKey key \<le> 128"
  using height_loop_bounds [of 0 "Sum256 key"] by (simp add: HeightForKey_def Sum256_length)

text \<open>C3: On every well-formed tree and every valid key, \<open>Insert\<close> succeeds, returns the previous value of the key, keeps
  the tree well-formed, and changes the contents at that key only, which \<open>Get\<close> then reports for every key.\<close>

theorem mst_insert:
  assumes "tree_ok t" "IsValidKey key"
  shows "\<exists>t'. Insert t key val = Inr (t', contents t key) \<and> tree_ok t' \<and> contents t' = (contents t)(key \<mapsto> val) \<and>
     (\<forall>k. IsValidKey k \<longrightarrow> Get t' k = Inr (if k = key then Some val else contents t k))"
  using mst.put_law [OF assms, of val] mst.lookup_law by force

theorem mst_insert_witness:
  "\<exists>t'. Insert sample_tree [99] [4] = Inr (t', None) \<and> tree_ok t' \<and> Get t' [99] = Inr (Some [4])"
  using mst_insert [OF sample_ok, of "[99]" "[4]"]
  by (auto simp: IsValidKey_def MAX_KEY_BYTES_def contents_def sample_walk)

text \<open>C4: On every well-formed tree and every valid key, \<open>Remove\<close> succeeds, returns the previous value of the key, keeps
  the tree well-formed, and takes that key out of the contents.\<close>

theorem mst_remove:
  assumes "tree_ok t" "IsValidKey key"
  shows "\<exists>t'. Remove t key = Inr (t', contents t key) \<and> tree_ok t' \<and> contents t' = (contents t)(key := None) \<and>
     (\<forall>k. IsValidKey k \<longrightarrow> Get t' k = Inr (if k = key then None else contents t k))"
  using mst.remove_law [OF assms] mst.lookup_law by force

theorem mst_remove_witness:
  "\<exists>t'. Remove sample_tree [98] = Inr (t', Some [2]) \<and> tree_ok t' \<and> Get t' [98] = Inr None \<and> Get t' [97] = Inr (Some [1])"
  using mst_remove [OF sample_ok, of "[98]"]
  by (auto simp: IsValidKey_def MAX_KEY_BYTES_def contents_def sample_walk)

text \<open>C10: Insertion and removal keep trees canonical, removal unless it takes the last key.\<close>

theorem canonical_preserved:
  assumes "canonical t" "IsValidKey key"
  shows "(\<exists>t'. Insert t key val = Inr (t', contents t key) \<and> canonical t' \<and> contents t' = (contents t)(key \<mapsto> val)) \<and>
     (\<exists>t'. Remove t key = Inr (t', contents t key) \<and> contents t' = (contents t)(key := None) \<and>
        (contents t' = Map.empty \<or> canonical t'))"
proof (rule conjI)
  show "\<exists>t'. Insert t key val = Inr (t', contents t key) \<and> canonical t' \<and> contents t' = (contents t)(key \<mapsto> val)"
    using Insert_canonical [OF assms, of val] by (metis contents_def map_of_ins)
  obtain t' where t': "Remove t key = Inr (t', contents t key)" "Walk t' = del key (Walk t)" "Walk t' \<noteq> [] \<longrightarrow> canonical t'"
    using Remove_canonical [OF assms] by blast
  have "contents t' = (contents t)(key := None)" unfolding contents_def t'(2) by (rule map_of_del)
  moreover have "contents t' = Map.empty \<or> canonical t'" using t'(3) by (auto simp: contents_def)
  ultimately show "\<exists>t'. Remove t key = Inr (t', contents t key) \<and> contents t' = (contents t)(key := None) \<and>
      (contents t' = Map.empty \<or> canonical t')" using t'(1) by blast
qed

theorem canonical_preserved_witness:
  "(\<exists>t'. Insert sample_tree [99] [4] = Inr (t', None) \<and> canonical t') \<and>
   (\<exists>t'. Remove sample_tree [115] = Inr (t', Some [3]) \<and> canonical t')"
proof -
  have "(contents sample_tree)([115] := None) \<noteq> Map.empty"
    by (rule notI, drule fun_cong [where x = "[97]"]) (simp add: contents_def sample_walk)
  moreover have "IsValidKey [99]" "IsValidKey [115]" by (simp_all add: IsValidKey_def MAX_KEY_BYTES_def)
  moreover have "contents sample_tree [99] = None" "contents sample_tree [115] = Some [3]"
    by (simp_all add: contents_def sample_walk)
  ultimately show ?thesis
    using canonical_preserved [OF sample_canonical, of "[99]" "[4]"] canonical_preserved [OF sample_canonical, of "[115]" "[4]"]
    by metis
qed

text \<open>C19: The shape of a canonical tree is determined by its contents: two canonical trees with the same contents have the
  same nodes, whatever operations built them.\<close>

theorem canonical_unique:
  assumes "canonical t" "canonical t'" "contents t = contents t'"
  shows "shape (Root t) = shape (Root t') \<and> Walk t = Walk t'"
  using canonical_contents [OF assms] by simp

theorem canonical_unique_witness:
  "\<exists>t. LoadTreeFromMap [([115], [3]), ([97], [1]), ([98], [2])] = Inr t \<and> shape (Root t) = shape (Root sample_tree)"
proof -
  obtain t where t: "LoadTreeFromMap [([115], [3]), ([97], [1]), ([98], [2])] = Inr t" "canonical t"
    "contents t = map_of (rev [([115], [3]), ([97], [1]), ([98], [2])])"
    using load_pairs_correct [OF NewEmptyTree_canonical, of "[([115], [3]), ([97], [1]), ([98], [2])]"]
    by (auto simp: IsValidKey_def MAX_KEY_BYTES_def LoadTreeFromMap_def NewEmptyTree_ok)
  have "contents t = contents sample_tree"
    unfolding t(3) by (rule ext) (simp add: contents_def sample_walk)
  then show ?thesis using canonical_unique [OF t(2) sample_canonical] t(1) by simp
qed

text \<open>C28: \<open>LoadTreeFromMap\<close> succeeds on every map with valid keys, its result holds the pairs of the map, and does not
  depend on the order in which the iteration over the map takes them.\<close>

theorem load_order_independent:
  assumes "list_all (\<lambda>x. IsValidKey (fst x)) m" "distinct (keys m)" "mset m' = mset m"
  shows "\<exists>t t'. LoadTreeFromMap m = Inr t \<and> LoadTreeFromMap m' = Inr t' \<and> canonical t \<and> contents t = map_of m \<and>
     shape (Root t) = shape (Root t')"
proof -
  have "mset (keys m') = mset (keys m)" using assms(3) by simp
  then have s: "set m' = set m" "distinct (keys m')"
    using assms(2) mset_eq_setD [OF assms(3)] mset_eq_imp_distinct_iff by blast+
  have v: "list_all (\<lambda>x. IsValidKey (fst x)) m'" using assms(1) s(1) by (simp add: list_all_iff)
  have r: "map_of (rev xs) = map_of xs" if "distinct (keys xs)" for xs :: "(bytes \<times> cid) list"
    using map_of_inject_set [of "rev xs" xs] that by (simp add: distinct_map)
  have "map_of m' = map_of m" using map_of_inject_set [OF s(2) assms(2)] s(1) by simp
  moreover obtain t where "LoadTreeFromMap m = Inr t" "canonical t" "contents t = map_of m"
    using load_pairs_correct [OF NewEmptyTree_canonical assms(1)] r [OF assms(2)]
    by (auto simp: LoadTreeFromMap_def NewEmptyTree_ok)
  moreover obtain t' where "LoadTreeFromMap m' = Inr t'" "canonical t'" "contents t' = map_of m'"
    using load_pairs_correct [OF NewEmptyTree_canonical v] r [OF s(2)] by (auto simp: LoadTreeFromMap_def NewEmptyTree_ok)
  ultimately show ?thesis using canonical_contents(2) [of t t'] by simp
qed

theorem load_order_independent_witness:
  "\<exists>t t'. LoadTreeFromMap [([97], [1]), ([98], [2])] = Inr t \<and> LoadTreeFromMap [([98], [2]), ([97], [1])] = Inr t' \<and>
     shape (Root t) = shape (Root t')"
  using load_order_independent [of "[([97], [1]), ([98], [2])]" "[([98], [2]), ([97], [1])]"]
  by (auto simp: IsValidKey_def MAX_KEY_BYTES_def add_mset_commute)






text \<open>C40: \<open>Verify\<close> does not see keys in the wrong order across levels: it accepts a tree with the key \<open>g\<close> below and before
  the key \<open>b\<close>, which is not sorted and in which a lookup does not find \<open>g\<close>.\<close>

theorem verify_misses_order:
  "\<exists>t. Verify t \<and> Walk t = [([103], [1]), ([98], [2])] \<and> \<not> sorted_keys (Walk t) \<and> Get t [103] = Inr None"
proof -
  let ?t = "\<lparr> Root = Node [childEntry (Node [valueEntry [103] [1]] 0 True None False), valueEntry [98] [2]] 1 True None False \<rparr>"
  have "Verify ?t" "Walk ?t = [([103], [1]), ([98], [2])]" "Get ?t [103] = Inr None"
    by (simp_all add: Verify_def Walk_def Get_def IsValidKey_def MAX_KEY_BYTES_def getCID.simps findExistingChild_def)
  then show ?thesis by (intro exI [of _ ?t]) simp
qed

end
