(* ===== verification/MstStore.thy ===== *)
theory MstStore
  imports MstEncoding MstTree
begin

text \<open>
  Root identifiers and block stores (\<^verbatim>\<open>atproto/repo/mst/encoding.go\<close>, \<^verbatim>\<open>tree.go\<close>): writing the changed nodes of a tree as
  blocks with the identifiers that are cached in it, and loading a tree from blocks. A blockstore is the map of its blocks
  and the outcomes of its writes; a source of blocks is a function from identifiers to blocks or errors, with
  \<open>ErrMissingBlock\<close> for a block that is not found.
\<close>

subsection \<open>Writing\<close>

record blockstore =
  blocks :: "cid \<rightharpoonup> bytes"
  put_fails :: "cid \<Rightarrow> bool"

definition bs_Put :: "blockstore option \<Rightarrow> cid \<Rightarrow> bytes \<Rightarrow> (mst_error, blockstore option) result" where
  "bs_Put bs c b =
     (case bs of
        None \<Rightarrow> Inr None
      | Some s \<Rightarrow> if put_fails s c then Inl ErrStore else Inr (Some (s\<lparr>blocks := (blocks s)(c \<mapsto> b)\<rparr>)))"

fun setLink :: "cid \<Rightarrow> node \<Rightarrow> entry \<Rightarrow> entry" where
  "setLink cc ch (NodeEntry k v _ _ _) = NodeEntry k v (Some cc) (Some ch) False"

text \<open>\<^verbatim>\<open>writeBlocks\<close> returns the identifier, the node with its caches filled and the store; \<open>write_children\<close> is its loop over
  the entries. The loop variable of the code is a copy: clearing the flag of a value entry only affects the test below.\<close>

fun writeBlocks :: "cborlib \<Rightarrow> bool \<Rightarrow> node \<Rightarrow> blockstore option \<Rightarrow> (mst_error, cid \<times> node \<times> blockstore option) result"
  and write_children :: "cborlib \<Rightarrow> bool \<Rightarrow> entry list \<Rightarrow> blockstore option \<Rightarrow> (mst_error, entry list \<times> blockstore option) result"
where
  "writeBlocks L onlyDirty (Node es h d c s) bs =
     (if s then Inl ErrInvalidTree
      else if onlyDirty \<and> \<not> d \<and> c \<noteq> None then Inr (the c, Node es h d c s, bs)
      else
        rbind (write_children L onlyDirty es bs) (\<lambda>(es, bs).
          rbind (node_NodeData (Node es h d c s)) (\<lambda>nd.
            rbind (nd_Bytes L nd) (\<lambda>(b, cc).
              rbind (bs_Put bs cc b) (\<lambda>bs. Inr (cc, Node es h False (Some cc) s, bs))))))"
| "write_children L onlyDirty [] bs = Inr ([], bs)"
| "write_children L onlyDirty (e # es) bs =
     (case echild e of
        None \<Rightarrow> rbind (write_children L onlyDirty es bs) (\<lambda>(es, bs). Inr (e # es, bs))
      | Some ch \<Rightarrow>
          if edirty e \<and> \<not> isValue e \<or> ndirty ch \<or> \<not> onlyDirty then
            rbind (writeBlocks L onlyDirty ch bs) (\<lambda>(cc, ch, bs).
              rbind (write_children L onlyDirty es bs) (\<lambda>(es, bs). Inr (setLink cc ch e # es, bs)))
          else rbind (write_children L onlyDirty es bs) (\<lambda>(es, bs). Inr (e # es, bs)))"

definition RootCID :: "cborlib \<Rightarrow> Tree \<Rightarrow> (mst_error, cid \<times> Tree) result" where
  "RootCID L t =
     (if nstub (Root t) \<and> \<not> ndirty (Root t) \<and> ncid (Root t) \<noteq> None then Inr (the (ncid (Root t)), t)
      else rbind (writeBlocks L True (Root t) None) (\<lambda>(c, n, _). Inr (c, \<lparr> Root = n \<rparr>)))"

definition WriteDiffBlocks :: "cborlib \<Rightarrow> Tree \<Rightarrow> blockstore \<Rightarrow> (mst_error, cid \<times> Tree \<times> blockstore) result" where
  "WriteDiffBlocks L t bs =
     rbind (writeBlocks L True (Root t) (Some bs)) (\<lambda>(c, n, bs). Inr (c, \<lparr> Root = n \<rparr>, the bs))"

subsection \<open>Loading\<close>

text \<open>A result that may need more fuel.\<close>

definition fbind :: "('e, 'a) result option \<Rightarrow> ('a \<Rightarrow> ('e, 'b) result option) \<Rightarrow> ('e, 'b) result option" where
  "fbind m f = (case m of None \<Rightarrow> None | Some (Inl err) \<Rightarrow> Some (Inl err) | Some (Inr x) \<Rightarrow> f x)"

lemma fbind_simps [simp]: "fbind None f = None" "fbind (Some (Inl err)) f = Some (Inl err)" "fbind (Some (Inr x)) f = f x"
  by (simp_all add: fbind_def)

lemma fbind_cong [fundef_cong]:
  "m = m' \<Longrightarrow> (\<And>x. m' = Some (Inr x) \<Longrightarrow> f x = g x) \<Longrightarrow> fbind m f = fbind m' g"
  by (auto simp: fbind_def split: option.splits sum.splits)

text \<open>\<^verbatim>\<open>loadNodeFromStore\<close>, with fuel for the depth of the recursion: blocks of a source that is not content-addressed can
  refer to each other in a cycle. \<open>load_children\<close> is the loop over the entries, with the height of the node so far.\<close>

fun loadNode :: "cborlib \<Rightarrow> (cid \<Rightarrow> (mst_error, bytes) result) \<Rightarrow> nat \<Rightarrow> cid \<Rightarrow> (mst_error, node) result option"
  and load_children :: "cborlib \<Rightarrow> (cid \<Rightarrow> (mst_error, bytes) result) \<Rightarrow> nat \<Rightarrow> entry list \<Rightarrow> int \<Rightarrow>
    (mst_error, entry list \<times> int) result option" where
  "loadNode L get 0 ref = None"
| "loadNode L get (Suc fuel) ref =
     fbind (Some (rbind (get ref) (\<lambda>b. rbind (NodeDataFromCBOR L b) (\<lambda>nd. nd_Node nd (Some ref))))) (\<lambda>n.
       fbind (load_children L get fuel (entries n) (nheight n)) (\<lambda>(es, h).
         Some (Inr (Node es h (ndirty n) (ncid n) (nstub n)))))"
| "load_children L get fuel [] h = Some (Inr ([], h))"
| "load_children L get fuel (e # es) h =
     (case (if isChild e then echildcid e else None) of
        None \<Rightarrow> fbind (load_children L get fuel es h) (\<lambda>(es, h). Some (Inr (e # es, h)))
      | Some cc \<Rightarrow>
          (case loadNode L get fuel cc of
             None \<Rightarrow> None
           | Some (Inl err) \<Rightarrow>
               if err = ErrMissingBlock then fbind (load_children L get fuel es h) (\<lambda>(es, h). Some (Inr (e # es, h)))
               else Some (Inl err)
           | Some (Inr child) \<Rightarrow>
               fbind (load_children L get fuel es (if h = -1 \<and> nheight child \<ge> 0 then nheight child + 1 else h))
                 (\<lambda>(es, h). Some (Inr (setChild child False e # es, h)))))"

definition setHeight :: "int \<Rightarrow> node \<Rightarrow> node" where
  "setHeight h n = Node (entries n) h (ndirty n) (ncid n) (nstub n)"

lemma setHeight_size [simp]: "size (setHeight h n) = size n"
  by (cases n) (simp add: setHeight_def)

fun ensureHeights :: "node \<Rightarrow> node" and ensure_children :: "int \<Rightarrow> entry list \<Rightarrow> entry list" where
  "ensureHeights (Node es h d c s) = (if h \<le> 0 then Node es h d c s else Node (ensure_children h es) h d c s)"
| "ensure_children h [] = []"
| "ensure_children h (e # es) =
     (case echild e of
        None \<Rightarrow> e
      | Some ch \<Rightarrow> setChild (ensureHeights (if h > 0 \<and> nheight ch < 0 then setHeight (h - 1) ch else ch)) False e) #
     ensure_children h es"

definition LoadTreeFromStore :: "cborlib \<Rightarrow> (cid \<Rightarrow> (mst_error, bytes) result) \<Rightarrow> nat \<Rightarrow> cid \<Rightarrow> (mst_error, Tree) result option" where
  "LoadTreeFromStore L get fuel root =
     fbind (loadNode L get fuel root) (\<lambda>n. Some (Inr \<lparr> Root = ensureHeights n \<rparr>))"

subsection \<open>The identifier computed from scratch\<close>

fun ref_node :: "cborlib \<Rightarrow> node \<Rightarrow> (mst_error, cid) result"
  and ref_entries :: "cborlib \<Rightarrow> entry list \<Rightarrow> (mst_error, entry list) result" where
  "ref_node L (Node es h d c s) =
     (if s then Inl ErrInvalidTree
      else rbind (ref_entries L es) (\<lambda>es. rbind (node_NodeData (Node es h d c s)) (\<lambda>nd.
        rbind (nd_Bytes L nd) (\<lambda>(b, cc). Inr cc))))"
| "ref_entries L [] = Inr []"
| "ref_entries L (e # es) =
     (case echild e of
        None \<Rightarrow> rbind (ref_entries L es) (\<lambda>es. Inr (e # es))
      | Some ch \<Rightarrow> rbind (ref_node L ch) (\<lambda>cc. rbind (ref_entries L es) (\<lambda>es. Inr (setLink cc ch e # es))))"

text \<open>Entries that encode alike.\<close>

definition encodes_as :: "entry \<Rightarrow> entry \<Rightarrow> bool" where
  "encodes_as e f \<longleftrightarrow> isChild e = isChild f \<and> isValue e = isValue f \<and> (isChild e \<longrightarrow> echildcid e = echildcid f) \<and>
     (isValue e \<longrightarrow> ekey e = ekey f \<and> evalue e = evalue f)"

definition same_encoding :: "(mst_error, entry list) result \<Rightarrow> (mst_error, entry list) result \<Rightarrow> bool" where
  "same_encoding = rel_sum (=) (list_all2 encodes_as)"

lemma same_encoding_node:
  assumes "same_encoding r r'"
  shows "rbind r (\<lambda>es. rbind (node_NodeData (Node es h d c s)) f) = rbind r' (\<lambda>es. rbind (node_NodeData (Node es h' d' c' s')) f)"
  using assms unfolding same_encoding_def encodes_as_def
  by (cases rule: rel_sum.cases) (simp_all add: node_NodeData_def nodedata_same)

lemma setLink_simps [simp]:
  "isChild (setLink cc ch e)" "isValue (setLink cc ch e) = isValue e" "ekey (setLink cc ch e) = ekey e"
  "evalue (setLink cc ch e) = evalue e" "echildcid (setLink cc ch e) = Some cc" "echild (setLink cc ch e) = Some ch"
  "\<not> edirty (setLink cc ch e)"
  by (cases e; simp add: isChild_def isValue_def)+

lemma same_encoding_Cons:
  "encodes_as e f \<Longrightarrow> same_encoding r r' \<Longrightarrow> same_encoding (rbind r (\<lambda>es. Inr (e # es))) (rbind r' (\<lambda>es. Inr (f # es)))"
  unfolding same_encoding_def by (cases r; cases r') auto

lemma setLink_encodes: "isValue e = isValue f \<Longrightarrow> (isValue e \<Longrightarrow> ekey e = ekey f \<and> evalue e = evalue f) \<Longrightarrow>
    encodes_as (setLink cc ch e) (setLink cc ch' f)"
  by (auto simp: encodes_as_def)

lemma ref_shape: "ref_node L (shape n) = ref_node L n" "same_encoding (ref_entries L (shape_es es)) (ref_entries L es)"
proof (induction n and es rule: shape_shape_es.induct)
  case (1 es h d c s)
  then show ?case by (auto simp: same_encoding_node)
next
  case 2
  then show ?case by (simp add: same_encoding_def)
next
  case (3 e es)
  show ?case
  proof (cases "echild e")
    case None
    have "encodes_as (NodeEntry (if isValue e then ekey e else []) (if isValue e then evalue e else None) (echildcid e) None False) e"
      using None by (auto simp: encodes_as_def isChild_def isValue_def)
    then show ?thesis using None 3 same_encoding_Cons by simp
  next
    case (Some ch)
    then have ih: "ref_node L (shape ch) = ref_node L ch" using 3 by simp
    show ?thesis
    proof (cases "ref_node L ch")
      case (Inl err)
      then show ?thesis using Some ih by (simp add: same_encoding_def)
    next
      case (Inr cc)
      have "encodes_as (setLink cc (shape ch) (NodeEntry (if isValue e then ekey e else []) (if isValue e then evalue e else None)
          None (Some (shape ch)) False)) (setLink cc ch e)"
        by (rule setLink_encodes) (auto simp: isValue_def)
      then show ?thesis using Some Inr ih 3(2) same_encoding_Cons by (simp del: setLink.simps)
    qed
  qed
qed

lemma ref_same: "shape n = shape n' \<Longrightarrow> ref_node L n = ref_node L n'"
  by (metis ref_shape(1))

lemma shape_undirty: "shape (undirty n) = shape n" "shape_es (undirty_es es) = shape_es es"
  by (induction n and es rule: shape_shape_es.induct) (auto simp: isValue_def split: option.splits)

lemma ref_undirty: "undirty n = undirty n' \<Longrightarrow> ref_node L n = ref_node L n'"
  by (metis shape_undirty(1) ref_same)

subsection \<open>Cached identifiers\<close>

text \<open>The cached identifier of a node that is not dirty, and the link to a child where neither the entry nor the child is
  dirty, are those computed from scratch. An entry with a child is not a value.\<close>

fun cache_node :: "cborlib \<Rightarrow> node \<Rightarrow> bool" and cache_entries :: "cborlib \<Rightarrow> entry list \<Rightarrow> bool" where
  "cache_node L (Node es h d c s) \<longleftrightarrow>
     (\<not> s \<and> \<not> d \<and> c \<noteq> None \<longrightarrow> ref_node L (Node es h d c s) = Inr (the c)) \<and> cache_entries L es"
| "cache_entries L [] \<longleftrightarrow> True"
| "cache_entries L (e # es) \<longleftrightarrow>
     (case echild e of
        None \<Rightarrow> True
      | Some ch \<Rightarrow> \<not> isValue e \<and> cache_node L ch \<and>
          (\<not> edirty e \<and> \<not> ndirty ch \<longrightarrow> (\<exists>cc. echildcid e = Some cc \<and> ref_node L ch = Inr cc))) \<and>
     cache_entries L es"

lemma cache_node_iff: "cache_node L n \<longleftrightarrow>
    (\<not> nstub n \<and> \<not> ndirty n \<and> ncid n \<noteq> None \<longrightarrow> ref_node L n = Inr (the (ncid n))) \<and> cache_entries L (entries n)"
  by (cases n) simp

lemma cache_append [simp]: "cache_entries L (es @ es') \<longleftrightarrow> cache_entries L es \<and> cache_entries L es'"
  by (induction es) auto

lemma setLink_shape:
  "shape ch' = shape ch \<Longrightarrow> echild e = Some ch \<Longrightarrow> shape_es es' = shape_es es \<Longrightarrow>
     shape_es (setLink cc ch' e # es') = shape_es (e # es)"
  by simp

lemma writes_correct:
  "writeBlocks L od n bs = Inr (c, n', bs') \<Longrightarrow> cache_node L n \<Longrightarrow>
     ref_node L n = Inr c \<and> shape n' = shape n \<and> cache_node L n' \<and> \<not> ndirty n'"
  "write_children L od es bs = Inr (es', bs') \<Longrightarrow> cache_entries L es \<Longrightarrow>
     shape_es es' = shape_es es \<and> cache_entries L es' \<and> (\<exists>rs. ref_entries L es = Inr rs \<and> list_all2 encodes_as rs es')"
proof (induction L od n bs and L od es bs arbitrary: c n' bs' and es' bs' rule: writeBlocks_write_children.induct)
  case (1 L od es h d c0 s bs)
  show ?case
  proof (cases "od \<and> \<not> d \<and> c0 \<noteq> None")
    case True
    then show ?thesis using 1(2,3) by (auto split: if_splits)
  next
    case False
    with 1(2) obtain es1 bs1 nd b where w: "\<not> s" "write_children L od es bs = Inr (es1, bs1)"
      "node_NodeData (Node es1 h d c0 s) = Inr nd" "nd_Bytes L nd = Inr (b, c)" "n' = Node es1 h False (Some c) s"
      by (auto simp: rbind_Inr_iff simp del: write_children.simps split: if_splits)
    from 1(1) [OF w(1) False w(2)] 1(3) obtain rs where es1: "shape_es es1 = shape_es es" "cache_entries L es1"
      "ref_entries L es = Inr rs" "list_all2 encodes_as rs es1" by auto
    have "node_NodeData (Node rs h d c0 s) = Inr nd"
      using nodedata_same [OF es1(4) [unfolded encodes_as_def]] w(3) by (simp add: node_NodeData_def)
    then have r: "ref_node L (Node es h d c0 s) = Inr c" using w(1,4) es1(3) by simp
    have sh: "shape n' = shape (Node es h d c0 s)" using es1(1) w(5) by simp
    have "ref_node L n' = Inr c" using r ref_same [OF sh, of L] by simp
    then show ?thesis using r sh es1(2) w(1,5) by (simp add: cache_node_iff del: ref_node.simps shape.simps cache_node.simps)
  qed
next
  case (2 L od bs)
  then show ?case by simp
next
  case (3 L od e es bs)
  show ?case
  proof (cases "echild e")
    case None
    then obtain es1 where w: "write_children L od es bs = Inr (es1, bs')" "es' = e # es1"
      using 3(5) by (auto simp: rbind_Inr_iff)
    from 3(1) [OF None w(1)] 3(6) None show ?thesis by (auto simp: w(2) encodes_as_def)
  next
    case (Some ch)
    show ?thesis
    proof (cases "edirty e \<and> \<not> isValue e \<or> ndirty ch \<or> \<not> od")
      case True
      then obtain cc ch1 bs1 es1 where w: "writeBlocks L od ch bs = Inr (cc, ch1, bs1)"
        "write_children L od es bs1 = Inr (es1, bs')" "es' = setLink cc ch1 e # es1"
        using 3(5) Some by (auto simp: rbind_Inr_iff)
      have c: "ref_node L ch = Inr cc" "shape ch1 = shape ch" "cache_node L ch1" "\<not> ndirty ch1"
        using 3(2) [OF Some True w(1)] 3(6) Some by auto
      obtain rs where r: "shape_es es1 = shape_es es" "cache_entries L es1" "ref_entries L es = Inr rs" "list_all2 encodes_as rs es1"
        using 3(3) [OF Some True w(1) refl refl w(2)] 3(6) by auto
      have "shape_es es' = shape_es (e # es)" unfolding w(3) by (rule setLink_shape [OF c(2) Some r(1)])
      moreover have "cache_entries L es'" using c r(2) ref_same [OF c(2), of L] 3(6) Some unfolding w(3) by simp
      moreover have "encodes_as (setLink cc ch e) (setLink cc ch1 e)" by (rule setLink_encodes) auto
      ultimately show ?thesis using Some c(1) r(3,4) unfolding w(3) by simp
    next
      case False
      then obtain es1 where w: "write_children L od es bs = Inr (es1, bs')" "es' = e # es1"
        using 3(5) Some by (auto simp: rbind_Inr_iff)
      obtain cc where cc: "echildcid e = Some cc" "ref_node L ch = Inr cc" using 3(6) Some False by auto
      then have "encodes_as (setLink cc ch e) e" by (simp add: encodes_as_def isChild_def)
      then show ?thesis using 3(4) [OF Some False w(1)] 3(6) Some cc by (auto simp: w(2))
    qed
  qed
qed

lemma bs_Put_None [simp]: "bs_Put None c b = Inr None"
  by (simp add: bs_Put_def)

lemma rbind_Inl_iff: "rbind m f = Inl err \<longleftrightarrow> m = Inl err \<or> (\<exists>x. m = Inr x \<and> f x = Inl err)"
  by (cases m) auto

lemma writes_None:
  "writeBlocks L od n None = Inr (c, n', bs') \<Longrightarrow> bs' = None"
  "write_children L od es None = Inr (es', bs') \<Longrightarrow> bs' = None"
proof (induction n and es arbitrary: c n' bs' and es' bs' rule: shape_shape_es.induct)
  case (1 es h d c0 s)
  then show ?case by (fastforce simp: rbind_Inr_iff split: if_splits)
next
  case (3 e es)
  show ?case
  proof (cases "echild e")
    case (Some ch)
    then show ?thesis using 3 by (fastforce simp: rbind_Inr_iff split: if_splits)
  qed (use 3 in \<open>fastforce simp: rbind_Inr_iff\<close>)
qed simp

lemma writes_error:
  "writeBlocks L od n None = Inl err \<Longrightarrow> cache_node L n \<Longrightarrow> ref_node L n = Inl err"
  "write_children L od es None = Inl err \<Longrightarrow> cache_entries L es \<Longrightarrow> ref_entries L es = Inl err"
proof (induction n and es arbitrary: err and err rule: shape_shape_es.induct)
  case (1 es h d c s)
  show ?case
  proof (cases "s \<or> write_children L od es None = Inl err")
    case True
    then show ?thesis using 1 by (auto split: if_splits)
  next
    case False
    then obtain es1 bs1 where "write_children L od es None = Inr (es1, bs1)"
      using 1(2) by (auto simp: rbind_Inl_iff split: if_splits)
    moreover from writes_None(2) [OF this] have "bs1 = None" .
    ultimately have w: "\<not> s" "write_children L od es None = Inr (es1, None)"
      "rbind (node_NodeData (Node es1 h d c s)) (\<lambda>nd. rbind (nd_Bytes L nd) (\<lambda>(b, cc). Inr cc)) = Inl err"
      using 1(2) False by (auto simp: rbind_Inl_iff split: if_splits)
    from writes_correct(2) [OF w(2)] 1(3) obtain rs where rs: "ref_entries L es = Inr rs" "list_all2 encodes_as rs es1" by auto
    have "node_NodeData (Node rs h d c s) = node_NodeData (Node es1 h d c s)"
      using nodedata_same [OF rs(2) [unfolded encodes_as_def]] by (simp add: node_NodeData_def)
    then show ?thesis using w(1,3) rs(1) by simp
  qed
next
  case (3 e es)
  show ?case
  proof (cases "echild e")
    case None
    then show ?thesis using 3 by (auto simp: rbind_Inl_iff)
  next
    case (Some ch)
    show ?thesis
    proof (cases "edirty e \<and> \<not> isValue e \<or> ndirty ch \<or> \<not> od")
      case True
      then consider "writeBlocks L od ch None = Inl err" |
        cc ch1 where "writeBlocks L od ch None = Inr (cc, ch1, None)" "write_children L od es None = Inl err"
        using 3(3) Some writes_None(1) by (fastforce simp: rbind_Inl_iff)
      then show ?thesis
      proof cases
        case 1
        then show ?thesis using 3(1) 3(4) Some by simp
      next
        case 2
        then show ?thesis using 3(2) 3(4) Some writes_correct(1) [OF 2(1)] by simp
      qed
    next
      case False
      then show ?thesis using 3 Some by (auto simp: rbind_Inl_iff)
    qed
  qed
qed simp

text \<open>The root identifier from the caches is the one computed from scratch, errors included.\<close>

lemma RootCID_correct:
  assumes "cache_node L (Root t)" "\<not> nstub (Root t)"
  shows "(\<exists>c t'. RootCID L t = Inr (c, t') \<and> ref_node L (Root t) = Inr c \<and> cache_node L (Root t') \<and> shape (Root t') = shape (Root t)) \<or>
     (\<exists>err. RootCID L t = Inl err \<and> ref_node L (Root t) = Inl err)"
proof (cases "writeBlocks L True (Root t) None")
  case (Inl err)
  then show ?thesis using writes_error(1) [OF Inl assms(1)] assms(2) by (simp add: RootCID_def)
next
  case (Inr x)
  obtain c n' bs' where x: "x = (c, n', bs')" by (cases x)
  from writes_correct(1) [OF Inr [unfolded x] assms(1)] show ?thesis using Inr x assms(2) by (simp add: RootCID_def)
qed

subsection \<open>The operations keep the caches correct\<close>

lemma cache_dirty [simp]: "cache_node L (Node es h True c s) \<longleftrightarrow> cache_entries L es"
  by simp

lemma cache_setDirty [simp]: "cache_node L (setDirty n) \<longleftrightarrow> cache_entries L (entries n)"
  by (simp add: setDirty_def)

lemma cache_new_entries [simp]:
  "cache_entries L (childEntry ch # es) \<longleftrightarrow> cache_node L ch \<and> cache_entries L es"
  "cache_entries L (valueEntry key val # es) \<longleftrightarrow> cache_entries L es"
  by (simp_all add: childEntry_def valueEntry_def isValue_def)

lemma edirty_simps [simp]: "edirty (childEntry ch)" "edirty (setChild ch b e) \<longleftrightarrow> edirty e \<or> b"
  by (cases e; simp add: childEntry_def)+

lemma cache_entries_of: "cache_node L n \<Longrightarrow> cache_entries L (entries n)"
  by (cases n) simp

lemma cache_take_drop: "cache_entries L es \<Longrightarrow> cache_entries L (take i es)" "cache_entries L es \<Longrightarrow> cache_entries L (drop i es)"
  by (metis append_take_drop_id cache_append)+

lemma cache_child: "cache_entries L es \<Longrightarrow> i < length es \<Longrightarrow> echild (es ! i) = Some ch \<Longrightarrow> cache_node L ch"
  "cache_entries L es \<Longrightarrow> i < length es \<Longrightarrow> echild (es ! i) = Some ch \<Longrightarrow> \<not> isValue (es ! i)"
proof (induction es arbitrary: i)
  case (Cons e es)
  {
    case 1
    then show ?case using Cons.IH by (cases i) auto
  next
    case 2
    then show ?case using Cons.IH by (cases i) auto
  }
qed simp_all

lemma cache_update:
  assumes "cache_entries L es" "cache_entries L [e]"
  shows "cache_entries L (es[i := e])"
proof (cases "i < length es")
  case True
  show ?thesis unfolding upd_conv_take_nth_drop [OF True] using assms cache_take_drop by (simp del: cache_entries.simps(2)) simp
qed (use assms in \<open>simp add: list_update_beyond\<close>)

lemma cache_setChild: "cache_node L ch \<Longrightarrow> \<not> isValue e \<Longrightarrow> cache_entries L [setChild ch True e]"
  by (cases e) (simp add: isValue_def)

lemma cache_setValue: "cache_entries L es \<Longrightarrow> i < length es \<Longrightarrow> echild (es ! i) = None \<or> isValue (es ! i) \<Longrightarrow>
   cache_entries L [setValue val (es ! i)]"
proof (induction es arbitrary: i)
  case (Cons e es)
  then show ?case by (cases i; cases e) (auto split: option.splits)
qed simp

text \<open>Marking nodes dirty.\<close>

lemma cache_marked:
  assumes "cache_entries L (e # es)" "echild e = Some ch" "cache_node L ch'" "undirty ch' = undirty ch" "ndirty ch \<Longrightarrow> ndirty ch'"
    "cache_entries L es'"
  shows "cache_entries L (setChild ch' False e # es')"
  using assms ref_undirty [OF assms(4), of L] by (cases e) (auto simp: isValue_def)

lemma cache_marked_node:
  assumes "cache_node L n" "undirty n' = undirty n" "ndirty n \<longrightarrow> ndirty n'" "cache_entries L (entries n')"
  shows "cache_node L n'"
proof -
  have "ncid n' = ncid n" "nstub n' = nstub n" by (metis assms(2) undirty_eqs(4,5))+
  then show ?thesis using assms ref_undirty [OF assms(2), of L] by (auto simp: cache_node_iff)
qed

lemma compareKey_cache:
  "cache_node L n \<Longrightarrow> cache_node L (snd (compareKey n key m)) \<and> (ndirty n \<longrightarrow> ndirty (snd (compareKey n key m)))"
  "cache_entries L es \<Longrightarrow> cache_entries L (snd (compare_loop es first key m))"
proof (induction n key m and es first key m rule: compareKey_compare_loop.induct)
  case (1 es h d c s key m)
  let ?n = "snd (compareKey (Node es h d c s) key m)"
  have u: "undirty ?n = undirty (Node es h d c s)" using compareKey_undirty(1) by metis
  have e: "cache_entries L (entries ?n)" using 1 by (auto split: prod.splits)
  have d: "(d \<longrightarrow> ndirty ?n) \<and> ncid ?n = c \<and> nstub ?n = s" by (auto split: prod.splits)
  show ?case using cache_marked_node [OF 1(2) u _ e] d by simp
next
  case (3 e es first key m)
  show ?case
  proof (cases "isValue e \<and> key < ekey e \<or> \<not> (isChild e \<and> \<not> next_before key es)")
    case True
    then show ?thesis using 3 by (auto split: prod.splits)
  next
    case False
    show ?thesis
    proof (cases "echild e")
      case None
      then show ?thesis using 3(3) False by auto
    next
      case (Some ch)
      obtain r ch' where r: "compareKey ch key m = (r, ch')" by (cases "compareKey ch key m")
      have c: "cache_node L ch'" "ndirty ch \<longrightarrow> ndirty ch'" using 3(1) [OF _ _ Some] False 3(3) Some r by auto
      have u: "undirty ch' = undirty ch" using compareKey_undirty(1) [of ch key m] r by simp
      have "cache_entries L (setChild ch' False e # es)"
        by (rule cache_marked [OF 3(3) Some c(1) u]) (use c 3(3) in auto)
      then show ?thesis using False Some r by (auto split: sum.splits simp del: cache_entries.simps)
    qed
  qed
qed simp

lemma proveMutation_cache:
  "cache_node L n \<Longrightarrow> cache_node L (snd (proveMutation n key)) \<and> (ndirty n \<longrightarrow> ndirty (snd (proveMutation n key)))"
  "cache_entries L es \<Longrightarrow> cache_entries L (snd (prove_loop es key))"
proof (induction n key and es key rule: proveMutation_prove_loop.induct)
  case (1 es h d c s key)
  let ?n = "snd (proveMutation (Node es h d c s) key)"
  have u: "undirty ?n = undirty (Node es h d c s)" using proveMutation_undirty(1) by metis
  have e: "cache_entries L (entries ?n)" using 1 by (auto split: prod.splits)
  have d: "d \<longrightarrow> ndirty ?n" by (auto split: prod.splits)
  show ?case using cache_marked_node [OF 1(2) u _ e] d by simp
next
  case (3 e es key)
  show ?case
  proof (cases "isValue e \<and> key < ekey e \<or> \<not> (isChild e \<and> \<not> next_before key es)")
    case True
    then show ?thesis using 3(3,4) by (auto split: prod.splits)
  next
    case False
    show ?thesis
    proof (cases "echild e")
      case None
      then show ?thesis using 3(4) False by auto
    next
      case (Some ch)
      obtain r ch' where r: "compareKey ch key True = (r, ch')" by (cases "compareKey ch key True")
      have c: "cache_node L ch'" "ndirty ch \<longrightarrow> ndirty ch'" using compareKey_cache(1) [of L ch key True] 3(4) Some r by auto
      have u: "undirty ch' = undirty ch" using compareKey_undirty(1) [of ch key True] r by simp
      have m: "cache_entries L (setChild x False e # ys)" if "cache_node L x" "undirty x = undirty ch" "ndirty ch \<longrightarrow> ndirty x"
        "cache_entries L ys" for x ys by (rule cache_marked [OF 3(4) Some that(1,2) _ that(4)]) (use that(3) in simp)
      have es: "cache_entries L es" using 3(4) by simp
      show ?thesis
      proof (cases "\<exists>order. r = Inr order \<and> 0 \<le> order")
        case True
        then obtain order where o: "r = Inr order" "0 \<le> order" by blast
        show ?thesis
        proof (cases "order = 0")
          case True
          obtain r2 ch2 where p: "proveMutation ch' key = (r2, ch2)" by (cases "proveMutation ch' key")
          have "cache_node L ch2 \<and> (ndirty ch' \<longrightarrow> ndirty ch2)" using 3(2) [OF _ _ Some r [symmetric] o(1)] False True c(1) p by auto
          moreover have "undirty ch2 = undirty ch" using proveMutation_undirty(1) [of ch' key] p u by simp
          ultimately show ?thesis using m [of ch2 es] es c(2) False Some r o p True by (auto simp del: cache_entries.simps)
        next
          case f: False
          obtain r2 es2 where p: "prove_loop es key = (r2, es2)" by (cases "prove_loop es key")
          have "cache_entries L es2" using 3(1) [OF _ _ Some r [symmetric] o(1)] False f o(2) es p by auto
          then show ?thesis using m [OF c(1) u c(2), of es2] False Some r o p f by (auto simp del: cache_entries.simps)
        qed
      next
        case f: False
        then show ?thesis using m [OF c(1) u c(2) es] False Some r by (auto split: sum.splits simp del: cache_entries.simps)
      qed
    qed
  qed
qed simp

text \<open>Splits, insertion, merges and removal.\<close>

lemma node_split_cache:
  "node_split n key = Inr (l, r) \<Longrightarrow> cache_node L n \<Longrightarrow> cache_node L l \<and> cache_node L r"
proof (induction n key arbitrary: l r rule: node_split.induct)
  case (1 n key)
  have es: "cache_entries L (entries n)" using 1(3) by (rule cache_entries_of)
  from 1(2) obtain idx sp where i: "findInsertionIndex n key = Inr (idx, sp)" "\<not> node_IsEmpty n"
    by (subst (asm) node_split.simps) (auto split: if_splits sum.splits)
  show ?case
  proof (cases sp)
    case False
    then have "splitEntries n idx = Inr (l, r)" using 1(2) i by (subst (asm) node_split.simps) simp
    then show ?thesis using es cache_take_drop by (auto simp: splitEntries_def Let_def split: if_splits)
  next
    case True
    then obtain c ll lr where c: "echild (entries n ! idx) = Some c" "node_split c key = Inr (ll, lr)"
      "l = Node (take idx (entries n) @ [childEntry ll]) (nheight n) True None False"
      "r = Node (childEntry lr # drop (idx + 1) (entries n)) (nheight n) True None False"
      using 1(2) i by (subst (asm) node_split.simps) (auto simp: rbind_Inr_iff split: option.splits)
    have "idx < length (entries n)" using i(1) True insertion_loop_range [of key "entries n" 0 idx sp]
      by (auto simp: findInsertionIndex_def split: if_splits)
    then have "cache_node L c" using cache_child(1) [OF es _ c(1)] by simp
    then have "cache_node L ll \<and> cache_node L lr" using 1(1) [OF i(2,1) refl _ c(1)] True c(2) by simp
    then show ?thesis using c(3,4) es cache_take_drop by simp
  qed
qed

lemma insertParent_cache: "cache_node L n \<Longrightarrow> cache_node L (insertParent n h)"
  by (simp add: insertParent_def)

lemma insert_here_cache:
  assumes "insert_here n key val = Inr (n', prev)" "cache_node L n"
  shows "cache_node L n'"
proof (cases "findExistingEntry n key")
  case (Some idx)
  have "idx < length (entries n) \<and> isValue (entries n ! idx)"
    using find_entry_loop_spec [where key = key and es = "entries n" and i = 0] Some by (auto simp: findExistingEntry_def nth_append)
  then show ?thesis using assms Some cache_entries_of [OF assms(2)] cache_setValue cache_update
    by (auto simp: insert_here_def Let_def split: if_splits)
next
  case None
  obtain idx sp perr m where m: "findInsertionIndex n key = Inr (idx, sp)" "proveMutation (setDirty n) key = (perr, m)"
    using assms(1) None by (cases "findInsertionIndex n key"; cases "proveMutation (setDirty n) key") (auto simp: insert_here_def)
  have "cache_node L (setDirty n)" using cache_entries_of [OF assms(2)] by simp
  from proveMutation_cache(1) [OF this, of key] have c: "cache_entries L (entries m)" "ndirty m"
    using m(2) by (auto dest: cache_entries_of)
  then have k: "cache_node L (setEntries es m) = cache_entries L es" for es by (simp add: setEntries_def)
  show ?thesis
  proof (cases sp)
    case False
    then show ?thesis using assms(1) None m k c cache_take_drop by (auto simp: insert_here_def split: if_splits)
  next
    case True
    then obtain ch l r where s: "echild (entries m ! idx) = Some ch" "node_split ch key = Inr (l, r)"
      "n' = setEntries (take idx (entries m) @ [childEntry l, valueEntry key val, childEntry r] @ drop (idx + 1) (entries m)) m"
      using assms(1) None m by (auto simp: insert_here_def rbind_Inr_iff split: if_splits option.splits)
    have "idx < length (entries n)" using m(1) True insertion_loop_range [of key "entries n" 0 idx sp]
      by (auto simp: findInsertionIndex_def split: if_splits)
    moreover have "length (entries m) = length (entries n)"
      using proveMutation_undirty(1) [of "setDirty n" key] m(2) by (metis snd_conv undirty_eqs(1,2) undirty_length)
    ultimately have "cache_node L ch" using cache_child(1) [OF c(1) _ s(1)] by simp
    then show ?thesis using node_split_cache [OF s(2)] s(3) k c cache_take_drop by simp
  qed
qed

lemma findExistingChild_cache:
  assumes "cache_node L n" "findExistingChild n key = Some idx" "echild (entries n ! idx) = Some c"
  shows "cache_node L c" "\<not> isValue (entries n ! idx)"
  using cache_child [OF cache_entries_of [OF assms(1)] findExistingChild_range [OF assms(2)] assms(3)] by auto

lemma insert_cache:
  "insert_node n key val height = Inr (n', prev) \<Longrightarrow> cache_node L n \<Longrightarrow> cache_node L n'"
  "insertChild n key val height = Inr (n', prev) \<Longrightarrow> cache_node L n \<Longrightarrow> cache_node L n'"
proof (induction n key val height and n key val height arbitrary: n' prev and n' prev rule: insert_node_insertChild.induct)
  case (1 n key val height)
  note ins = 1(3) [unfolded insert_node.simps [of n key val height]]
  show ?case using ins 1(1,2,4) insertParent_cache insert_here_cache by (auto split: if_splits)
next
  case (2 n key val height)
  have es: "cache_entries L (entries n)" using 2(4) by (rule cache_entries_of)
  show ?case
  proof (cases "findExistingChild n key")
    case (Some idx)
    then obtain c c' where c: "echild (entries n ! idx) = Some c" "insert_node c key val height = Inr (c', prev) \<and>
        n' = setDirty (setEntries ((entries n)[idx := setChild c' True (entries n ! idx)]) n) \<or> n' = n"
      using 2(3) by (subst (asm) insertChild.simps) (auto simp: rbind_Inr_iff split: option.splits if_splits)
    show ?thesis
    proof (cases "n' = n")
      case False
      then have "cache_node L c'" using c 2(2) [OF Some c(1)] findExistingChild_cache [OF 2(4) Some c(1)] by blast
      then show ?thesis using c(2) False cache_update [OF es cache_setChild] findExistingChild_cache(2) [OF 2(4) Some c(1)] by simp
    qed (use 2(4) in simp)
  next
    case None
    then obtain idx c' p where c: "findInsertionIndex n key = Inr (idx, False)"
      "insert_node (Node [] (nheight n - 1) True None False) key val height = Inr (c', p)"
      "n' = setDirty (setEntries (take idx (entries n) @ [childEntry c'] @ drop idx (entries n)) n)"
      using 2(3) by (subst (asm) insertChild.simps) (auto simp: rbind_Inr_iff split: sum.splits if_splits)
    have "cache_node L c'" using 2(1) [OF None c(1) refl _ c(2)] by simp
    then show ?thesis using c(3) es cache_take_drop by simp
  qed
qed

lemma mergeNodes_cache:
  "mergeNodes l r = Inr n \<Longrightarrow> cache_node L l \<Longrightarrow> cache_node L r \<Longrightarrow> cache_node L n"
proof (induction l r arbitrary: n rule: mergeNodes.induct)
  case (1 l r)
  let ?es = "entries l @ entries r" and ?i = "length (entries l)"
  have es: "cache_entries L ?es" using 1(3,4) by (simp add: cache_entries_of)
  note m = 1(2) [unfolded mergeNodes.simps [of l r] Let_def]
  show ?case
  proof (cases "isChild (?es ! (?i - 1)) \<and> isChild (?es ! ?i)")
    case False
    then have "n = Node ?es (nheight l) True None False" using m by (auto split: if_splits)
    then show ?thesis using es by simp
  next
    case True
    then obtain ll lr lm where c: "?i \<noteq> 0" "?i < length ?es" "echild (?es ! (?i - 1)) = Some ll" "echild (?es ! ?i) = Some lr"
      "mergeNodes ll lr = Inr lm" "n = Node (take (?i - 1) ?es @ [childEntry lm] @ drop (?i + 1) ?es) (nheight l) True None False"
      using m by (auto simp: rbind_Inr_iff not_le simp del: length_append split: if_splits option.splits prod.splits)
    have "?i - 1 < length ?es" using c(2) by linarith
    then have "cache_node L ll" "cache_node L lr" using cache_child(1) [OF es _ c(3)] cache_child(1) [OF es c(2,4)] by auto
    moreover have "\<not> \<not> isChild (?es ! (?i - 1))" "\<not> length ?es \<le> ?i" "\<not> \<not> isChild (?es ! ?i)" using True c(2) by auto
    ultimately have "cache_node L lm" using 1(1) [OF refl refl c(1) _ _ _ refl c(3,4,5)] by blast
    then show ?thesis using c(6) cache_take_drop(1) [OF es, of "?i - 1"] cache_take_drop(2) [OF es, of "?i + 1"]
      by (simp del: take_append drop_append)
  qed
qed

lemma remove_entry_cache:
  assumes "remove_entry es idx = Inr es'" "cache_entries L es"
  shows "cache_entries L es'"
proof (cases "idx > 0 \<and> idx + 1 < length es \<and> isChild (es ! (idx - 1)) \<and> isChild (es ! (idx + 1))")
  case True
  then obtain l r c where c: "echild (es ! (idx - 1)) = Some l" "echild (es ! (idx + 1)) = Some r" "mergeNodes l r = Inr c"
    "es' = (take idx es @ drop (idx + 2) es)[idx - 1 := childEntry c]"
    using assms(1) by (auto simp: remove_entry_def rbind_Inr_iff split: option.splits)
  have "cache_node L l" "cache_node L r" using cache_child(1) [OF assms(2) _ c(1)] cache_child(1) [OF assms(2) _ c(2)] True by auto
  then have "cache_entries L [childEntry c]" using mergeNodes_cache [OF c(3)] by simp
  then show ?thesis unfolding c(4) using cache_take_drop [OF assms(2)] by (intro cache_update) simp_all
next
  case False
  then have "es' = take idx es @ drop (idx + 1) es" using assms(1) by (auto simp: remove_entry_def)
  then show ?thesis using cache_take_drop [OF assms(2)] by simp
qed

lemma trim_top_cache: "trim_top n = Inr n' \<Longrightarrow> cache_node L n \<Longrightarrow> cache_node L n'"
proof (induction n rule: trim_top.induct)
  case (1 es h d c s)
  then show ?case by (auto split: list.splits if_splits option.splits)
qed

lemma remove_here_cache:
  assumes "remove_here n key atTop = Inr (n', prev)" "cache_node L n"
  shows "cache_node L n'"
proof (cases "findExistingEntry n key")
  case None
  then show ?thesis using assms by (simp add: remove_here_def)
next
  case (Some idx)
  obtain es' perr m where m: "remove_entry (entries n) idx = Inr es'" "proveMutation (setDirty (setEntries es' n)) key = (perr, m)"
    using assms(1) Some by (cases "remove_entry (entries n) idx")
      (simp_all add: remove_here_def, meson surj_pair)
  have "cache_node L (setDirty (setEntries es' n))"
    using remove_entry_cache [OF m(1) cache_entries_of [OF assms(2)]] by simp
  from proveMutation_cache(1) [OF this, of key] have "cache_node L m" using m(2) by simp
  then show ?thesis using assms(1) Some m trim_top_cache
    by (auto simp: remove_here_def rbind_Inr_iff split: if_splits)
qed

lemma remove_cache:
  "remove_node n key height = Inr (n', prev) \<Longrightarrow> cache_node L n \<Longrightarrow> cache_node L n'"
  "removeChild n key height = Inr (n', prev) \<Longrightarrow> cache_node L n \<Longrightarrow> cache_node L n'"
proof (induction n key height and n key height arbitrary: n' prev and n' prev rule: remove_node_removeChild.induct)
  case (1 n key height)
  note rem = 1(2) [unfolded remove_node.simps [of n key height]]
  show ?case using rem 1(1,3) remove_here_cache by (auto split: if_splits)
next
  case (2 n key height)
  have es: "cache_entries L (entries n)" using 2(3) by (rule cache_entries_of)
  note rem = 2(2) [unfolded removeChild.simps [of n key height]]
  show ?case
  proof (cases "findExistingChild n key")
    case (Some idx)
    then obtain c c' where c: "echild (entries n ! idx) = Some c" "remove_node c key height = Inr (c', prev)"
      "n' = n \<or> n' = setDirty (setEntries ((entries n)[idx := setChild c' True (entries n ! idx)]) n) \<or>
       n' = setDirty (setEntries (take idx (entries n) @ drop (idx + 1) (entries n)) n)"
      using rem by (auto simp: rbind_Inr_iff split: option.splits if_splits)
    have "cache_node L c'" using 2(1) [OF Some c(1,2)] findExistingChild_cache [OF 2(3) Some c(1)] by blast
    then show ?thesis
      using c(3) 2(3) cache_update [OF es cache_setChild] cache_take_drop [OF es] findExistingChild_cache(2) [OF 2(3) Some c(1)] by auto
  qed (use rem 2(3) in simp)
qed

subsection \<open>Histories of a tree\<close>

text \<open>The trees that insertions, removals and computations of the root identifier build from the empty tree.\<close>

inductive built :: "cborlib \<Rightarrow> Tree \<Rightarrow> bool" for L where
  empty: "built L NewEmptyTree"
| insert: "built L t \<Longrightarrow> Insert t key val = Inr (t', prev) \<Longrightarrow> built L t'"
| remove: "built L t \<Longrightarrow> Remove t key = Inr (t', prev) \<Longrightarrow> built L t'"
| rootcid: "built L t \<Longrightarrow> RootCID L t = Inr (c, t') \<Longrightarrow> built L t'"
| diff: "built L t \<Longrightarrow> WriteDiffBlocks L t bs = Inr (c, t', bs') \<Longrightarrow> built L t'"

lemma shape_parts:
  "nstub (shape n) = nstub n" "nheight (shape n) = nheight n" "entries (shape n) = shape_es (entries n)"
  by (cases n; simp)+

lemma shape_es_Nil [simp]: "shape_es es = [] \<longleftrightarrow> es = []"
  by (cases es) simp_all

lemma isChild_shape: "es \<noteq> [] \<Longrightarrow> isChild (hd (shape_es es)) = isChild (hd es)"
  by (cases es) (auto simp: isChild_def split: option.splits)

lemma wf_shape: "wf_node h (shape n) = wf_node h n" "wf_entries h (shape_es es) = wf_entries h es"
proof (induction h n and h es rule: wf_node_wf_entries.induct)
  case (3 h e es)
  then show ?case
    using isChild_shape [of es] by (auto simp: shape_parts isChild_def isValue_def split: option.splits if_splits)
qed simp_all

lemma walk_shape: "node_walk (shape n) = node_walk n" "entries_walk (shape_es es) = entries_walk es"
proof (induction n and es rule: node_walk_entries_walk.induct)
  case (3 e es)
  then show ?case by (auto simp: isValue_def split: option.splits)
qed simp_all

lemma same_shape:
  assumes "shape n = shape n'"
  shows "wf_node h n = wf_node h n'" "node_walk n = node_walk n'" "nstub n = nstub n'"
  by (metis assms wf_shape(1)) (metis assms walk_shape(1), metis assms shape_parts(1))

lemma same_shape_ok: "shape (Root t) = shape (Root t') \<Longrightarrow> tree_ok t = tree_ok t' \<and> contents t = contents t'"
  using same_shape [of "Root t" "Root t'"] by (simp add: tree_ok_def contents_def Walk_def)

lemma Insert_result:
  assumes "Insert t key val = Inr (t', prev)" "tree_ok t"
  shows "IsValidKey key" "tree_ok t'" "Walk t' = ins key val (Walk t)"
proof -
  show k: "IsValidKey key" using assms(1) by (auto simp: Insert_def split: if_splits)
  obtain t1 where "Insert t key val = Inr (t1, contents t key)" "tree_ok t1" "Walk t1 = ins key val (Walk t)"
    by (rule Insert_ok [OF assms(2) k])
  then show "tree_ok t'" "Walk t' = ins key val (Walk t)" using assms(1) by simp_all
qed

lemma Remove_result:
  assumes "Remove t key = Inr (t', prev)" "tree_ok t"
  shows "tree_ok t'" "Walk t' = del key (Walk t)"
proof -
  have k: "IsValidKey key" using assms(1) by (auto simp: Remove_def split: if_splits)
  obtain t1 where "Remove t key = Inr (t1, contents t key)" "tree_ok t1" "Walk t1 = del key (Walk t)"
    by (rule Remove_ok [OF assms(2) k])
  then show "tree_ok t'" "Walk t' = del key (Walk t)" using assms(1) by simp_all
qed

lemma built_invariant: "built L t \<Longrightarrow> tree_ok t \<and> cache_node L (Root t)"
proof (induction rule: built.induct)
  case empty
  then show ?case by (simp add: NewEmptyTree_ok) (simp add: NewEmptyTree_def)
next
  case (insert t key val t' prev)
  then have "tree_ok t'" using Insert_result by blast
  then show ?case using insert insert_cache(1) by (auto simp: Insert_def rbind_Inr_iff split: if_splits)
next
  case (remove t key t' prev)
  then have "tree_ok t'" using Remove_result by blast
  then show ?case using remove remove_cache(1) by (auto simp: Remove_def rbind_Inr_iff split: if_splits)
next
  case (rootcid t c t')
  then have "\<not> nstub (Root t)" by (auto simp: tree_ok_def wf_node_iff)
  with rootcid RootCID_correct [of L t] same_shape_ok [of t' t] show ?case by auto
next
  case (diff t bs c t' bs')
  then obtain n b' where w: "writeBlocks L True (Root t) (Some bs) = Inr (c, n, b')" "t' = \<lparr> Root = n \<rparr>"
    by (auto simp: WriteDiffBlocks_def rbind_Inr_iff)
  then show ?case using writes_correct(1) [OF w(1)] diff(3) same_shape_ok [of t' t] by auto
qed

subsection \<open>The blocks of a tree\<close>

definition node_block :: "cborlib \<Rightarrow> node \<Rightarrow> (mst_error, bytes) result" where
  "node_block L n =
     (if nstub n then Inl ErrInvalidTree
      else rbind (ref_entries L (entries n)) (\<lambda>es. rbind (node_NodeData (setEntries es n)) (NodeData_MarshalCBOR L)))"

lemma ref_node_block: "ref_node L n = rbind (node_block L n) (\<lambda>b. Inr (SumCid L b))"
proof (cases n)
  case (Node es h d c s)
  have *: "rbind (rbind m f) g = rbind m (\<lambda>x. rbind (f x) g)" for m f g by (cases m) simp_all
  show ?thesis by (simp add: Node node_block_def * nd_Bytes_def setEntries_def)
qed

fun tree_blocks :: "cborlib \<Rightarrow> node \<Rightarrow> bytes set" and entry_blocks :: "cborlib \<Rightarrow> entry list \<Rightarrow> bytes set" where
  "tree_blocks L (Node es h d c s) =
     (case node_block L (Node es h d c s) of Inl _ \<Rightarrow> {} | Inr b \<Rightarrow> {b}) \<union> entry_blocks L es"
| "entry_blocks L [] = {}"
| "entry_blocks L (e # es) = (case echild e of None \<Rightarrow> {} | Some ch \<Rightarrow> tree_blocks L ch) \<union> entry_blocks L es"

lemma tree_blocks_iff:
  "tree_blocks L n = (case node_block L n of Inl _ \<Rightarrow> {} | Inr b \<Rightarrow> {b}) \<union> entry_blocks L (entries n)"
  by (cases n) simp

text \<open>A source that has every block of a set.\<close>

definition has_blocks :: "cborlib \<Rightarrow> (cid \<Rightarrow> (mst_error, bytes) result) \<Rightarrow> bytes set \<Rightarrow> bool" where
  "has_blocks L get B \<longleftrightarrow> (\<forall>b \<in> B. get (SumCid L b) = Inr b)"

lemma has_blocks_Un [simp]: "has_blocks L get (A \<union> B) \<longleftrightarrow> has_blocks L get A \<and> has_blocks L get B"
  by (auto simp: has_blocks_def)

definition short_keys :: "(bytes \<times> cid) list \<Rightarrow> bool" where
  "short_keys xs \<longleftrightarrow> (\<forall>x \<in> set xs. length (fst x) \<le> MAX_KEY_BYTES)"

lemma short_keys_append [simp]: "short_keys (xs @ ys) \<longleftrightarrow> short_keys xs \<and> short_keys ys"
  by (auto simp: short_keys_def)

lemma ref_linked:
  assumes "wf_entries h es" "short_keys (entries_walk es)" "ref_entries L es = Inr rs"
  shows "linked rs \<and> top_height rs = top_height es \<and> (rs = [] \<longleftrightarrow> es = []) \<and>
     (es \<noteq> [] \<longrightarrow> isChild (hd rs) = isChild (hd es))"
  using assms
proof (induction es arbitrary: rs)
  case (Cons e es)
  show ?case
  proof (cases "echild e")
    case None
    then obtain rs1 where r: "ref_entries L es = Inr rs1" "rs = e # rs1" using Cons.prems(3) by (auto simp: rbind_Inr_iff)
    have "\<not> isChild e" using wf_child [OF Cons.prems(1), of e] None by auto
    then show ?thesis using Cons.IH [OF _ _ r(1)] Cons.prems r(2) None by (auto simp: short_keys_def)
  next
    case (Some ch)
    then obtain cc rs1 where r: "ref_entries L es = Inr rs1" "rs = setLink cc ch e # rs1"
      using Cons.prems(3) by (auto simp: rbind_Inr_iff)
    have c: "isChild e" "\<not> isValue e" using wf_child [OF Cons.prems(1), of e] Some by (auto simp: isChild_def)
    then show ?thesis using Cons.IH [OF _ _ r(1)] Cons.prems r(2) Some by (auto simp: short_keys_def)
  qed
qed simp

subsection \<open>Loading what was written\<close>

lemma top_height_cases: "wf_entries h es \<Longrightarrow> top_height es = h \<or> top_height es = -1 \<and> (\<forall>e \<in> set es. isChild e)"
  by (induction es) (auto split: if_splits)

lemma strip_link: "\<not> isValue e \<Longrightarrow> strip (setLink cc ch e) = NodeEntry [] None (Some cc) None False"
  by (simp add: strip_def)

lemma load_correct:
  assumes "cbor_laws L"
  shows "wf_node h n \<Longrightarrow> entries n \<noteq> [] \<Longrightarrow> short_keys (node_walk n) \<Longrightarrow> has_blocks L get (tree_blocks L n) \<Longrightarrow>
      node_block L n = Inr b \<Longrightarrow> nat h < fuel \<Longrightarrow>
      \<exists>m. loadNode L get fuel (SumCid L b) = Some (Inr m) \<and> shape m = shape n \<and> ncid m = Some (SumCid L b) \<and> \<not> ndirty m"
    "wf_entries h es \<Longrightarrow> short_keys (entries_walk es) \<Longrightarrow> has_blocks L get (entry_blocks L es) \<Longrightarrow>
      ref_entries L es = Inr rs \<Longrightarrow> nat h \<le> fuel \<Longrightarrow> h0 = h \<or> h0 = -1 \<Longrightarrow>
      \<exists>es' h1. load_children L get fuel (map strip rs) h0 = Some (Inr (es', h1)) \<and> shape_es es' = shape_es es \<and>
        (h1 = h \<or> h1 = h0 \<and> (\<forall>e \<in> set es. \<not> isChild e))"
proof (induction h n and h es arbitrary: b fuel and rs fuel h0 rule: wf_node_wf_entries.induct)
  case (1 h es H d c s)
  then have wf: "wf_entries h es" "es \<noteq> []" "H = h" "\<not> s" by auto
  obtain rs nd where r: "ref_entries L es = Inr rs" "node_NodeData (setEntries rs (Node es H d c s)) = Inr nd"
    "NodeData_MarshalCBOR L nd = Inr b" using 1(6) by (auto simp: node_block_def rbind_Inr_iff split: if_splits)
  obtain f where f: "fuel = Suc f" using 1(7) by (cases fuel) auto
  have hb: "get (SumCid L b) = Inr b" "has_blocks L get (entry_blocks L es)"
    using 1(5,6) by (auto simp: tree_blocks_iff has_blocks_def simp del: tree_blocks.simps)
  have k: "short_keys (entries_walk es)" using 1(4) by simp
  note rl = ref_linked [OF wf(1) k r(1)]
  have "linked (entries (setEntries rs (Node es H d c s)))" using rl by simp
  from Node_NodeData [OF this, of "Some (SumCid L b)"] r(2) rl have
    nd: "nd_Node nd (Some (SumCid L b)) = Inr (Node (map strip rs) (top_height es) False (Some (SumCid L b)) False)" by auto
  have dec: "NodeDataFromCBOR L b = Inr nd" using node_roundtrip [OF assms r(3), of "[]"] by (simp add: NodeDataFromCBOR_def)
  note th = top_height_cases [OF wf(1)]
  have "nat h \<le> f" using 1(7) f by simp
  from 1(1) [OF wf(1) k hb(2) r(1) this, of "top_height es"] th obtain es' h1 where
    l: "load_children L get f (map strip rs) (top_height es) = Some (Inr (es', h1))" "shape_es es' = shape_es es"
    "h1 = h \<or> h1 = top_height es \<and> (\<forall>e \<in> set es. \<not> isChild e)" by blast
  have "h1 = h" using l(3) th wf(2) by (cases es) auto
  then have "loadNode L get fuel (SumCid L b) = Some (Inr (Node es' h False (Some (SumCid L b)) False))"
    using f hb(1) dec nd l(1) by simp
  then show ?case using l(2) wf(3,4) by simp
next
  case (2 h)
  then show ?case by simp
next
  case (3 h e es)
  show ?case
  proof (cases "isChild e")
    case False
    have v: "isValue e" "echild e = None" using wf_value [OF 3(3) _ False] by auto
    then obtain rs1 where r: "ref_entries L es = Inr rs1" "rs = e # rs1" using 3(6) by (auto simp: rbind_Inr_iff)
    have w: "wf_entries h es" "short_keys (entries_walk es)" "has_blocks L get (entry_blocks L es)"
      using 3(3,4,5) v by (auto split: if_splits simp: short_keys_def)
    obtain es' h1 where l: "load_children L get fuel (map strip rs1) h0 = Some (Inr (es', h1))" "shape_es es' = shape_es es"
      "h1 = h \<or> h1 = h0 \<and> (\<forall>e \<in> set es. \<not> isChild e)" using 3(2) [OF w r(1) 3(7,8)] by blast
    have "\<not> isChild (strip e)" "shape_es (strip e # es') = shape_es (e # es)"
      using v False l(2) by (auto simp: strip_def isChild_def isValue_def)
    then show ?thesis using l False r(2) by auto
  next
    case True
    from wf_child_Cons [OF 3(3) True] obtain ch where ch: "echild e = Some ch" "wf_node (h - 1) ch" "entries ch \<noteq> []"
      "\<not> isValue e" "wf_entries h es" "entries_walk (e # es) = node_walk ch @ entries_walk es" by metis
    obtain cc rs1 where r: "ref_node L ch = Inr cc" "ref_entries L es = Inr rs1" "rs = setLink cc ch e # rs1"
      using 3(6) ch(1) by (auto simp: rbind_Inr_iff)
    obtain b where b: "node_block L ch = Inr b" "cc = SumCid L b" using r(1) by (auto simp: ref_node_block rbind_Inr_iff)
    have w: "short_keys (node_walk ch)" "short_keys (entries_walk es)" "has_blocks L get (tree_blocks L ch)"
      "has_blocks L get (entry_blocks L es)" using 3(4,5) ch(1) unfolding ch(6) by simp_all
    have "0 \<le> h - 1" using ch(2) by (simp add: wf_node_iff)
    then have "nat (h - 1) < fuel" using 3(7) by linarith
    with 3(1) [OF True ch(1,2,3) w(1,3) b(1)] obtain m where
      m: "loadNode L get fuel cc = Some (Inr m)" "shape m = shape ch" unfolding b(2) by blast
    have "nheight m = h - 1" using same_shape(1) [OF m(2), of "h - 1"] ch(2) by (simp add: wf_node_iff)
    then have hh: "(if h0 = -1 \<and> nheight m \<ge> 0 then nheight m + 1 else h0) = h" using 3(8) \<open>0 \<le> h - 1\<close> by auto
    obtain es' h1 where l: "load_children L get fuel (map strip rs1) h = Some (Inr (es', h1))" "shape_es es' = shape_es es" "h1 = h"
      using 3(2) [OF ch(5) w(2,4) r(2) 3(7), of h] by blast
    have "load_children L get fuel (map strip rs) h0 = Some (Inr (NodeEntry [] None (Some cc) (Some m) False # es', h))"
      unfolding r(3) list.map strip_link [OF ch(4)] using m(1) hh l by (simp add: isChild_def)
    moreover have "shape_es (NodeEntry [] None (Some cc) (Some m) False # es') = shape_es (e # es)"
      using ch(1,4) m(2) l(2) by (auto simp: isValue_def)
    ultimately show ?thesis by blast
  qed
qed

lemma ensureHeights_wf: "wf_node h n \<Longrightarrow> ensureHeights n = n" "wf_entries h es \<Longrightarrow> ensure_children h es = es"
proof (induction h n and h es rule: wf_node_wf_entries.induct)
  case (3 h e es)
  then show ?case by (cases e) (auto split: if_splits option.splits simp: isChild_def isValue_def wf_node_iff)
qed auto

text \<open>A store whose blocks are under their identifiers, and that has the blocks that a write of the dirty nodes skips.\<close>

definition addressed :: "cborlib \<Rightarrow> (cid \<rightharpoonup> bytes) \<Rightarrow> bool" where
  "addressed L bs \<longleftrightarrow> (\<forall>c b. bs c = Some b \<longrightarrow> c = SumCid L b)"

fun covered :: "cborlib \<Rightarrow> bytes set \<Rightarrow> node \<Rightarrow> bool" and covered_entries :: "cborlib \<Rightarrow> bytes set \<Rightarrow> entry list \<Rightarrow> bool" where
  "covered L B (Node es h d c s) \<longleftrightarrow> (\<not> d \<and> c \<noteq> None \<longrightarrow> tree_blocks L (Node es h d c s) \<subseteq> B) \<and> covered_entries L B es"
| "covered_entries L B [] \<longleftrightarrow> True"
| "covered_entries L B (e # es) \<longleftrightarrow>
     (case echild e of
        None \<Rightarrow> True
      | Some ch \<Rightarrow> covered L B ch \<and> (\<not> edirty e \<and> \<not> ndirty ch \<longrightarrow> tree_blocks L ch \<subseteq> B)) \<and>
     covered_entries L B es"

lemma covered_mono: "covered L B n \<Longrightarrow> B \<subseteq> B' \<Longrightarrow> covered L B' n"
  "covered_entries L B es \<Longrightarrow> B \<subseteq> B' \<Longrightarrow> covered_entries L B' es"
  by (induction n and es rule: shape_shape_es.induct) (auto split: option.splits)

lemma addressed_put:
  assumes "addressed L bs" "inj_on (SumCid L) (ran bs \<union> {b})"
  shows "addressed L (bs(SumCid L b \<mapsto> b)) \<and> ran (bs(SumCid L b \<mapsto> b)) = insert b (ran bs)"
proof -
  have "b' = b" if "bs (SumCid L b) = Some b'" for b'
  proof -
    have "SumCid L b = SumCid L b'" "b' \<in> ran bs" using assms(1) that by (auto simp: addressed_def ran_def)
    then show ?thesis using inj_onD [OF assms(2), of b b'] by auto
  qed
  then have "ran (bs(SumCid L b \<mapsto> b)) = insert b (ran bs)"
    by (cases "bs (SumCid L b)") (auto simp: map_upd_triv intro: ranI)
  then show ?thesis using assms(1) by (simp add: addressed_def)
qed

definition stores :: "cborlib \<Rightarrow> blockstore \<Rightarrow> blockstore option \<Rightarrow> bytes set \<Rightarrow> bool" where
  "stores L bs bs' B \<longleftrightarrow> (\<exists>s. bs' = Some s \<and> addressed L (blocks s) \<and> ran (blocks s) = ran (blocks bs) \<union> B)"

lemma stores_trans: "stores L bs (Some s) A \<Longrightarrow> stores L s bs' B \<Longrightarrow> stores L bs bs' (A \<union> B)"
  by (auto simp: stores_def)

lemma writes_store:
  "writeBlocks L od n (Some bs) = Inr (c, n', bs') \<Longrightarrow> cache_node L n \<Longrightarrow> covered L (ran (blocks bs)) n \<Longrightarrow>
     addressed L (blocks bs) \<Longrightarrow> inj_on (SumCid L) (ran (blocks bs) \<union> tree_blocks L n) \<Longrightarrow> stores L bs bs' (tree_blocks L n)"
  "write_children L od es (Some bs) = Inr (es', bs') \<Longrightarrow> cache_entries L es \<Longrightarrow> covered_entries L (ran (blocks bs)) es \<Longrightarrow>
     addressed L (blocks bs) \<Longrightarrow> inj_on (SumCid L) (ran (blocks bs) \<union> entry_blocks L es) \<Longrightarrow> stores L bs bs' (entry_blocks L es)"
proof (induction n and es arbitrary: bs c n' bs' and bs es' bs' rule: shape_shape_es.induct)
  case (1 es h d c0 s)
  show ?case
  proof (cases "od \<and> \<not> d \<and> c0 \<noteq> None")
    case True
    then show ?thesis using 1(2,4,5) by (auto simp: stores_def simp del: tree_blocks.simps split: if_splits)
  next
    case False
    with 1(2) obtain es1 b1 nd b where w: "\<not> s" "write_children L od es (Some bs) = Inr (es1, b1)"
      "node_NodeData (Node es1 h d c0 s) = Inr nd" "NodeData_MarshalCBOR L nd = Inr b" "bs_Put b1 (SumCid L b) b = Inr bs'"
      by (auto simp: rbind_Inr_iff nd_Bytes_def simp del: write_children.simps split: if_splits)
    have ce: "cache_entries L es" using 1(3) by simp
    obtain rs where rs: "ref_entries L es = Inr rs" "list_all2 encodes_as rs es1" using writes_correct(2) [OF w(2) ce] by auto
    have "node_NodeData (Node rs h d c0 s) = Inr nd"
      using nodedata_same [OF rs(2) [unfolded encodes_as_def]] w(3) by (simp add: node_NodeData_def)
    then have nb: "node_block L (Node es h d c0 s) = Inr b" using w(1,4) rs(1) by (simp add: node_block_def setEntries_def)
    then have tb: "tree_blocks L (Node es h d c0 s) = insert b (entry_blocks L es)" by simp
    have "stores L bs b1 (entry_blocks L es)"
      by (rule 1(1) [OF w(2) ce]) (use 1(4-6) tb in \<open>auto simp del: tree_blocks.simps intro: inj_on_subset\<close>)
    then obtain s1 where s1: "b1 = Some s1" "addressed L (blocks s1)" "ran (blocks s1) = ran (blocks bs) \<union> entry_blocks L es"
      by (auto simp: stores_def)
    have "ran (blocks s1) \<union> {b} = ran (blocks bs) \<union> tree_blocks L (Node es h d c0 s)" unfolding tb s1(3) by auto
    then have "inj_on (SumCid L) (ran (blocks s1) \<union> {b})" using 1(6) by metis
    from addressed_put [OF s1(2) this] show ?thesis using w(5) s1(1,3) unfolding tb
      by (auto simp: bs_Put_def stores_def split: if_splits)
  qed
next
  case (3 e es)
  show ?case
  proof (cases "echild e")
    case None
    then show ?thesis using 3 by (auto simp: rbind_Inr_iff)
  next
    case (Some ch)
    show ?thesis
    proof (cases "edirty e \<and> \<not> isValue e \<or> ndirty ch \<or> \<not> od")
      case True
      then obtain cc ch1 b1 es1 where w: "writeBlocks L od ch (Some bs) = Inr (cc, ch1, b1)" "write_children L od es b1 = Inr (es1, bs')"
        using 3(3) Some by (auto simp: rbind_Inr_iff)
      have "stores L bs b1 (tree_blocks L ch)"
        by (rule 3(1) [OF Some w(1)]) (use 3(4-7) Some in \<open>auto intro: inj_on_subset\<close>)
      then obtain s1 where s1: "b1 = Some s1" "addressed L (blocks s1)" "ran (blocks s1) = ran (blocks bs) \<union> tree_blocks L ch"
        by (auto simp: stores_def)
      have "stores L s1 bs' (entry_blocks L es)"
        by (rule 3(2) [OF w(2) [unfolded s1(1)] _ _ s1(2)])
          (use 3(4-7) Some s1(3) covered_mono(2) in \<open>auto simp: Un_assoc\<close>)
      then show ?thesis using s1 Some by (auto simp: stores_def)
    next
      case False
      then obtain es1 where w: "write_children L od es (Some bs) = Inr (es1, bs')"
        using 3(3) Some by (auto simp: rbind_Inr_iff)
      have "stores L bs bs' (entry_blocks L es)"
        by (rule 3(2) [OF w]) (use 3(4-7) Some in \<open>auto intro: inj_on_subset\<close>)
      moreover have "\<not> isValue e" using 3(4) Some by simp
      ultimately show ?thesis using 3(5) False Some by (auto simp: stores_def)
    qed
  qed
qed (auto simp: stores_def)

subsection \<open>A library for samples\<close>

text \<open>Headers with the length in the first byte or in the next eight, identifiers with their length, and a content
  identifier that is the content.\<close>

definition sample_header :: "nat \<Rightarrow> u64 \<Rightarrow> bytes" where
  "sample_header m n = (if n < 24 then [word_of_nat (m * 32 + unat n)] else word_of_nat (m * 32 + 27) # le_put 8 n)"

definition sample_readHeader :: "bytes \<Rightarrow> (nat \<times> u64 \<times> bytes) option" where
  "sample_readHeader r =
     (case r of
        [] \<Rightarrow> None
      | b # r \<Rightarrow>
          if unat b mod 32 < 24 then Some (unat b div 32, word_of_nat (unat b mod 32), r)
          else if length r < 8 then None
          else Some (unat b div 32, le_get (take 8 r), drop 8 r))"

definition sample_lib :: cborlib where
  "sample_lib = \<lparr>
     WriteMajorTypeHeader = sample_header,
     ReadHeader = sample_readHeader,
     WriteCid = (\<lambda>c. if c = [] \<or> 4294967296 \<le> int (length c) then None else Some (216 # le_put 8 (word_of_nat (length c) :: u64) @ c)),
     ReadCid = (\<lambda>r. let n = unat (le_get (take 8 (tl r)) :: u64) in Some (take n (drop 8 (tl r)), drop n (drop 8 (tl r)))),
     ReadFullStringIntoBuf = (\<lambda>k r. case sample_readHeader r of
        None \<Rightarrow> None
      | Some (m, n, r) \<Rightarrow> Some (if unat n \<le> k then Some (take (unat n) r) else None, drop (unat n) r)),
     ReadStringWithMax = (\<lambda>r. case sample_readHeader r of
        None \<Rightarrow> None
      | Some (m, n, r) \<Rightarrow> if m \<noteq> 3 \<or> n > 1000000 \<or> length r < unat n then None else Some (take (unat n) r, drop (unat n) r)),
     ScanForLinks = (\<lambda>r. None),
     MaxLength = 8192,
     SumCid = (\<lambda>b. b) \<rparr>"

lemma byte_of_nat: "k < 256 \<Longrightarrow> unat (word_of_nat k :: byte) = k"
  by (simp add: unat_of_nat_less)

lemma sample_header_read: "m < 8 \<Longrightarrow> sample_readHeader (sample_header m n @ r) = Some (m, n, r)"
proof (cases "n < 24")
  case True
  assume "m < 8"
  moreover have "unat n < 24" using True by (simp add: word_less_nat_alt)
  ultimately show ?thesis using True byte_of_nat [of "m * 32 + unat n"] by (simp add: sample_header_def sample_readHeader_def)
next
  case False
  assume "m < 8"
  then show ?thesis using False byte_of_nat [of "m * 32 + 27"] le_get_put [of 8 n]
    by (simp add: sample_header_def sample_readHeader_def)
qed

lemma sample_lib_laws: "cbor_laws sample_lib"
  unfolding cbor_laws_def
proof (intro conjI allI impI)
  fix m n :: nat and r assume a: "m < 8" "n < 24"
  have "m * 32 + n < 256" using a by simp
  then have "unat (word_of_nat (m * 32 + n) :: byte) = m * 32 + n" by (rule byte_of_nat)
  then show "ReadHeader sample_lib (word_of_nat (m * 32 + n) # r) = Some (m, word_of_nat n, r)"
    using a by (simp add: sample_lib_def sample_readHeader_def)
next
  fix c b r assume w: "WriteCid sample_lib c = Some b"
  then have "length c < 4294967296" and b: "b = 216 # le_put 8 (word_of_nat (length c) :: u64) @ c"
    by (auto simp: sample_lib_def not_le split: if_splits)
  then have u: "unat (word_of_nat (length c) :: u64) = length c" by (intro unat_of_nat_less) simp
  show "ReadCid sample_lib (b @ r) = Some (c, r)"
    using u le_get_put [of 8 "word_of_nat (length c) :: u64"] unfolding b by (simp add: sample_lib_def Let_def)
  show "b \<noteq> []" "hd b \<noteq> CborNull" unfolding b by simp_all
next
  fix k :: nat and s r :: bytes assume "k \<le> 7" "length s \<le> k"
  moreover from this have "unat (word_of_nat (length s) :: u64) = length s" by (intro unat_of_nat_less) simp
  ultimately show "ReadFullStringIntoBuf sample_lib k (WriteMajorTypeHeader sample_lib MajTextString (word_of_nat (length s)) @ s @ r) = Some (Some s, r)"
    using sample_header_read [of 3 _ "s @ r"] by (simp add: sample_lib_def)
next
  fix s r :: bytes assume "length s \<le> 1000000"
  moreover from this have "unat (word_of_nat (length s) :: u64) = length s" by (intro unat_of_nat_less) simp
  ultimately show "ReadStringWithMax sample_lib (WriteMajorTypeHeader sample_lib MajTextString (word_of_nat (length s)) @ s @ r) = Some (s, r)"
    using sample_header_read [of 3 _ "s @ r"] by (simp add: sample_lib_def word_less_nat_alt)
next
  show "m < 8 \<Longrightarrow> ReadHeader sample_lib (WriteMajorTypeHeader sample_lib m n @ r) = Some (m, n, r)" for m n r
    using sample_header_read by (simp add: sample_lib_def)
  show "6 \<le> MaxLength sample_lib" by (simp add: sample_lib_def)
qed

definition two_keys :: Tree where
  "two_keys = \<lparr> Root = Node [childEntry (Node [valueEntry [97] [1]] 0 True None False), valueEntry [98] [2]] 1 True None False \<rparr>"

lemma built_two_keys: "built sample_lib two_keys"
proof (rule built.insert [OF built.insert [OF built.empty]])
  show "Insert NewEmptyTree [97] [1] = Inr (\<lparr> Root = Node [valueEntry [97] [1]] 0 True None False \<rparr>, None)"
    by (simp add: NewEmptyTree_def Insert_def IsValidKey_def MAX_KEY_BYTES_def insert_node.simps key_height_def insert_here_def
        findExistingEntry_def findInsertionIndex_def setDirty_def setEntries_def)
  show "Insert \<lparr> Root = Node [valueEntry [97] [1]] 0 True None False \<rparr> [98] [2] = Inr (two_keys, None)"
    by (simp add: two_keys_def Insert_def IsValidKey_def MAX_KEY_BYTES_def insert_node.simps key_height_def insert_here_def
        findExistingEntry_def findInsertionIndex_def setDirty_def setEntries_def insertParent_def node_IsEmpty_def
        valueEntry_def childEntry_def isValue_def isChild_def next_before_def)
qed

lemma two_keys_walk: "Walk two_keys = [([97], [1]), ([98], [2])]"
  by (simp add: two_keys_def Walk_def)

lemma two_keys_written: "\<exists>c t bs'. WriteDiffBlocks sample_lib two_keys \<lparr> blocks = Map.empty, put_fails = (\<lambda>_. False) \<rparr> = Inr (c, t, bs')"
  by (simp add: WriteDiffBlocks_def two_keys_def valueEntry_def childEntry_def node_NodeData_def isValue_def isChild_def Let_def
      nd_Bytes_def NodeData_MarshalCBOR_def EntryData_MarshalCBOR_def write_link_def write_name_def write_int64_def
      sample_lib_def bs_Put_def sample_header_def)

subsection \<open>Properties of encodings and stores\<close>

lemma built_keys: "built L t \<Longrightarrow> short_keys (Walk t)"
proof (induction rule: built.induct)
  case empty
  then show ?case by (simp add: NewEmptyTree_def Walk_def short_keys_def)
next
  case (insert t key val t' prev)
  have "tree_ok t" using built_invariant [OF insert(1)] by simp
  note r = Insert_result [OF insert(2) this]
  then have "length key \<le> MAX_KEY_BYTES" by (simp add: IsValidKey_def)
  then show ?case using insert(3) unfolding r(3) by (auto simp: short_keys_def ins_def lower_def upper_def)
next
  case (remove t key t' prev)
  have "tree_ok t" using built_invariant [OF remove(1)] by simp
  from Remove_result(2) [OF remove(2) this] show ?case using remove(3) by (auto simp: short_keys_def del_def)
next
  case (rootcid t c t')
  have "cache_node L (Root t)" "\<not> nstub (Root t)"
    using built_invariant [OF rootcid(1)] by (auto simp: tree_ok_def wf_node_iff)
  from RootCID_correct [OF this] rootcid(2) have "shape (Root t') = shape (Root t)" by auto
  from same_shape(2) [OF this] show ?case using rootcid(3) by (simp add: Walk_def)
next
  case (diff t bs c t' bs')
  then obtain n b' where w: "writeBlocks L True (Root t) (Some bs) = Inr (c, n, b')" "t' = \<lparr> Root = n \<rparr>"
    by (auto simp: WriteDiffBlocks_def rbind_Inr_iff)
  have "shape n = shape (Root t)" using writes_correct(1) [OF w(1)] built_invariant [OF diff(1)] by simp
  from same_shape(2) [OF this] show ?case using diff(3) w(2) by (simp add: Walk_def)
qed

lemma wf_height_bound:
  assumes "wf_node h (Root t)" "entries (Root t) \<noteq> []" "canonical t"
  shows "nat h \<le> 128"
proof -
  have "has_value (Root t)" using assms(2,3) by (simp add: canonical_def)
  then obtain x where "HeightForKey (fst x) = h" using has_value_at_top [OF assms(1)] by (auto simp: at_top_def)
  then show ?thesis using height_loop_bounds [of 0 "Sum256 (fst x)"] by (auto simp: HeightForKey_def Sum256_length)
qed

lemma load_tree:
  assumes "cbor_laws L" "built L t" "canonical t" "Walk t \<noteq> []" "ref_node L (Root t) = Inr c"
    "has_blocks L get (tree_blocks L (Root t))"
  shows "\<exists>m. LoadTreeFromStore L get 129 c = Some (Inr m) \<and> shape (Root m) = shape (Root t)"
proof -
  obtain h where h: "wf_node h (Root t)" using assms(3) by (auto simp: canonical_def tree_ok_def)
  have e: "entries (Root t) \<noteq> []" using assms(4) by (auto simp: Walk_def node_walk_entries)
  obtain b where b: "node_block L (Root t) = Inr b" "c = SumCid L b" using assms(5) by (auto simp: ref_node_block rbind_Inr_iff)
  have k: "short_keys (node_walk (Root t))" using built_keys [OF assms(2)] by (simp add: Walk_def)
  have f: "nat h < 129" using wf_height_bound [OF h e assms(3)] by simp
  obtain m where m: "loadNode L get 129 c = Some (Inr m)" "shape m = shape (Root t)"
    using load_correct(1) [OF assms(1) h e k assms(6) b(1) f] b(2) by blast
  have "ensureHeights m = m" using same_shape(1) [OF m(2), of h] h ensureHeights_wf(1) by blast
  then show ?thesis using m by (simp add: LoadTreeFromStore_def)
qed

definition bs_Get :: "blockstore \<Rightarrow> cid \<Rightarrow> (mst_error, bytes) result" where
  "bs_Get bs c = (case blocks bs c of None \<Rightarrow> Inl ErrMissingBlock | Some b \<Rightarrow> Inr b)"

lemma canonical_same: "shape (Root t) = shape (Root t') \<Longrightarrow> canonical t \<Longrightarrow> canonical t'"
proof -
  assume s: "shape (Root t) = shape (Root t')" and c: "canonical t"
  have ok: "tree_ok t'" using same_shape_ok [OF s] c by (simp add: canonical_def)
  have w: "node_walk (Root t') = node_walk (Root t)" using same_shape(2) [OF s] by simp
  show ?thesis
  proof (cases rule: canonical_cases [OF c])
    case 1
    then have "wf_node 0 (Root t')" "entries (Root t') = []"
      using same_shape(1) [OF s, of 0] w wf_walk_nonempty(1) [of 0 "Root t'"] by (auto simp: Walk_def)
    then show ?thesis using ok by (simp add: canonical_def wf_node_iff)
  next
    case (2 h)
    then show ?thesis using same_shape(1) [OF s, of h] w ok by (intro canonicalI [of t' h]) (simp_all add: Walk_def)
  qed
qed

lemma two_keys_canonical: "canonical two_keys"
  using built_invariant [OF built_two_keys] by (auto simp: canonical_def has_value_def) (simp_all add: two_keys_def)

text \<open>C14: An encoded node is decoded to the same node, for every node that the encoder accepts.\<close>

theorem node_codec_roundtrip:
  assumes "cbor_laws L" "NodeData_MarshalCBOR L nd = Inr b"
  shows "NodeDataFromCBOR L b = Inr nd"
  using node_roundtrip [OF assms, of "[]"] by (simp add: NodeDataFromCBOR_def)

theorem node_codec_roundtrip_witness:
  "\<exists>b. NodeData_MarshalCBOR sample_lib \<lparr> Left = Some [7], Entries = [\<lparr> PrefixLen = - 3, KeySuffix = [97], Value = [1], Right = None \<rparr>] \<rparr> = Inr b \<and>
     NodeDataFromCBOR sample_lib b = Inr \<lparr> Left = Some [7], Entries = [\<lparr> PrefixLen = - 3, KeySuffix = [97], Value = [1], Right = None \<rparr>] \<rparr>"
proof -
  let ?nd = "\<lparr> Left = Some [7], Entries = [\<lparr> PrefixLen = - 3, KeySuffix = [97], Value = [1], Right = None \<rparr>] \<rparr>"
  obtain b where "NodeData_MarshalCBOR sample_lib ?nd = Inr b"
    by (simp add: NodeData_MarshalCBOR_def EntryData_MarshalCBOR_def write_link_def sample_lib_def)
  then show ?thesis using node_codec_roundtrip [OF sample_lib_laws] by blast
qed

text \<open>C6: Whatever sequence of insertions, removals and writes built a tree, its root identifier, which is computed from the
  dirty nodes and the cached identifiers, is the one that a computation over all nodes gives, errors included.\<close>

theorem root_cid_incremental:
  assumes "built L t"
  shows "(case RootCID L t of
      Inl err \<Rightarrow> ref_node L (Root t) = Inl err
    | Inr (c, t') \<Rightarrow> ref_node L (Root t) = Inr c \<and> contents t' = contents t)"
proof -
  have "cache_node L (Root t)" "\<not> nstub (Root t)" using built_invariant [OF assms] by (auto simp: tree_ok_def wf_node_iff)
  from RootCID_correct [OF this] show ?thesis
  proof (elim disjE exE conjE)
    fix c t' assume "RootCID L t = Inr (c, t')" "ref_node L (Root t) = Inr c" "shape (Root t') = shape (Root t)"
    moreover from same_shape_ok [OF this(3)] have "contents t' = contents t" by simp
    ultimately show ?thesis by simp
  qed simp
qed

theorem root_cid_incremental_witness:
  "built sample_lib two_keys \<and> (case RootCID sample_lib two_keys of
      Inl err \<Rightarrow> ref_node sample_lib (Root two_keys) = Inl err
    | Inr (c, t') \<Rightarrow> ref_node sample_lib (Root two_keys) = Inr c \<and> contents t' [98] = Some [2])"
proof -
  have "contents two_keys [98] = Some [2]" by (simp add: contents_def two_keys_walk)
  then show ?thesis using root_cid_incremental [OF built_two_keys] built_two_keys
    by (cases "RootCID sample_lib two_keys") (auto simp del: ref_node.simps)
qed

text \<open>C20: Canonical trees with the same contents have the same root identifier, whatever operations built them.\<close>

theorem root_cid_by_contents:
  assumes "built L t" "built L t'" "canonical t" "canonical t'" "contents t = contents t'"
  shows "map_sum id fst (RootCID L t) = map_sum id fst (RootCID L t')"
proof -
  have r: "ref_node L (Root t) = ref_node L (Root t')" using ref_same [OF canonical_contents(2) [OF assms(3-5)]] .
  have *: "map_sum id fst (RootCID L s) = ref_node L (Root s)" if "built L s" for s
  proof -
    have "cache_node L (Root s)" "\<not> nstub (Root s)" using built_invariant [OF that] by (auto simp: tree_ok_def wf_node_iff)
    from RootCID_correct [OF this] show ?thesis by auto
  qed
  show ?thesis using * [OF assms(1)] * [OF assms(2)] r by simp
qed

theorem root_cid_by_contents_witness:
  "\<exists>t. built sample_lib t \<and> t \<noteq> two_keys \<and> map_sum id fst (RootCID sample_lib t) = map_sum id fst (RootCID sample_lib two_keys)"
proof -
  obtain c t bs where w: "WriteDiffBlocks sample_lib two_keys \<lparr> blocks = Map.empty, put_fails = (\<lambda>_. False) \<rparr> = Inr (c, t, bs)"
    using two_keys_written by blast
  have b: "built sample_lib t" by (rule built.diff [OF built_two_keys w])
  obtain n b' where n: "writeBlocks sample_lib True (Root two_keys) (Some \<lparr> blocks = Map.empty, put_fails = (\<lambda>_. False) \<rparr>) = Inr (c, n, b')"
    "t = \<lparr> Root = n \<rparr>" using w by (auto simp: WriteDiffBlocks_def rbind_Inr_iff)
  have s: "shape (Root two_keys) = shape (Root t)" "\<not> ndirty (Root t)"
    using writes_correct(1) [OF n(1)] built_invariant [OF built_two_keys] n(2) by auto
  moreover have "t \<noteq> two_keys" using s(2) by (auto simp: two_keys_def)
  ultimately show ?thesis
    using root_cid_by_contents [OF b built_two_keys canonical_same [OF s(1) two_keys_canonical] two_keys_canonical] b
      same_shape_ok [OF s(1)] by metis
qed

lemma contents_empty: "contents t = Map.empty \<longleftrightarrow> Walk t = []"
  by (auto simp: contents_def)



text \<open>C9: The root identifier stands for the contents: two trees with the same root identifier have the same contents, if no
  two of their blocks have the same identifier.\<close>

theorem root_cid_authentic:
  assumes "cbor_laws L" "built L t" "built L t'" "canonical t" "canonical t'" "contents t \<noteq> Map.empty" "contents t' \<noteq> Map.empty"
    "inj_on (SumCid L) (tree_blocks L (Root t) \<union> tree_blocks L (Root t'))" "RootCID L t = Inr (c, u)" "RootCID L t' = Inr (c, u')"
  shows "contents t = contents t'"
proof -
  let ?B = "tree_blocks L (Root t) \<union> tree_blocks L (Root t')"
  define get :: "cid \<Rightarrow> (mst_error, bytes) result" where "get x = Inr (inv_into ?B (SumCid L) x)" for x
  have g: "has_blocks L get ?B" using assms(8) by (simp add: has_blocks_def get_def)
  have r: "ref_node L (Root s) = Inr c" if "built L s" "RootCID L s = Inr (c, v)" for s v
  proof -
    have "cache_node L (Root s)" "\<not> nstub (Root s)" using built_invariant [OF that(1)] by (auto simp: tree_ok_def wf_node_iff)
    from RootCID_correct [OF this] that(2) show ?thesis by auto
  qed
  obtain m where m: "LoadTreeFromStore L get 129 c = Some (Inr m)" "shape (Root m) = shape (Root t)"
    using load_tree [OF assms(1,2,4) _ r [OF assms(2,9)], of get] g assms(6) by (auto simp: contents_empty)
  obtain m' where m': "LoadTreeFromStore L get 129 c = Some (Inr m')" "shape (Root m') = shape (Root t')"
    using load_tree [OF assms(1,3,5) _ r [OF assms(3,10)], of get] g assms(7) by (auto simp: contents_empty)
  have "m = m'" using m(1) m'(1) by simp
  then show ?thesis using same_shape_ok [of t t'] m(2) m'(2) by simp
qed

lemma two_keys_rootcid: "\<exists>c u. RootCID sample_lib two_keys = Inr (c, u)"
  by (simp add: RootCID_def two_keys_def valueEntry_def childEntry_def node_NodeData_def isValue_def isChild_def Let_def
      nd_Bytes_def NodeData_MarshalCBOR_def EntryData_MarshalCBOR_def write_link_def write_name_def write_int64_def
      sample_lib_def sample_header_def)

theorem root_cid_authentic_witness:
  "\<exists>c u. RootCID sample_lib two_keys = Inr (c, u) \<and> contents two_keys \<noteq> Map.empty \<and> contents u = contents two_keys"
proof -
  obtain c u where c: "RootCID sample_lib two_keys = Inr (c, u)" using two_keys_rootcid by blast
  have ne: "contents two_keys \<noteq> Map.empty" by (simp add: contents_empty two_keys_walk)
  have i: "inj_on (SumCid sample_lib) B" for B by (simp add: sample_lib_def)
  have b: "built sample_lib u" by (rule built.rootcid [OF built_two_keys c])
  have "cache_node sample_lib (Root two_keys)" "\<not> nstub (Root two_keys)" "cache_node sample_lib (Root u)" "\<not> nstub (Root u)"
    using built_invariant [OF built_two_keys] built_invariant [OF b] by (auto simp: tree_ok_def wf_node_iff)
  note rc = RootCID_correct [OF this(1,2)] RootCID_correct [OF this(3,4)]
  have s: "shape (Root two_keys) = shape (Root u)" "ref_node sample_lib (Root u) = Inr c"
    using rc(1) c ref_same [of "Root u" "Root two_keys" sample_lib] by auto
  obtain v where v: "RootCID sample_lib u = Inr (c, v)" using rc(2) s(2) by auto
  have cu: "canonical u" by (rule canonical_same [OF s(1) two_keys_canonical])
  have "contents u = contents two_keys"
    by (rule root_cid_authentic [OF sample_lib_laws b built_two_keys cu two_keys_canonical _ ne i v c])
      (use same_shape_ok [OF s(1)] ne in simp)
  then show ?thesis using c ne by blast
qed

end
