(* ===== verification/MstLoad.thy ===== *)
theory MstLoad
  imports MstStore
begin

text \<open>
  Termination of \<^verbatim>\<open>loadNodeFromStore\<close> (\<^verbatim>\<open>atproto/repo/mst/encoding.go\<close>) on an arbitrary block source: the blocks may be
  malformed, incomplete or of another tree. The recursion follows the links from block to block, so it ends when no
  chain of links is infinite, with a result or an error, and it does not end when the leftmost links run in a cycle.
\<close>

subsection \<open>Links between blocks\<close>

text \<open>The links of a block, in the order in which the loop over the entries follows them.\<close>

definition links :: "cborlib \<Rightarrow> (cid \<Rightarrow> (mst_error, bytes) result) \<Rightarrow> cid \<Rightarrow> cid list" where
  "links L get ref =
     (case rbind (get ref) (\<lambda>b. rbind (NodeDataFromCBOR L b) (\<lambda>nd. nd_Node nd (Some ref))) of
        Inl err \<Rightarrow> []
      | Inr n \<Rightarrow> List.map_filter (\<lambda>e. if isChild e then echildcid e else None) (entries n))"

text \<open>More fuel does not change a result.\<close>

lemma load_mono:
  "loadNode L get f ref = Some r \<Longrightarrow> f \<le> g \<Longrightarrow> loadNode L get g ref = Some r"
  "load_children L get f es h = Some q \<Longrightarrow> f \<le> g \<Longrightarrow> load_children L get g es h = Some q"
proof (induction L get f ref and L get f es h arbitrary: g r and g q rule: loadNode_load_children.induct)
  case (2 L get f ref)
  obtain k where k: "g = Suc k" "f \<le> k" using 2(3) by (cases g) auto
  let ?n = "rbind (get ref) (\<lambda>b. rbind (NodeDataFromCBOR L b) (\<lambda>nd. nd_Node nd (Some ref)))"
  show ?case
  proof (cases ?n)
    case (Inr n)
    then obtain q where q: "load_children L get f (entries n) (nheight n) = Some q"
      using 2(2) by (cases "load_children L get f (entries n) (nheight n)") auto
    have "load_children L get k (entries n) (nheight n) = Some q" using 2(1) [OF _ q k(2)] Inr by simp
    then show ?thesis using 2(2) q Inr k(1) by simp
  next
    case (Inl err)
    moreover have "r = Inl err" using 2(2) Inl by simp
    ultimately show ?thesis using k(1) by simp
  qed
next
  case (4 L get f e es h)
  show ?case
  proof (cases "if isChild e then echildcid e else None")
    case None
    then obtain p where p: "load_children L get f es h = Some p"
      using 4(5) by (cases "load_children L get f es h") auto
    then show ?thesis using 4(5) 4(1) [OF None p 4(6)] None by simp
  next
    case (Some cc)
    then obtain m where m: "loadNode L get f cc = Some m" using 4(5) by (cases "loadNode L get f cc") auto
    have m': "loadNode L get g cc = Some m" using 4(2) [OF Some m 4(6)] .
    show ?thesis
    proof (cases m)
      case (Inl err)
      show ?thesis
      proof (cases "err = ErrMissingBlock")
        case True
        then obtain p where p: "load_children L get f es h = Some p"
          using 4(5) Some m Inl by (cases "load_children L get f es h") auto
        then show ?thesis using 4(5) 4(3) [OF Some m Inl True p 4(6)] Some m m' Inl True by simp
      next
        case False
        then show ?thesis using 4(5) Some m m' Inl by simp
      qed
    next
      case (Inr child)
      let ?h = "if h = -1 \<and> nheight child \<ge> 0 then nheight child + 1 else h"
      obtain p where p: "load_children L get f es ?h = Some p"
        using 4(5) Some m Inr by (cases "load_children L get f es ?h") auto
      then show ?thesis using 4(5) 4(4) [OF Some m Inr p 4(6)] Some m m' Inr by simp
    qed
  qed
qed auto

text \<open>A source whose links go down in rank.\<close>

definition descending :: "cborlib \<Rightarrow> (cid \<Rightarrow> (mst_error, bytes) result) \<Rightarrow> (cid \<Rightarrow> nat) \<Rightarrow> cid set \<Rightarrow> bool" where
  "descending L get rank R \<longleftrightarrow> (\<forall>ref\<in>R. \<forall>cc\<in>set (links L get ref). cc \<in> R \<and> rank cc < rank ref)"

lemma children_return:
  assumes "\<forall>cc\<in>set (List.map_filter (\<lambda>e. if isChild e then echildcid e else None) es). \<exists>r. loadNode L get f cc = Some r"
  shows "\<exists>q. load_children L get f es h = Some q"
  using assms
proof (induction es arbitrary: h)
  case (Cons e es)
  then have IH: "\<exists>q. load_children L get f es h = Some q" for h
    by (auto simp: map_filter_simps split: option.splits)
  show ?case
  proof (cases "if isChild e then echildcid e else None")
    case None
    then show ?thesis using IH [of h] by (auto simp: fbind_def split: sum.splits)
  next
    case (Some cc)
    then obtain m where m: "loadNode L get f cc = Some m" using Cons.prems by (auto simp: map_filter_simps)
    show ?thesis
    proof (cases m)
      case (Inl err)
      then show ?thesis using IH [of h] Some m by (auto simp: fbind_def split: sum.splits)
    next
      case (Inr child)
      then show ?thesis using IH [of "if h = -1 \<and> nheight child \<ge> 0 then nheight child + 1 else h"] Some m
        by (auto simp: fbind_def split: sum.splits)
    qed
  qed
qed simp

lemma load_returns:
  assumes "descending L get rank R" "ref \<in> R" "rank ref < f"
  shows "\<exists>r. loadNode L get f ref = Some r"
  using assms(2,3)
proof (induction f arbitrary: ref)
  case (Suc f)
  let ?n = "rbind (get ref) (\<lambda>b. rbind (NodeDataFromCBOR L b) (\<lambda>nd. nd_Node nd (Some ref)))"
  show ?case
  proof (cases ?n)
    case (Inr n)
    have "\<exists>r. loadNode L get f cc = Some r" if "cc \<in> set (links L get ref)" for cc
      using Suc assms(1) that unfolding descending_def by (metis less_Suc_eq_le order_less_le_trans)
    then obtain q where "load_children L get f (entries n) (nheight n) = Some q"
      using children_return [of "entries n" L get f "nheight n"] Inr by (auto simp: links_def)
    then show ?thesis using Inr by (cases q) auto
  qed simp
qed simp

text \<open>A set of blocks whose leftmost links stay in the set is never loaded.\<close>

lemma first_child_stuck:
  assumes "List.map_filter (\<lambda>e. if isChild e then echildcid e else None) es = cc # ccs" "loadNode L get f cc = None"
  shows "load_children L get f es h = None"
  using assms(1)
  by (induction es arbitrary: h) (use assms(2) in \<open>auto simp: map_filter_simps split: option.splits if_splits\<close>)

lemma load_cycle:
  assumes "\<And>ref. ref \<in> C \<Longrightarrow> \<exists>cc ccs. links L get ref = cc # ccs \<and> cc \<in> C" "ref \<in> C"
  shows "loadNode L get f ref = None"
  using assms(2)
proof (induction f arbitrary: ref)
  case (Suc f)
  let ?n = "rbind (get ref) (\<lambda>b. rbind (NodeDataFromCBOR L b) (\<lambda>nd. nd_Node nd (Some ref)))"
  obtain cc ccs where l: "links L get ref = cc # ccs" "cc \<in> C" using assms(1) [OF Suc.prems] by blast
  then obtain n where n: "?n = Inr n" by (cases ?n) (auto simp: links_def)
  then have "load_children L get f (entries n) (nheight n) = None"
    using first_child_stuck [OF _ Suc.IH [OF l(2)]] l(1) by (simp add: links_def)
  then show ?case using n by simp
qed simp

subsection \<open>Termination\<close>

text \<open>A source with one block, whose link leads to a block that is missing.\<close>

definition one_block :: "cid \<Rightarrow> (mst_error, bytes) result" where
  "one_block c = (if c = [7] then NodeData_MarshalCBOR sample_lib \<lparr> Left = Some [8], Entries = [] \<rparr> else Inl ErrMissingBlock)"

lemma one_block_links: "links sample_lib one_block [7] = [[8]]" "links sample_lib one_block [8] = []"
  by code_simp+



end
