(* ===== verification/MstPartial.thy ===== *)
theory MstPartial
  imports MstStore
begin

text \<open>
  Partial trees. A commit message carries only some blocks of a repository, so the tree loaded from it has links to
  nodes that are missing. A partial tree prunes a complete one; insertion and removal in the partial tree, where they
  succeed, simulate those in the complete tree, and the root identifiers agree.
\<close>

subsection \<open>Blocks do not depend on caches\<close>

lemma node_block_shape: "node_block L (shape n) = node_block L n"
proof (cases n)
  case (Node es h d c s)
  show ?thesis
    using same_encoding_node [OF ref_shape(2) [of L es], of h False None s "NodeData_MarshalCBOR L" h d c s]
    by (cases s) (simp_all add: Node node_block_def setEntries_def)
qed

lemma tree_blocks_shape: "tree_blocks L (shape n) = tree_blocks L n" "entry_blocks L (shape_es es) = entry_blocks L es"
proof (induction n and es rule: shape_shape_es.induct)
  case (1 es h d c s)
  then show ?case using node_block_shape [of L "Node es h d c s"] by simp
next
  case (3 e es)
  then show ?case by (auto split: option.splits)
qed simp

lemma tree_blocks_undirty: "undirty n = undirty n' \<Longrightarrow> tree_blocks L n = tree_blocks L n'"
  by (metis shape_undirty(1) tree_blocks_shape(1))

subsection \<open>Pruned trees\<close>

text \<open>A complete subtree with its identifier and its blocks in \<open>B\<close>.\<close>

definition original :: "cborlib \<Rightarrow> bytes set \<Rightarrow> node \<Rightarrow> cid \<Rightarrow> bool" where
  "original L B n c \<longleftrightarrow> ref_node L n = Inr c \<and> tree_blocks L n \<subseteq> B \<and> (\<exists>h. wf_node h n) \<and> short_keys (node_walk n)"

lemma original_undirty: "undirty n = undirty n' \<Longrightarrow> original L B n c = original L B n' c"
  using ref_undirty [of n n' L] tree_blocks_undirty [of n n' L] same_undirty(1,2) [of n n'] by (simp add: original_def)

text \<open>\<open>prunes L B p f\<close>: \<open>p\<close> is \<open>f\<close> with some children replaced by links, whose blocks are in \<open>B\<close>. Flags and cached
  identifiers do not count.\<close>

fun prunes :: "cborlib \<Rightarrow> bytes set \<Rightarrow> node \<Rightarrow> node \<Rightarrow> bool"
  and prunes_es :: "cborlib \<Rightarrow> bytes set \<Rightarrow> entry list \<Rightarrow> entry list \<Rightarrow> bool" where
  "prunes L B (Node es h d c s) f \<longleftrightarrow> \<not> s \<and> \<not> nstub f \<and> nheight f = h \<and> prunes_es L B es (entries f)"
| "prunes_es L B [] fs \<longleftrightarrow> fs = []"
| "prunes_es L B (e # es) fs \<longleftrightarrow>
     (case fs of
        [] \<Rightarrow> False
      | f # fs \<Rightarrow> isValue e = isValue f \<and> (isValue e \<longrightarrow> ekey e = ekey f \<and> evalue e = evalue f) \<and>
          (case (echild e, echild f) of
             (Some ch, Some ch') \<Rightarrow> prunes L B ch ch'
           | (Some ch, None) \<Rightarrow> False
           | (None, None) \<Rightarrow> \<not> isChild e \<and> \<not> isChild f
           | (None, Some ch') \<Rightarrow> (\<exists>cc. echildcid e = Some cc \<and> original L B ch' cc)) \<and>
          prunes_es L B es fs)"

definition prunes_entry :: "cborlib \<Rightarrow> bytes set \<Rightarrow> entry \<Rightarrow> entry \<Rightarrow> bool" where
  "prunes_entry L B e f \<longleftrightarrow> prunes_es L B [e] [f]"

lemma prunes_es_iff: "prunes_es L B = list_all2 (prunes_entry L B)"
proof (intro ext)
  show "prunes_es L B es fs = list_all2 (prunes_entry L B) es fs" for es fs
    by (induction es arbitrary: fs) (auto simp: prunes_entry_def split: list.splits)
qed

lemma prunes_iff:
  "prunes L B p f \<longleftrightarrow> \<not> nstub p \<and> \<not> nstub f \<and> nheight p = nheight f \<and> list_all2 (prunes_entry L B) (entries p) (entries f)"
  by (cases p) (auto simp: prunes_es_iff)

lemma prunes_entry_iff:
  "prunes_entry L B e f \<longleftrightarrow> isValue e = isValue f \<and> (isValue e \<longrightarrow> ekey e = ekey f \<and> evalue e = evalue f) \<and>
     (case (echild e, echild f) of
        (Some ch, Some ch') \<Rightarrow> prunes L B ch ch'
      | (Some ch, None) \<Rightarrow> False
      | (None, None) \<Rightarrow> \<not> isChild e \<and> \<not> isChild f
      | (None, Some ch') \<Rightarrow> (\<exists>cc. echildcid e = Some cc \<and> original L B ch' cc))"
  by (simp add: prunes_entry_def)

declare prunes_es.simps [simp del] prunes.simps [simp del]

lemma prunes_entryD:
  assumes "prunes_entry L B e f"
  shows "isValue e = isValue f" "isChild e = isChild f" "isValue e \<Longrightarrow> ekey e = ekey f" "isValue e \<Longrightarrow> evalue e = evalue f"
    "echild e = Some ch \<Longrightarrow> \<exists>ch'. echild f = Some ch' \<and> prunes L B ch ch'"
  using assms by (auto simp: prunes_entry_iff isChild_def split: option.splits)

lemma prunes_same:
  "prunes_entry L B e f \<Longrightarrow> isValue e = isValue f \<and> isChild e = isChild f \<and> (isValue f \<longrightarrow> ekey e = ekey f \<and> evalue e = evalue f)"
  using prunes_entryD by blast

lemma prunes_new [simp]:
  "prunes_entry L B (childEntry p) (childEntry f) \<longleftrightarrow> prunes L B p f" "prunes_entry L B (valueEntry k v) (valueEntry k v)"
  by (auto simp: prunes_entry_iff)

lemma prunes_setChild: "prunes_entry L B e f \<Longrightarrow> prunes L B p n \<Longrightarrow> prunes_entry L B (setChild p b e) (setChild n b' f)"
  by (auto simp: prunes_entry_iff)

lemma setValue_simps:
  "ekey (setValue v e) = ekey e" "evalue (setValue v e) = Some v" "echild (setValue v e) = echild e"
  "echildcid (setValue v e) = echildcid e" "isChild (setValue v e) = isChild e" "isValue e \<Longrightarrow> isValue (setValue v e)"
  by (cases e; simp add: isValue_def isChild_def)+

lemma prunes_setValue: "prunes_entry L B e f \<Longrightarrow> isValue e \<Longrightarrow> prunes_entry L B (setValue v e) (setValue v f)"
  unfolding prunes_entry_iff by (cases "echild e"; cases "echild f") (simp_all add: setValue_simps)

lemma prunes_Node [simp]:
  "prunes L B (Node es h d c s) (Node fs h' d' c' s') \<longleftrightarrow> \<not> s \<and> \<not> s' \<and> h = h' \<and> list_all2 (prunes_entry L B) es fs"
  by (auto simp: prunes_iff)

lemma prunes_set [simp]:
  "prunes L B (setDirty p) f = prunes L B p f" "prunes L B p (setDirty f) = prunes L B p f"
  "prunes L B (setEntries es p) (setEntries fs f) \<longleftrightarrow>
     \<not> nstub p \<and> \<not> nstub f \<and> nheight p = nheight f \<and> list_all2 (prunes_entry L B) es fs"
  by (simp_all add: prunes_iff)

lemma prunes_empty: "prunes L B p f \<Longrightarrow> node_IsEmpty p = node_IsEmpty f"
  by (auto simp: prunes_iff node_IsEmpty_def dest: list_all2_lengthD)

text \<open>Dirty flags do not count.\<close>

lemma undirty_Cons:
  assumes "undirty_es (e # es) = undirty_es fs"
  obtains f fs' where "fs = f # fs'" "undirty_es es = undirty_es fs'" "ekey e = ekey f" "evalue e = evalue f"
    "echildcid e = echildcid f" "map_option undirty (echild e) = map_option undirty (echild f)"
proof (cases fs)
  case Nil
  then show ?thesis using assms by simp
next
  case (Cons f fs')
  then have "(case echild e of None \<Rightarrow> None | Some c \<Rightarrow> Some (undirty c)) = (case echild f of None \<Rightarrow> None | Some c \<Rightarrow> Some (undirty c))"
    using assms by simp
  then show ?thesis using assms Cons that [of f fs'] by (auto split: option.splits)
qed

lemma prunes_undirty:
  "prunes L B p f \<Longrightarrow> undirty p = undirty p' \<Longrightarrow> undirty f = undirty f' \<Longrightarrow> prunes L B p' f'"
  "prunes_es L B es fs \<Longrightarrow> undirty_es es = undirty_es es' \<Longrightarrow> undirty_es fs = undirty_es fs' \<Longrightarrow> prunes_es L B es' fs'"
proof (induction p and es arbitrary: f p' f' and fs es' fs' rule: undirty_undirty_es.induct)
  case (1 es h d c s)
  have "undirty_es es = undirty_es (entries p')" using 1(3) by (cases p') simp
  moreover have "undirty_es (entries f) = undirty_es (entries f')" using 1(4) by (cases f; cases f') simp
  moreover have "prunes_es L B es (entries f)" using 1(2) by (simp add: prunes_iff prunes_es_iff)
  ultimately have "prunes_es L B (entries p') (entries f')" using 1(1) by blast
  then show ?case
    using 1(2) same_undirty(5,6) [OF 1(3)] same_undirty(5,6) [OF 1(4)] by (simp add: prunes_iff prunes_es_iff)
next
  case 2
  then have "es' = []" "fs' = []" by (metis undirty_length length_0_conv prunes_es.simps(1))+
  then show ?case by (simp add: prunes_es.simps)
next
  case (3 e es)
  obtain e' es1 where e: "es' = e' # es1" "undirty_es es = undirty_es es1" "ekey e = ekey e'" "evalue e = evalue e'"
    "echildcid e = echildcid e'" "map_option undirty (echild e) = map_option undirty (echild e')"
    by (rule undirty_Cons [OF 3(4)])
  obtain f fs1 where fs: "fs = f # fs1" "prunes_entry L B e f" "prunes_es L B es fs1"
    using 3(3) by (cases fs) (auto simp: prunes_es_iff)
  obtain f' fs2 where f: "fs' = f' # fs2" "undirty_es fs1 = undirty_es fs2" "ekey f = ekey f'" "evalue f = evalue f'"
    "echildcid f = echildcid f'" "map_option undirty (echild f) = map_option undirty (echild f')"
    by (rule undirty_Cons [OF 3(5) [unfolded fs(1)]])
  have v: "isValue e' = isValue e" "isValue f' = isValue f" "isChild e' = isChild e" "isChild f' = isChild f"
    using e f by (auto simp: isValue_def isChild_def)
  have "prunes_entry L B e' f'"
  proof (cases "echild e")
    case None
    then show ?thesis
    proof (cases "echild f")
      case None
      with \<open>echild e = None\<close> show ?thesis using fs(2) e f v by (auto simp: prunes_entry_iff)
    next
      case (Some ch)
      then obtain ch' where ch: "echild f' = Some ch'" "undirty ch = undirty ch'" using f(6) by (cases "echild f'") auto
      show ?thesis using fs(2) e f v None Some ch original_undirty [OF ch(2), of L B]
        by (auto simp: prunes_entry_iff)
    qed
  next
    case (Some ch)
    then obtain ch' where ch: "echild e' = Some ch'" "undirty ch = undirty ch'" using e(6) by (cases "echild e'") auto
    obtain fh where fh: "echild f = Some fh" "prunes L B ch fh" using prunes_entryD(5) [OF fs(2) Some] by blast
    then obtain fh' where fh': "echild f' = Some fh'" "undirty fh = undirty fh'" using f(6) by (cases "echild f'") auto
    have "prunes L B ch' fh'" by (rule 3(1) [OF Some fh(2) ch(2) fh'(2)])
    then show ?thesis using fs(2) e f v Some ch fh fh' by (auto simp: prunes_entry_iff)
  qed
  moreover have "prunes_es L B es1 fs2" by (rule 3(2) [OF fs(3) e(2) f(2)])
  ultimately show ?case by (simp add: e(1) f(1) prunes_es_iff)
qed

subsection \<open>Searching a pruned node\<close>

lemma prunes_next: "list_all2 (prunes_entry L B) es fs \<Longrightarrow> next_before key es = next_before key fs"
  by (cases es; cases fs) (auto simp: next_before_def dest: prunes_same)

lemma prunes_find_entry: "list_all2 (prunes_entry L B) es fs \<Longrightarrow> find_entry_loop key es i = find_entry_loop key fs i"
  by (induction arbitrary: i rule: list_all2_induct) (auto dest: prunes_same)

lemma prunes_find_child:
  "list_all2 (prunes_entry L B) es fs \<Longrightarrow> find_child_loop key es i idx = find_child_loop key fs i idx"
  by (induction arbitrary: i idx rule: list_all2_induct) (auto dest: prunes_same)

lemma prunes_ends:
  assumes "list_all2 (prunes_entry L B) es fs" "es \<noteq> []"
  shows "prunes_entry L B (hd es) (hd fs)" "prunes_entry L B (last es) (last fs)" "fs \<noteq> []"
proof -
  have l: "length es = length fs" "fs \<noteq> []" using assms by (auto dest: list_all2_lengthD)
  then show "fs \<noteq> []" by simp
  show "prunes_entry L B (hd es) (hd fs)" "prunes_entry L B (last es) (last fs)"
    using list_all2_nthD [OF assms(1)] assms(2) l by (simp_all add: hd_conv_nth last_conv_nth)
qed

lemma compare_sim:
  "fst (compareKey p key m) = Inr r \<Longrightarrow> prunes L B p f \<Longrightarrow> fst (compareKey f key m) = Inr r"
  "fst (compare_loop es first key m) = Inr r \<Longrightarrow> list_all2 (prunes_entry L B) es fs \<Longrightarrow> fst (compare_loop fs first key m) = Inr r"
proof (induction p key m and es first key m arbitrary: f r and fs r rule: compareKey_compare_loop.induct)
  case (1 es h d c s key m)
  obtain fs h' d' c' s' where f: "f = Node fs h' d' c' s'" by (cases f)
  have l: "list_all2 (prunes_entry L B) es fs" "\<not> s" "\<not> s'" using 1(3) by (auto simp: f)
  have ne: "es \<noteq> []" using 1(2) l(2) by auto
  note e = prunes_ends [OF l(1) ne]
  have g: "isValue (hd es) = isValue (hd fs)" "isValue (last es) = isValue (last fs)"
    "isValue (hd fs) \<Longrightarrow> ekey (hd es) = ekey (hd fs)" "isValue (last fs) \<Longrightarrow> ekey (last es) = ekey (last fs)"
    using prunes_same [OF e(1)] prunes_same [OF e(2)] by auto
  show ?case
  proof (cases "isValue (hd es) \<and> key < ekey (hd es) \<or> isValue (last es) \<and> key > ekey (last es)")
    case True
    then show ?thesis using 1(2) l ne e(3) g by (auto simp: f)
  next
    case False
    then have "fst (compare_loop es True key m) = Inr r" using 1(2) l(2) ne by (auto split: prod.splits)
    then have "fst (compare_loop fs True key m) = Inr r" using 1(1) l ne False by auto
    then show ?thesis using False l ne e(3) g by (auto simp: f split: prod.splits)
  qed
next
  case (3 e es first key m)
  obtain f fs1 where fs: "fs = f # fs1" "prunes_entry L B e f" "list_all2 (prunes_entry L B) es fs1"
    using 3(4) by (cases fs) auto
  note s = prunes_same [OF fs(2)] prunes_next [OF fs(3), of key]
  have nil: "es = [] \<longleftrightarrow> fs1 = []" using fs(3) by auto
  show ?case
  proof (cases "isValue e \<and> key < ekey e")
    case True
    then show ?thesis using 3(3) s by (auto simp: fs(1))
  next
    case False
    note outer = False
    show ?thesis
    proof (cases "isChild e \<and> \<not> next_before key es")
      case True
      then obtain ch where ch: "echild e = Some ch" using 3(3) False by (cases "echild e") auto
      then obtain ch' where ch': "echild f = Some ch'" "prunes L B ch ch'" using prunes_entryD(5) [OF fs(2)] by blast
      obtain order where o: "fst (compareKey ch key m) = Inr order"
        using 3(3) False True ch by (cases "compareKey ch key m"; cases "fst (compareKey ch key m)") auto
      have "fst (compareKey ch' key m) = Inr order" by (rule 3(1) [OF outer True ch o ch'(2)])
      then show ?thesis using 3(3) o outer True ch ch' s nil by (auto simp: fs(1) split: prod.splits if_splits)
    next
      case False
      then have "fst (compare_loop es False key m) = Inr r" using 3(3) outer by (auto split: prod.splits)
      then have "fst (compare_loop fs1 False key m) = Inr r" by (rule 3(2) [OF outer False _ fs(3)])
      then show ?thesis using outer False s by (auto simp: fs(1) split: prod.splits)
    qed
  qed
qed auto

lemma insertion_sim:
  assumes "list_all2 (prunes_entry L B) es fs" "insertion_loop key es i = Inr r"
  shows "insertion_loop key fs i = Inr r"
  using assms
proof (induction arbitrary: i rule: list_all2_induct)
  case (Cons e es f fs)
  note s = prunes_same [OF Cons(1)] prunes_next [OF Cons(2), of key]
  show ?case
  proof (cases "isChild e \<and> \<not> next_before key es \<and> \<not> (isValue e \<and> key < ekey e)")
    case True
    then obtain ch where ch: "echild e = Some ch" using Cons(4) by (cases "echild e") auto
    then obtain ch' where ch': "echild f = Some ch'" "prunes L B ch ch'" using prunes_entryD(5) [OF Cons(1)] by blast
    obtain order where o: "fst (compareKey ch key False) = Inr order" using Cons(4) True ch by (auto simp: rbind_Inr_iff split: if_splits)
    have "fst (compareKey ch' key False) = Inr order" by (rule compare_sim(1) [OF o ch'(2)])
    then show ?thesis using Cons(3,4) True ch ch' o s by (auto split: if_splits)
  next
    case False
    then show ?thesis using Cons(3,4) s by (auto split: if_splits)
  qed
qed simp

lemma findInsertionIndex_sim: "prunes L B p f \<Longrightarrow> findInsertionIndex p key = Inr r \<Longrightarrow> findInsertionIndex f key = Inr r"
  by (auto simp: findInsertionIndex_def prunes_iff dest: insertion_sim split: if_splits)

lemma findExisting_sim:
  assumes "prunes L B p f"
  shows "findExistingEntry p key = findExistingEntry f key" "findExistingChild p key = findExistingChild f key"
  using assms prunes_find_entry prunes_find_child by (auto simp: prunes_iff findExistingEntry_def findExistingChild_def)

lemma prunes_nth: "prunes L B p f \<Longrightarrow> i < length (entries p) \<Longrightarrow> prunes_entry L B (entries p ! i) (entries f ! i)"
  by (auto simp: prunes_iff list_all2_conv_all_nth)

lemma prove_sim:
  assumes "prunes L B p f"
  shows "prunes L B (snd (proveMutation p key)) (snd (proveMutation f key))"
  using prunes_undirty(1) [OF assms] proveMutation_undirty(1) by metis

subsection \<open>Insertion simulates insertion into the complete tree\<close>

lemma prunes_take_drop:
  assumes "list_all2 (prunes_entry L B) es fs"
  shows "list_all2 (prunes_entry L B) (take i es) (take i fs)" "list_all2 (prunes_entry L B) (drop i es) (drop i fs)"
  using assms by (simp_all add: list_all2_takeI list_all2_dropI)

lemma split_index: "findInsertionIndex n key = Inr (i, True) \<Longrightarrow> i < length (entries n)"
  using insertion_loop_range [of key "entries n" 0 i True] by (auto simp: findInsertionIndex_def split: if_splits)

lemma node_split_sim:
  "node_split p key = Inr (l, r) \<Longrightarrow> prunes L B p f \<Longrightarrow>
     \<exists>l' r'. node_split f key = Inr (l', r') \<and> prunes L B l l' \<and> prunes L B r r'"
proof (induction p key arbitrary: l r f rule: node_split.induct)
  case (1 p key)
  have ne: "\<not> node_IsEmpty p" "\<not> node_IsEmpty f" using 1(2) prunes_empty [OF 1(3)] by (auto simp: node_split.simps [of p])
  have es: "list_all2 (prunes_entry L B) (entries p) (entries f)" "nheight p = nheight f" using 1(3) by (simp_all add: prunes_iff)
  have len: "length (entries p) = length (entries f)" using es(1) by (rule list_all2_lengthD)
  obtain idx sp where i: "findInsertionIndex p key = Inr (idx, sp)"
    using 1(2) ne by (cases "findInsertionIndex p key") (auto simp: node_split.simps [of p])
  have i': "findInsertionIndex f key = Inr (idx, sp)" by (rule findInsertionIndex_sim [OF 1(3) i])
  note td = prunes_take_drop [OF es(1)]
  show ?case
  proof (cases sp)
    case False
    then have "splitEntries p idx = Inr (l, r)" using 1(2) i ne by (simp add: node_split.simps [of p])
    then show ?thesis
      using i' ne False es(2) td len by (auto simp: node_split.simps [of f] splitEntries_def Let_def node_IsEmpty_def split: if_splits)
  next
    case True
    then obtain c ll lr where c: "echild (entries p ! idx) = Some c" "node_split c key = Inr (ll, lr)"
      "l = Node (take idx (entries p) @ [childEntry ll]) (nheight p) True None False"
      "r = Node (childEntry lr # drop (idx + 1) (entries p)) (nheight p) True None False"
      using 1(2) i ne by (auto simp: node_split.simps [of p] rbind_Inr_iff split: option.splits)
    have lt: "idx < length (entries p)" using i True split_index [of p key idx] by simp
    obtain c' where c': "echild (entries f ! idx) = Some c'" "prunes L B c c'"
      using prunes_entryD(5) [OF prunes_nth [OF 1(3) lt] c(1)] by blast
    obtain l' r' where "node_split c' key = Inr (l', r')" "prunes L B ll l'" "prunes L B lr r'"
      using 1(1) [OF ne(1) i refl _ c(1) c(2) c'(2)] True by blast
    then show ?thesis using i' ne True c c' es(2) td by (auto simp: node_split.simps [of f] intro!: list_all2_appendI)
  qed
qed

lemma entry_index:
  "findExistingEntry n key = Some i \<Longrightarrow> i < length (entries n) \<and> isValue (entries n ! i) \<and> ekey (entries n ! i) = key"
  using find_entry_loop_spec [where key = key and es = "entries n" and i = 0] by (auto simp: findExistingEntry_def)

lemma insert_here_sim:
  assumes "insert_here p key val = Inr (p', v)" "prunes L B p f" "insert_here f key val = Inr (f', v')"
  shows "v' = v \<and> prunes L B p' f'"
proof (cases "findExistingEntry p key")
  case (Some idx)
  then have s: "findExistingEntry f key = Some idx" using findExisting_sim(1) [OF assms(2)] by simp
  have i: "idx < length (entries p)" "isValue (entries p ! idx)" using entry_index [OF Some] by auto
  have e: "prunes_entry L B (entries p ! idx) (entries f ! idx)" by (rule prunes_nth [OF assms(2) i(1)])
  have "evalue (entries p ! idx) = evalue (entries f ! idx)" using prunes_entryD(4) [OF e i(2)] .
  moreover have "list_all2 (prunes_entry L B) ((entries p)[idx := setValue val (entries p ! idx)]) ((entries f)[idx := setValue val (entries f ! idx)])"
    using assms(2) prunes_setValue [OF e i(2)] by (auto simp: prunes_iff intro: list_all2_update_cong)
  ultimately show ?thesis using assms Some s by (auto simp: insert_here_def Let_def prunes_iff split: if_splits)
next
  case None
  then have n: "findExistingEntry f key = None" using findExisting_sim(1) [OF assms(2)] by simp
  obtain idx sp where i: "findInsertionIndex p key = Inr (idx, sp)"
    using assms(1) None by (cases "findInsertionIndex p key") (auto simp: insert_here_def)
  have i': "findInsertionIndex f key = Inr (idx, sp)" by (rule findInsertionIndex_sim [OF assms(2) i])
  obtain e1 p1 where p1: "proveMutation (setDirty p) key = (e1, p1)" by fastforce
  obtain e2 f1 where f1: "proveMutation (setDirty f) key = (e2, f1)" by fastforce
  have pr: "prunes L B p1 f1" using prove_sim [of L B "setDirty p" "setDirty f" key] assms(2) p1 f1 by simp
  have es: "list_all2 (prunes_entry L B) (entries p1) (entries f1)" using pr by (simp add: prunes_iff)
  have len: "length (entries p1) = length (entries p)"
    using same_undirty(3) [of p1 "setDirty p"] proveMutation_undirty(1) [of "setDirty p" key] p1 by simp
  note td = prunes_take_drop [OF es]
  show ?thesis
  proof (cases sp)
    case False
    then have "p' = setEntries (take idx (entries p1) @ [valueEntry key val] @ drop idx (entries p1)) p1" "v = None"
      "f' = setEntries (take idx (entries f1) @ [valueEntry key val] @ drop idx (entries f1)) f1" "v' = None"
      using assms(1,3) None n i i' p1 f1 by (auto simp: insert_here_def split: if_splits)
    then show ?thesis using pr td by (auto simp: prunes_iff intro!: list_all2_appendI)
  next
    case True
    then obtain c l r where c: "echild (entries p1 ! idx) = Some c" "node_split c key = Inr (l, r)" "v = None"
      "p' = setEntries (take idx (entries p1) @ [childEntry l, valueEntry key val, childEntry r] @ drop (idx + 1) (entries p1)) p1"
      using assms(1) None i p1 by (auto simp: insert_here_def rbind_Inr_iff split: if_splits option.splits)
    have "idx < length (entries p1)" using i True split_index [of p key idx] len by simp
    then obtain c' where c': "echild (entries f1 ! idx) = Some c'" "prunes L B c c'"
      using prunes_entryD(5) [OF prunes_nth [OF pr] c(1)] by blast
    obtain l' r' where lr: "node_split c' key = Inr (l', r')" "prunes L B l l'" "prunes L B r r'"
      using node_split_sim [OF c(2) c'(2)] by blast
    then have "f' = setEntries (take idx (entries f1) @ [childEntry l', valueEntry key val, childEntry r'] @ drop (idx + 1) (entries f1)) f1"
      "v' = None" using assms(3) n i' f1 c' True by (auto simp: insert_here_def split: if_splits)
    then show ?thesis using c(3,4) lr pr td by (auto simp: prunes_iff intro!: list_all2_appendI)
  qed
qed

lemma insertParent_sim: "prunes L B p f \<Longrightarrow> prunes L B (insertParent p h) (insertParent f h)"
  using prunes_empty [of L B p f] by (auto simp: insertParent_def prunes_iff)

lemma insert_sim:
  "insert_node p key val height = Inr (p', v) \<Longrightarrow> prunes L B p f \<Longrightarrow> insert_node f key val height = Inr (f', v') \<Longrightarrow>
     v' = v \<and> prunes L B p' f'"
  "insertChild p key val height = Inr (p', v) \<Longrightarrow> prunes L B p f \<Longrightarrow> insertChild f key val height = Inr (f', v') \<Longrightarrow>
     v' = v \<and> prunes L B p' f'"
proof (induction p key val height and p key val height arbitrary: p' v f f' v' and p' v f f' v' rule: insert_node_insertChild.induct)
  case (1 p key val height)
  have s: "\<not> nstub p" "\<not> nstub f" "nheight p = nheight f" using "1.prems"(2) by (simp_all add: prunes_iff)
  consider "key_height key height > nheight p" | "key_height key height < nheight p" | "key_height key height = nheight p" by linarith
  then show ?case
  proof cases
    case 1
    then show ?thesis
      using "1.IH"(1) [OF s(1) 1 _ insertParent_sim [OF "1.prems"(2)]] "1.prems"(1,3) s by (simp add: insert_node.simps [of p] insert_node.simps [of f])
  next
    case 2
    then show ?thesis
      using "1.IH"(2) [OF s(1) _ 2 _ "1.prems"(2)] "1.prems"(1,3) s by (simp add: insert_node.simps [of p] insert_node.simps [of f])
  next
    case 3
    then show ?thesis
      using insert_here_sim "1.prems" s by (simp add: insert_node.simps [of p] insert_node.simps [of f])
  qed
next
  case (2 p key val height)
  have es: "list_all2 (prunes_entry L B) (entries p) (entries f)" "nheight p = nheight f" "\<not> nstub p" "\<not> nstub f"
    using 2(4) by (simp_all add: prunes_iff)
  show ?case
  proof (cases "findExistingChild p key")
    case (Some idx)
    then have s: "findExistingChild f key = Some idx" using findExisting_sim(2) [OF 2(4)] by simp
    obtain c newChild w where c: "echild (entries p ! idx) = Some c" "insert_node c key val height = Inr (newChild, w)"
      "(p', v) = (if w = Some val then (p, Some val)
         else (setDirty (setEntries ((entries p)[idx := setChild newChild True (entries p ! idx)]) p), w))"
      using 2(3) Some by (auto simp: insertChild.simps [of p] rbind_Inr_iff split: option.splits if_splits)
    have e: "prunes_entry L B (entries p ! idx) (entries f ! idx)" by (rule prunes_nth [OF 2(4) findExistingChild_range [OF Some]])
    obtain c' where c': "echild (entries f ! idx) = Some c'" "prunes L B c c'" using prunes_entryD(5) [OF e c(1)] by blast
    obtain nc w' where f': "insert_node c' key val height = Inr (nc, w')"
      "(f', v') = (if w' = Some val then (f, Some val)
         else (setDirty (setEntries ((entries f)[idx := setChild nc True (entries f ! idx)]) f), w'))"
      using 2(5) s c'(1) by (auto simp: insertChild.simps [of f] rbind_Inr_iff split: if_splits)
    have ih: "w' = w" "prunes L B newChild nc" using 2(2) [OF Some c(1) c(2) c'(2) f'(1)] by auto
    have "list_all2 (prunes_entry L B) ((entries p)[idx := setChild newChild True (entries p ! idx)])
        ((entries f)[idx := setChild nc True (entries f ! idx)])"
      by (rule list_all2_update_cong [OF es(1) prunes_setChild [OF e ih(2)]])
    then show ?thesis using c(3) f'(2) ih(1) 2(4) es by (auto simp: prunes_iff split: if_splits)
  next
    case None
    then have s: "findExistingChild f key = None" using findExisting_sim(2) [OF 2(4)] by simp
    let ?n = "Node [] (nheight p - 1) True None False"
    obtain idx newChild w where c: "findInsertionIndex p key = Inr (idx, False)" "insert_node ?n key val height = Inr (newChild, w)"
      "v = None" "p' = setDirty (setEntries (take idx (entries p) @ [childEntry newChild] @ drop idx (entries p)) p)"
      using 2(3) None by (auto simp: insertChild.simps [of p] rbind_Inr_iff split: sum.splits if_splits)
    have i': "findInsertionIndex f key = Inr (idx, False)" by (rule findInsertionIndex_sim [OF 2(4) c(1)])
    obtain nc w' where f': "insert_node ?n key val height = Inr (nc, w')" "v' = None"
      "f' = setDirty (setEntries (take idx (entries f) @ [childEntry nc] @ drop idx (entries f)) f)"
      using 2(5) s i' es(2) by (auto simp: insertChild.simps [of f] rbind_Inr_iff)
    have "prunes L B ?n ?n" by simp
    then have "prunes L B newChild nc" using 2(1) [OF None c(1) refl _ c(2) _ f'(1)] by simp
    then show ?thesis using c(3,4) f'(2,3) es prunes_take_drop [OF es(1)] by (auto intro!: list_all2_appendI)
  qed
qed

subsection \<open>Removal simulates removal from the complete tree\<close>

lemma mergeNodes_sim:
  "mergeNodes l r = Inr p \<Longrightarrow> prunes L B l l' \<Longrightarrow> prunes L B r r' \<Longrightarrow> \<exists>f. mergeNodes l' r' = Inr f \<and> prunes L B p f"
proof (induction l r arbitrary: p l' r' rule: mergeNodes.induct)
  case (1 l r)
  let ?es = "entries l @ entries r" and ?fs = "entries l' @ entries r'" and ?i = "length (entries l)"
  have es: "list_all2 (prunes_entry L B) ?es ?fs" "nheight l = nheight l'" "length (entries l') = ?i"
    using 1(3,4) by (auto simp: prunes_iff intro!: list_all2_appendI dest: list_all2_lengthD)
  have len: "length ?fs = length ?es" using list_all2_lengthD [OF es(1)] by simp
  note td = prunes_take_drop [OF es(1)]
  have i: "?i \<noteq> 0" using 1(2) by (auto simp: mergeNodes.simps [of l])
  have last: "prunes_entry L B (?es ! (?i - 1)) (?fs ! (?i - 1))" using i by (intro list_all2_nthD [OF es(1)]) (simp add: less_Suc_eq_le trans_less_add1)
  show ?case
  proof (cases "\<not> isChild (?es ! (?i - 1)) \<or> ?i < length ?es \<and> \<not> isChild (?es ! ?i)")
    case True
    then have "p = Node ?es (nheight l) True None False" using 1(2) i by (auto simp: mergeNodes.simps [of l] Let_def split: if_splits)
    moreover have "isChild (?fs ! (?i - 1)) = isChild (?es ! (?i - 1))" using prunes_entryD(2) [OF last] by simp
    moreover have "isChild (?fs ! ?i) = isChild (?es ! ?i)" if "?i < length ?es"
      using prunes_entryD(2) [OF list_all2_nthD [OF es(1) that]] by simp
    ultimately show ?thesis using True i es len by (auto simp: mergeNodes.simps [of l'] Let_def)
  next
    case False
    then have c: "isChild (?es ! (?i - 1))" "?i < length ?es" "isChild (?es ! ?i)"
      using 1(2) i by (auto simp: mergeNodes.simps [of l] Let_def split: if_splits)
    obtain ll rl m where m: "echild (?es ! (?i - 1)) = Some ll" "echild (?es ! ?i) = Some rl" "mergeNodes ll rl = Inr m"
      "p = Node (take (?i - 1) ?es @ [childEntry m] @ drop (?i + 1) ?es) (nheight l) True None False"
      using 1(2) i c by (auto simp: mergeNodes.simps [of l] Let_def rbind_Inr_iff split: if_splits option.splits)
    have mid: "prunes_entry L B (?es ! ?i) (?fs ! ?i)" using list_all2_nthD [OF es(1) c(2)] .
    obtain ll' rl' where ch: "echild (?fs ! (?i - 1)) = Some ll'" "prunes L B ll ll'" "echild (?fs ! ?i) = Some rl'" "prunes L B rl rl'"
      using prunes_entryD(5) [OF last m(1)] prunes_entryD(5) [OF mid m(2)] by blast
    obtain m' where m': "mergeNodes ll' rl' = Inr m'" "prunes L B m m'"
      using 1(1) [OF refl refl i _ _ _ _ m(1) m(2) m(3) ch(2,4)] c by auto
    have cf: "isChild (?fs ! (?i - 1))" "isChild (?fs ! ?i)" using prunes_entryD(2) [OF last] prunes_entryD(2) [OF mid] c by simp_all
    have "mergeNodes l' r' = Inr (Node (take (?i - 1) ?fs @ [childEntry m'] @ drop (?i + 1) ?fs) (nheight l') True None False)"
      using i c(2) cf es(3) len ch m'(1) by (simp add: mergeNodes.simps [of l'] Let_def)
    moreover have "list_all2 (prunes_entry L B) (take (?i - 1) ?es @ [childEntry m] @ drop (?i + 1) ?es)
        (take (?i - 1) ?fs @ [childEntry m'] @ drop (?i + 1) ?fs)"
      by (intro list_all2_appendI td) (use m'(2) in simp)
    ultimately show ?thesis using m(4) es(2) by simp
  qed
qed

lemma remove_entry_sim:
  assumes "remove_entry es idx = Inr es'" "list_all2 (prunes_entry L B) es fs" "idx < length es"
  shows "\<exists>fs'. remove_entry fs idx = Inr fs' \<and> list_all2 (prunes_entry L B) es' fs'"
proof -
  have len: "length es = length fs" using assms(2) by (rule list_all2_lengthD)
  note td = prunes_take_drop [OF assms(2)]
  have nth: "prunes_entry L B (es ! j) (fs ! j)" if "j < length es" for j using list_all2_nthD [OF assms(2) that] .
  have ch: "isChild (es ! j) = isChild (fs ! j)" if "j < length es" for j using prunes_entryD(2) [OF nth [OF that]] .
  show ?thesis
  proof (cases "idx > 0 \<and> idx + 1 < length es \<and> isChild (es ! (idx - 1)) \<and> isChild (es ! (idx + 1))")
    case True
    then obtain l r m where m: "echild (es ! (idx - 1)) = Some l" "echild (es ! (idx + 1)) = Some r" "mergeNodes l r = Inr m"
      "es' = (take idx es @ drop (idx + 2) es)[idx - 1 := childEntry m]"
      using assms(1) by (auto simp: remove_entry_def rbind_Inr_iff split: option.splits)
    have n: "prunes_entry L B (es ! (idx - 1)) (fs ! (idx - 1))" "prunes_entry L B (es ! (idx + 1)) (fs ! (idx + 1))"
      using True by (auto intro: nth)
    obtain l' r' where lr: "echild (fs ! (idx - 1)) = Some l'" "prunes L B l l'" "echild (fs ! (idx + 1)) = Some r'" "prunes L B r r'"
      using prunes_entryD(5) [OF n(1) m(1)] prunes_entryD(5) [OF n(2) m(2)] by blast
    obtain m' where m': "mergeNodes l' r' = Inr m'" "prunes L B m m'" using mergeNodes_sim [OF m(3) lr(2,4)] by blast
    have "isChild (fs ! (idx - 1)) \<and> isChild (fs ! (idx + 1))" using prunes_entryD(2) [OF n(1)] prunes_entryD(2) [OF n(2)] True by simp
    then have "remove_entry fs idx = Inr ((take idx fs @ drop (idx + 2) fs)[idx - 1 := childEntry m'])"
      using True lr m' len by (simp add: remove_entry_def)
    then show ?thesis using m(4) m'(2) td by (auto intro!: list_all2_update_cong list_all2_appendI)
  next
    case False
    then have "es' = take idx es @ drop (idx + 1) es" using assms(1) by (auto simp: remove_entry_def split: if_splits)
    moreover have "\<not> (idx > 0 \<and> idx + 1 < length fs \<and> isChild (fs ! (idx - 1)) \<and> isChild (fs ! (idx + 1)))"
      using False ch [of "idx - 1"] ch [of "idx + 1"] len assms(3) by auto
    ultimately show ?thesis using td by (auto simp: remove_entry_def intro!: list_all2_appendI)
  qed
qed

text \<open>The relation at the root. The loop that trims the top of a partial tree can end at a link; and an empty tree is
  loaded with an unknown height.\<close>

definition prunes_top :: "cborlib \<Rightarrow> bytes set \<Rightarrow> node \<Rightarrow> node \<Rightarrow> bool" where
  "prunes_top L B p f \<longleftrightarrow> prunes L B p f \<or>
     nstub p \<and> \<not> ndirty p \<and> (\<exists>c n. ncid p = Some c \<and> original L B n c \<and> trim_top n = Inr f) \<or>
     \<not> nstub p \<and> entries p = [] \<and> nheight p = -1 \<and> \<not> nstub f \<and> entries f = [] \<and> nheight f = 0"

lemma trim_top_sim: "trim_top p = Inr p' \<Longrightarrow> prunes L B p f \<Longrightarrow> trim_top f = Inr f' \<Longrightarrow> prunes_top L B p' f'"
proof (induction p arbitrary: f rule: trim_top.induct)
  case (1 es h d c s)
  obtain fs h' d' c' s' where f: "f = Node fs h' d' c' s'" by (cases f)
  have l: "list_all2 (prunes_entry L B) es fs" using 1(3) by (simp add: f)
  show ?case
  proof (cases "\<exists>e. es = [e] \<and> isChild e")
    case True
    then obtain e where e: "es = [e]" "isChild e" by blast
    then obtain g where g: "fs = [g]" "prunes_entry L B e g" using l by (auto simp: list_all2_Cons1)
    have cg: "isChild g" using prunes_entryD(2) [OF g(2)] e by simp
    show ?thesis
    proof (cases "echild e")
      case None
      then obtain ch cc where ch: "echild g = Some ch" "echildcid e = Some cc" "original L B ch cc"
        using g(2) e(2) by (auto simp: prunes_entry_iff split: option.splits)
      have "p' = Node [] (h - 1) False (Some cc) True" using 1(2) e None ch by simp
      moreover have "trim_top ch = Inr f'" using 1(4) g cg ch by (simp add: f)
      ultimately show ?thesis using ch(3) by (auto simp: prunes_top_def)
    next
      case (Some ch)
      then obtain ch' where ch': "echild g = Some ch'" "prunes L B ch ch'" using prunes_entryD(5) [OF g(2)] by blast
      have "trim_top ch = Inr p'" "trim_top ch' = Inr f'" using 1(2,4) e g cg Some ch' by (simp_all add: f)
      then show ?thesis using 1(1) [OF e(1) _ _ Some _ ch'(2)] e by auto
    qed
  next
    case False
    then have "p' = Node es h d c s" using 1(2) by (auto split: list.splits)
    moreover have "\<not> (\<exists>e. fs = [e] \<and> isChild e)" using False l prunes_entryD(2) by (fastforce simp: list_all2_Cons2)
    then have "f' = f" using 1(4) by (auto simp: f split: list.splits)
    ultimately show ?thesis using 1(3) by (simp add: prunes_top_def)
  qed
qed

lemma remove_here_sim:
  assumes "remove_here p key atTop = Inr (p', v)" "prunes L B p f" "remove_here f key atTop = Inr (f', v')"
  shows "v' = v \<and> (if atTop then prunes_top L B p' f' else prunes L B p' f')"
proof (cases "findExistingEntry p key")
  case None
  then show ?thesis using assms findExisting_sim(1) [OF assms(2), of key] by (simp add: remove_here_def prunes_top_def)
next
  case (Some idx)
  then have s: "findExistingEntry f key = Some idx" using findExisting_sim(1) [OF assms(2)] by simp
  have i: "idx < length (entries p)" "isValue (entries p ! idx)" using entry_index [OF Some] by auto
  have val: "evalue (entries p ! idx) = evalue (entries f ! idx)" by (rule prunes_entryD(4) [OF prunes_nth [OF assms(2) i(1)] i(2)])
  obtain es' where es': "remove_entry (entries p) idx = Inr es'" using assms(1) Some by (auto simp: remove_here_def rbind_Inr_iff)
  obtain fs' where fs': "remove_entry (entries f) idx = Inr fs'" "list_all2 (prunes_entry L B) es' fs'"
    using remove_entry_sim [OF es' _ i(1), of L B "entries f"] assms(2) by (auto simp: prunes_iff)
  obtain e1 p1 where p1: "proveMutation (setDirty (setEntries es' p)) key = (e1, p1)" by fastforce
  obtain e2 f1 where f1: "proveMutation (setDirty (setEntries fs' f)) key = (e2, f1)" by fastforce
  have "prunes L B (setDirty (setEntries es' p)) (setDirty (setEntries fs' f))" using fs'(2) assms(2) by (simp add: prunes_iff)
  from prove_sim [OF this, of key] have pr: "prunes L B p1 f1" using p1 f1 by simp
  have "rbind (if atTop then trim_top p1 else Inr p1) (\<lambda>m. Inr (m, evalue (entries p ! idx))) = Inr (p', v)"
    "rbind (if atTop then trim_top f1 else Inr f1) (\<lambda>m. Inr (m, evalue (entries f ! idx))) = Inr (f', v')"
    using assms(1,3) Some s es' fs'(1) p1 f1 by (auto simp: remove_here_def split: if_splits)
  then show ?thesis using pr val trim_top_sim [of p1 p' L B f1 f'] by (auto simp: rbind_Inr_iff split: if_splits)
qed

lemma remove_sim:
  "remove_node p key height = Inr (p', v) \<Longrightarrow> prunes L B p f \<Longrightarrow> remove_node f key height = Inr (f', v') \<Longrightarrow>
     v' = v \<and> (if height < 0 then prunes_top L B p' f' else prunes L B p' f')"
  "removeChild p key height = Inr (p', v) \<Longrightarrow> prunes L B p f \<Longrightarrow> removeChild f key height = Inr (f', v') \<Longrightarrow> 0 \<le> height \<Longrightarrow>
     v' = v \<and> prunes L B p' f'"
proof (induction p key height and p key height arbitrary: p' v f f' v' and p' v f f' v' rule: remove_node_removeChild.induct)
  case (1 p key height)
  have s: "\<not> nstub p" "\<not> nstub f" "nheight p = nheight f" using "1.prems"(2) by (simp_all add: prunes_iff)
  have k: "0 \<le> key_height key height" using HeightForKey_nonneg [of key] by (simp add: key_height_def)
  consider "key_height key height > nheight p" | "key_height key height < nheight p" | "key_height key height = nheight p" by linarith
  then show ?case
  proof cases
    case 1
    then show ?thesis using "1.prems" s by (auto simp: remove_node.simps [of p] remove_node.simps [of f] prunes_top_def)
  next
    case 2
    then have "v' = v \<and> prunes L B p' f'"
      using "1.IH" [OF s(1) _ 2 _ "1.prems"(2) _ k] "1.prems"(1,3) s by (simp add: remove_node.simps [of p] remove_node.simps [of f])
    then show ?thesis by (simp add: prunes_top_def)
  next
    case 3
    then show ?thesis
      using remove_here_sim [of p key "height < 0" p' v L B f f' v'] "1.prems" s
      by (simp add: remove_node.simps [of p] remove_node.simps [of f])
  qed
next
  case (2 p key height)
  have es: "list_all2 (prunes_entry L B) (entries p) (entries f)" "nheight p = nheight f" "\<not> nstub p" "\<not> nstub f"
    using "2.prems"(2) by (simp_all add: prunes_iff)
  note td = prunes_take_drop [OF es(1)]
  show ?case
  proof (cases "findExistingChild p key")
    case None
    then show ?thesis
      using "2.prems" findExisting_sim(2) [OF "2.prems"(2), of key] by (simp add: removeChild.simps [of p] removeChild.simps [of f])
  next
    case (Some idx)
    then have s: "findExistingChild f key = Some idx" using findExisting_sim(2) [OF "2.prems"(2)] by simp
    have e: "prunes_entry L B (entries p ! idx) (entries f ! idx)" by (rule prunes_nth [OF "2.prems"(2) findExistingChild_range [OF Some]])
    obtain c n w where c: "echild (entries p ! idx) = Some c" "remove_node c key height = Inr (n, w)"
      using "2.prems"(1) Some by (auto simp: removeChild.simps [of p] rbind_Inr_iff split: option.splits)
    obtain c' where c': "echild (entries f ! idx) = Some c'" "prunes L B c c'" using prunes_entryD(5) [OF e c(1)] by blast
    obtain n' w' where n': "remove_node c' key height = Inr (n', w')"
      using "2.prems"(3) s c'(1) by (auto simp: removeChild.simps [of f] rbind_Inr_iff)
    have ih: "w' = w" "prunes L B n n'" using "2.IH" [OF Some c(1) c(2) c'(2) n'] "2.prems"(4) by auto
    have "list_all2 (prunes_entry L B) ((entries p)[idx := setChild n True (entries p ! idx)]) ((entries f)[idx := setChild n' True (entries f ! idx)])"
      by (rule list_all2_update_cong [OF es(1) prunes_setChild [OF e ih(2)]])
    moreover have "list_all2 (prunes_entry L B) (take idx (entries p) @ drop (Suc idx) (entries p)) (take idx (entries f) @ drop (Suc idx) (entries f))"
      by (intro list_all2_appendI td)
    ultimately show ?thesis
      using "2.prems"(1,2,3) Some s c c' n' ih prunes_empty [OF ih(2)] es
      by (auto simp: removeChild.simps [of p] removeChild.simps [of f] split: if_splits)
  qed
qed

subsection \<open>Trees\<close>

lemma insert_empty: "insert_node (Node [] (-1) d c False) key val (-1) = insert_here (Node [] (HeightForKey key) True None False) key val"
  using HeightForKey_nonneg [of key]
  by (simp add: insert_node.simps [of "Node [] (-1) d c False"] insert_node.simps [of "Node [] (HeightForKey key) True None False"]
      key_height_def insertParent_def node_IsEmpty_def)

lemma insert_empty_sim:
  assumes "insert_node (Node [] (-1) d c False) key val (-1) = Inr (p', v)" "insert_node (Node [] 0 d' c' False) key val (-1) = Inr (f', v')"
  shows "v' = v \<and> prunes L B p' f'"
proof -
  let ?n = "Node [] (HeightForKey key) True None False"
  have p: "insert_here ?n key val = Inr (p', v)" using assms(1) by (simp add: insert_empty)
  show ?thesis
  proof (cases "HeightForKey key = 0")
    case True
    then have "insert_here (Node [] 0 d' c' False) key val = Inr (f', v')"
      using assms(2) by (simp add: insert_node.simps [of "Node [] 0 d' c' False"] key_height_def)
    then show ?thesis using insert_here_sim [OF p, of L B "Node [] 0 d' c' False"] True by simp
  next
    case False
    then have "insert_here ?n key val = Inr (f', v')"
      using assms(2) HeightForKey_nonneg [of key]
      by (simp add: insert_node.simps [of "Node [] 0 d' c' False"] insert_node.simps [of ?n] key_height_def insertParent_def node_IsEmpty_def)
    then show ?thesis using insert_here_sim [OF p, of L B ?n] by simp
  qed
qed

lemma empty_cases:
  assumes "prunes_top L B p f" "\<not> nstub p"
  obtains "prunes L B p f" | d c d' c' where "p = Node [] (-1) d c False" "f = Node [] 0 d' c' False"
  using assms by (cases p; cases f) (auto simp: prunes_top_def)

lemma Insert_sim:
  assumes "Insert p key val = Inr (p', v)" "prunes_top L B (Root p) (Root f)" "tree_ok f"
  shows "\<exists>f'. Insert f key val = Inr (f', v) \<and> prunes_top L B (Root p') (Root f')"
proof -
  have k: "IsValidKey key" and p: "insert_node (Root p) key val (-1) = Inr (Root p', v)"
    using assms(1) by (auto simp: Insert_def rbind_Inr_iff split: if_splits)
  obtain f' where f': "Insert f key val = Inr (f', contents f key)" by (rule Insert_ok [OF assms(3) k])
  then have f: "insert_node (Root f) key val (-1) = Inr (Root f', contents f key)"
    by (auto simp: Insert_def rbind_Inr_iff split: if_splits)
  have "\<not> nstub (Root p)" using p by (auto simp: insert_node.simps [of "Root p"])
  with assms(2) have "contents f key = v \<and> prunes L B (Root p') (Root f')"
  proof (cases rule: empty_cases)
    case 1
    then show ?thesis using insert_sim(1) [OF p _ f] by blast
  next
    case 2
    then show ?thesis using insert_empty_sim p f by metis
  qed
  then show ?thesis using f' by (simp add: prunes_top_def)
qed

lemma Remove_sim:
  assumes "Remove p key = Inr (p', v)" "prunes_top L B (Root p) (Root f)" "tree_ok f"
  shows "\<exists>f'. Remove f key = Inr (f', v) \<and> prunes_top L B (Root p') (Root f')"
proof -
  have k: "IsValidKey key" and p: "remove_node (Root p) key (-1) = Inr (Root p', v)"
    using assms(1) by (auto simp: Remove_def rbind_Inr_iff split: if_splits)
  obtain f' where f': "Remove f key = Inr (f', contents f key)" by (rule Remove_ok [OF assms(3) k])
  then have f: "remove_node (Root f) key (-1) = Inr (Root f', contents f key)"
    by (auto simp: Remove_def rbind_Inr_iff split: if_splits)
  have "\<not> nstub (Root p)" using p by (auto simp: remove_node.simps [of "Root p"])
  with assms(2) have "contents f key = v \<and> prunes_top L B (Root p') (Root f')"
  proof (cases rule: empty_cases)
    case 1
    then show ?thesis using remove_sim(1) [OF p _ f] by auto
  next
    case (2 d c d' c')
    have "0 \<le> HeightForKey key" by (rule HeightForKey_nonneg)
    then have "Root p' = Root p \<and> v = None" "Root f' = Root f \<and> contents f key = None"
      using p f unfolding 2 by (auto simp: remove_node.simps [of "Node [] h d c False" for h d c] key_height_def remove_here_def
          findExistingEntry_def split: if_splits)
    then show ?thesis using assms(2) by simp
  qed
  then show ?thesis using f' by simp
qed

subsection \<open>Identifiers\<close>

lemma prunes_ref:
  "prunes L B p f \<Longrightarrow> ref_node L p = ref_node L f"
  "prunes_es L B es fs \<Longrightarrow> same_encoding (ref_entries L es) (ref_entries L fs)"
proof (induction p and es arbitrary: f and fs rule: shape_shape_es.induct)
  case (1 es h d c s)
  obtain fs h' d' c' s' where f: "f = Node fs h' d' c' s'" by (cases f)
  have "same_encoding (ref_entries L es) (ref_entries L fs)" "\<not> s" "\<not> s'" using 1 by (auto simp: f prunes_es_iff)
  then show ?case using same_encoding_node by (simp add: f)
next
  case 2
  then show ?case by (simp add: prunes_es.simps same_encoding_def)
next
  case (3 e es)
  obtain f fs1 where fs: "fs = f # fs1" "prunes_entry L B e f" "prunes_es L B es fs1"
    using 3(3) by (cases fs) (auto simp: prunes_es_iff)
  note ih = 3(2) [OF fs(3)] and same = prunes_same [OF fs(2)]
  show ?case
  proof (cases "echild e")
    case None
    show ?thesis
    proof (cases "echild f")
      case None
      then have "encodes_as e f" using fs(2) same \<open>echild e = None\<close> by (auto simp: encodes_as_def prunes_entry_iff)
      then show ?thesis using None \<open>echild e = None\<close> same_encoding_Cons [OF _ ih] by (simp add: fs(1))
    next
      case (Some ch)
      then obtain cc where cc: "echildcid e = Some cc" "ref_node L ch = Inr cc"
        using fs(2) None by (auto simp: prunes_entry_iff original_def)
      have "encodes_as e (setLink cc ch f)" using cc same by (auto simp: encodes_as_def isChild_def)
      then show ?thesis using None Some cc same_encoding_Cons [OF _ ih] by (simp add: fs(1))
    qed
  next
    case (Some ch)
    then obtain ch' where ch': "echild f = Some ch'" "prunes L B ch ch'" using prunes_entryD(5) [OF fs(2)] by blast
    have r: "ref_node L ch = ref_node L ch'" using 3(1) Some ch'(2) by blast
    show ?thesis
    proof (cases "ref_node L ch")
      case (Inl err)
      then show ?thesis using Some ch' r by (simp add: fs(1) same_encoding_def)
    next
      case (Inr cc)
      have "encodes_as (setLink cc ch e) (setLink cc ch' f)" by (rule setLink_encodes) (use same in auto)
      then show ?thesis using Some ch' r [symmetric] Inr same_encoding_Cons [OF _ ih] by (simp add: fs(1))
    qed
  qed
qed

subsection \<open>Loading some of the blocks\<close>

text \<open>What is loaded: identifiers from the links, no dirty flags, and heights that are right or not yet known.\<close>

fun loaded :: "cborlib \<Rightarrow> bytes set \<Rightarrow> node \<Rightarrow> node \<Rightarrow> bool"
  and loaded_es :: "cborlib \<Rightarrow> bytes set \<Rightarrow> entry list \<Rightarrow> entry list \<Rightarrow> bool" where
  "loaded L B (Node es h d c s) f \<longleftrightarrow> \<not> s \<and> \<not> d \<and> \<not> nstub f \<and> (h = nheight f \<or> h = -1) \<and>
     (\<exists>cc. c = Some cc \<and> ref_node L f = Inr cc) \<and> loaded_es L B es (entries f)"
| "loaded_es L B [] fs \<longleftrightarrow> fs = []"
| "loaded_es L B (e # es) fs \<longleftrightarrow>
     (case fs of
        [] \<Rightarrow> False
      | f # fs \<Rightarrow> isValue e = isValue f \<and> (isValue e \<longrightarrow> ekey e = ekey f \<and> evalue e = evalue f) \<and>
          (case (echild e, echild f) of
             (Some ch, Some ch') \<Rightarrow> loaded L B ch ch' \<and> \<not> isValue e \<and> (\<exists>cc. echildcid e = Some cc \<and> ref_node L ch' = Inr cc)
           | (Some ch, None) \<Rightarrow> False
           | (None, None) \<Rightarrow> \<not> isChild e \<and> \<not> isChild f
           | (None, Some ch') \<Rightarrow> (\<exists>cc. echildcid e = Some cc \<and> original L B ch' cc)) \<and>
          loaded_es L B es fs)"

lemma loaded_iff: "loaded L B p f \<longleftrightarrow> \<not> nstub p \<and> \<not> ndirty p \<and> \<not> nstub f \<and> (nheight p = nheight f \<or> nheight p = -1) \<and>
    (\<exists>cc. ncid p = Some cc \<and> ref_node L f = Inr cc) \<and> loaded_es L B (entries p) (entries f)"
  by (cases p) auto

lemma leaf_children: "loaded_es L B es fs \<Longrightarrow> wf_entries 0 fs \<Longrightarrow> ensure_children 0 es = es"
proof (induction es arbitrary: fs)
  case (Cons e es)
  then obtain f fs' where fs: "fs = f # fs'" by (cases fs) auto
  have "\<not> isChild f" using wf_child [OF Cons.prems(2), of f] by (auto simp: fs wf_node_iff)
  then have "echild e = None" using Cons.prems(1) by (auto simp: fs isChild_def split: option.splits)
  then show ?case using Cons by (auto simp: fs)
qed simp

lemma ensure_loaded:
  "loaded L B p f \<Longrightarrow> wf_node (nheight p) f \<Longrightarrow> prunes L B (ensureHeights p) f \<and> cache_node L (ensureHeights p)"
  "loaded_es L B es fs \<Longrightarrow> wf_entries h fs \<Longrightarrow> prunes_es L B (ensure_children h es) fs \<and> cache_entries L (ensure_children h es)"
proof (induction p and h es arbitrary: f and fs rule: ensureHeights_ensure_children.induct)
  case (1 es h d c s)
  have w: "wf_entries h (entries f)" "0 \<le> h" "nheight f = h" using 1(3) by (simp_all add: wf_node_iff)
  have l: "loaded_es L B es (entries f)" using 1(2) by simp
  have "h = 0 \<Longrightarrow> ensure_children h es = es" using leaf_children l w by simp
  then have e: "ensureHeights (Node es h d c s) = Node (ensure_children h es) h d c s" using w(2) by auto
  have c: "prunes_es L B (ensure_children h es) (entries f) \<and> cache_entries L (ensure_children h es)"
  proof (cases "h = 0")
    case True
    have "list_all2 (prunes_entry L B) xs ys \<and> cache_entries L xs" if "loaded_es L B xs ys" "wf_entries 0 ys" for xs ys
      using that
    proof (induction xs arbitrary: ys)
      case (Cons x xs)
      then obtain y ys' where ys: "ys = y # ys'" by (cases ys) auto
      have "\<not> isChild y" using wf_child [OF Cons.prems(2), of y] by (auto simp: ys wf_node_iff)
      then show ?case using Cons by (auto simp: ys prunes_entry_iff isChild_def split: option.splits)
    qed simp
    then show ?thesis using l w leaf_children True by (simp add: prunes_es_iff)
  next
    case False
    then show ?thesis using 1(1) l w by simp
  qed
  have p: "prunes L B (Node (ensure_children h es) h d c s) f" using c w 1(2) by (simp add: prunes_iff prunes_es_iff)
  moreover have "ref_node L (Node (ensure_children h es) h d c s) = ref_node L f" by (rule prunes_ref(1) [OF p])
  ultimately show ?case using c 1(2) unfolding e by auto
next
  case (2 h)
  then show ?case by (simp add: prunes_es.simps)
next
  case (3 h e es)
  obtain f fs1 where fs: "fs = f # fs1" using 3(3) by (cases fs) auto
  have ih: "prunes_es L B (ensure_children h es) fs1 \<and> cache_entries L (ensure_children h es)"
    using 3(2) 3(3,4) by (auto simp: fs)
  show ?case
  proof (cases "echild e")
    case None
    then have "prunes_entry L B e f" using 3(3) by (auto simp: fs prunes_entry_iff)
    then show ?thesis using None ih by (simp add: fs prunes_es_iff)
  next
    case (Some ch)
    then obtain ch' cc where ch': "echild f = Some ch'" "loaded L B ch ch'" "\<not> isValue e" "echildcid e = Some cc" "ref_node L ch' = Inr cc"
      using 3(3) by (auto simp: fs split: option.splits)
    have w: "wf_node (h - 1) ch'" using wf_child [OF 3(4), of f] ch'(1) by (auto simp: fs isChild_def)
    let ?c = "if h > 0 \<and> nheight ch < 0 then setHeight (h - 1) ch else ch"
    have n: "0 < h" "nheight ch = h - 1 \<or> nheight ch = -1" using w ch'(2) by (auto simp: wf_node_iff loaded_iff)
    then have c: "loaded L B ?c ch'" "nheight ?c = h - 1" using ch'(2) w by (auto simp: loaded_iff setHeight_def wf_node_iff)
    have r: "prunes L B (ensureHeights ?c) ch'" "cache_node L (ensureHeights ?c)" using 3(1) [OF Some c(1)] w c(2) by auto
    have "prunes_entry L B (setChild (ensureHeights ?c) False e) f" using r(1) ch' 3(3) Some by (auto simp: fs prunes_entry_iff)
    moreover have "cache_entries L [setChild (ensureHeights ?c) False e]"
      using r(2) ch' prunes_ref(1) [OF r(1)] by simp
    ultimately show ?thesis using ih Some by (simp add: fs prunes_es_iff del: ensureHeights.simps cache_node.simps)
  qed
qed

text \<open>A source that has some blocks of a set, and misses the others.\<close>

definition some_blocks :: "cborlib \<Rightarrow> (cid \<Rightarrow> (mst_error, bytes) result) \<Rightarrow> bytes set \<Rightarrow> bool" where
  "some_blocks L get B \<longleftrightarrow> (\<forall>b \<in> B. get (SumCid L b) = Inr b \<or> get (SumCid L b) = Inl ErrMissingBlock)"

lemma decode_block:
  assumes "cbor_laws L" "wf_node h n" "short_keys (node_walk n)" "node_block L n = Inr b"
  shows "\<exists>rs nd. ref_entries L (entries n) = Inr rs \<and> NodeDataFromCBOR L b = Inr nd \<and>
    nd_Node nd (Some c) = Inr (Node (map strip rs) (top_height (entries n)) False (Some c) False)"
proof -
  have wf: "wf_entries h (entries n)" "\<not> nstub n" using assms(2) by (simp_all add: wf_node_iff)
  obtain rs nd where r: "ref_entries L (entries n) = Inr rs" "node_NodeData (setEntries rs n) = Inr nd"
    "NodeData_MarshalCBOR L nd = Inr b" using assms(4) by (auto simp: node_block_def rbind_Inr_iff split: if_splits)
  have k: "short_keys (entries_walk (entries n))" using assms(3) by (simp add: node_walk_entries)
  note rl = ref_linked [OF wf(1) k r(1)]
  have "linked (entries (setEntries rs n))" using rl by simp
  from Node_NodeData [OF this, of "Some c"] r(2) rl wf(2) have
    "nd_Node nd (Some c) = Inr (Node (map strip rs) (top_height (entries n)) False (Some c) False)" by auto
  moreover have "NodeDataFromCBOR L b = Inr nd" using node_roundtrip [OF assms(1) r(3), of "[]"] by (simp add: NodeDataFromCBOR_def)
  ultimately show ?thesis using r(1) by blast
qed

lemma load_some:
  assumes "cbor_laws L"
  shows "wf_node h n \<Longrightarrow> short_keys (node_walk n) \<Longrightarrow> tree_blocks L n \<subseteq> B \<Longrightarrow> some_blocks L get B \<Longrightarrow>
      node_block L n = Inr b \<Longrightarrow> get (SumCid L b) = Inr b \<Longrightarrow> nat h < fuel \<Longrightarrow>
      \<exists>m. loadNode L get fuel (SumCid L b) = Some (Inr m) \<and> loaded L B m n \<and> (top_height (entries n) = h \<longrightarrow> nheight m = h)"
    "wf_entries h es \<Longrightarrow> short_keys (entries_walk es) \<Longrightarrow> entry_blocks L es \<subseteq> B \<Longrightarrow> some_blocks L get B \<Longrightarrow>
      ref_entries L es = Inr rs \<Longrightarrow> nat h \<le> fuel \<Longrightarrow> h0 = h \<or> h0 = -1 \<Longrightarrow>
      \<exists>es' h1. load_children L get fuel (map strip rs) h0 = Some (Inr (es', h1)) \<and> loaded_es L B es' es \<and>
        (h1 = h \<or> h1 = -1) \<and> (h0 = h \<longrightarrow> h1 = h)"
proof (induction h n and h es arbitrary: b fuel and rs fuel h0 rule: wf_node_wf_entries.induct)
  case (1 h es H d c s)
  then have wf: "wf_entries h es" "H = h" "\<not> s" by auto
  have k: "short_keys (entries_walk es)" and hb: "entry_blocks L es \<subseteq> B" using 1(3,4) by auto
  obtain f where f: "fuel = Suc f" using 1(8) by (cases fuel) auto
  obtain rs nd where r: "ref_entries L es = Inr rs" "NodeDataFromCBOR L b = Inr nd"
    "nd_Node nd (Some (SumCid L b)) = Inr (Node (map strip rs) (top_height es) False (Some (SumCid L b)) False)"
    using decode_block [OF assms 1(2,3,6), of "SumCid L b"] by auto
  note th = top_height_cases [OF wf(1)]
  have "nat h \<le> f" using 1(8) f by simp
  from 1(1) [OF wf(1) k hb 1(5) r(1) this, of "top_height es"] th obtain es' h1 where
    l: "load_children L get f (map strip rs) (top_height es) = Some (Inr (es', h1))" "loaded_es L B es' es"
    "h1 = h \<or> h1 = -1" "top_height es = h \<longrightarrow> h1 = h" by auto
  have "loadNode L get fuel (SumCid L b) = Some (Inr (Node es' h1 False (Some (SumCid L b)) False))"
    using f 1(7) r l(1) by simp
  moreover have "ref_node L (Node es H d c s) = Inr (SumCid L b)" using 1(6) by (simp add: ref_node_block del: ref_node.simps)
  ultimately show ?case using l(2-4) wf by (simp del: ref_node.simps)
next
  case (2 h)
  then show ?case by simp
next
  case (3 h e es)
  show ?case
  proof (cases "isChild e")
    case False
    have v: "isValue e" "echild e = None" using wf_value [OF 3(3) _ False] by auto
    then obtain rs1 where r: "ref_entries L es = Inr rs1" "rs = e # rs1" using 3(7) by (auto simp: rbind_Inr_iff)
    have w: "wf_entries h es" "short_keys (entries_walk es)" "entry_blocks L es \<subseteq> B"
      using 3(3,4,5) v by (auto split: if_splits simp: short_keys_def)
    obtain es' h1 where l: "load_children L get fuel (map strip rs1) h0 = Some (Inr (es', h1))" "loaded_es L B es' es"
      "h1 = h \<or> h1 = -1" "h0 = h \<longrightarrow> h1 = h" using 3(2) [OF w 3(6) r(1) 3(8,9)] by blast
    have "\<not> isChild (strip e)" "loaded_es L B (strip e # es') (e # es)"
      using v False l(2) by (auto simp: strip_def isChild_def isValue_def)
    then show ?thesis using l r(2) by auto
  next
    case True
    from wf_child_Cons [OF 3(3) True] obtain ch where ch: "echild e = Some ch" "wf_node (h - 1) ch" "entries ch \<noteq> []"
      "\<not> isValue e" "wf_entries h es" "entries_walk (e # es) = node_walk ch @ entries_walk es" by metis
    obtain cc rs1 where r: "ref_node L ch = Inr cc" "ref_entries L es = Inr rs1" "rs = setLink cc ch e # rs1"
      using 3(7) ch(1) by (auto simp: rbind_Inr_iff)
    obtain b where b: "node_block L ch = Inr b" "cc = SumCid L b" using r(1) by (auto simp: ref_node_block rbind_Inr_iff)
    have w: "short_keys (node_walk ch)" "short_keys (entries_walk es)" "tree_blocks L ch \<subseteq> B" "entry_blocks L es \<subseteq> B"
      using 3(4,5) ch(1) unfolding ch(6) by simp_all
    have h: "0 \<le> h - 1" using ch(2) by (simp add: wf_node_iff)
    then have fu: "nat (h - 1) < fuel" using 3(8) by linarith
    have "b \<in> B" using w(3) b(1) by (auto simp: tree_blocks_iff)
    then have src: "get cc = Inr b \<or> get cc = Inl ErrMissingBlock" using 3(6) b(2) by (simp add: some_blocks_def)
    let ?strip = "NodeEntry [] None (Some cc) None False"
    have st: "map strip rs = ?strip # map strip rs1" using strip_link [OF ch(4)] by (simp add: r(3))
    show ?thesis
    proof (cases "get cc")
      case (Inl err)
      then have "loadNode L get fuel cc = Some (Inl ErrMissingBlock)" using src fu by (cases fuel) auto
      moreover obtain es' h1 where l: "load_children L get fuel (map strip rs1) h0 = Some (Inr (es', h1))" "loaded_es L B es' es"
        "h1 = h \<or> h1 = -1" "h0 = h \<longrightarrow> h1 = h" using 3(2) [OF ch(5) w(2,4) 3(6) r(2) 3(8,9)] by blast
      moreover have "original L B ch cc" using r(1) w(1,3) ch(2) by (auto simp: original_def)
      ultimately show ?thesis using ch(1,4) unfolding st by (auto simp: isChild_def isValue_def)
    next
      case (Inr b')
      then have "get (SumCid L b) = Inr b" using src b(2) by simp
      from 3(1) [OF True ch(1,2) w(1,3) 3(6) b(1) this fu] obtain m where
        m: "loadNode L get fuel cc = Some (Inr m)" "loaded L B m ch" unfolding b(2) by blast
      have nm: "nheight m = h - 1 \<or> nheight m = -1" using m(2) ch(2) by (auto simp: loaded_iff wf_node_iff)
      let ?h = "if h0 = -1 \<and> nheight m \<ge> 0 then nheight m + 1 else h0"
      have hh: "?h = h \<or> ?h = -1" "h0 = h \<longrightarrow> ?h = h" using 3(9) nm h by auto
      obtain es' h1 where l: "load_children L get fuel (map strip rs1) ?h = Some (Inr (es', h1))" "loaded_es L B es' es"
        "h1 = h \<or> h1 = -1" "?h = h \<longrightarrow> h1 = h" using 3(2) [OF ch(5) w(2,4) 3(6) r(2) 3(8) hh(1)] by blast
      have "load_children L get fuel (map strip rs) h0 = Some (Inr (NodeEntry [] None (Some cc) (Some m) False # es', h1))"
        unfolding st using m(1) l(1) by (simp add: isChild_def)
      moreover have "loaded_es L B (NodeEntry [] None (Some cc) (Some m) False # es') (e # es)"
        using ch(1,4) m(2) l(2) r(1) by (simp add: isValue_def)
      ultimately show ?thesis using l(3,4) hh(2) by blast
    qed
  qed
qed

lemma load_some_tree:
  assumes "cbor_laws L" "canonical f" "short_keys (Walk f)" "ref_node L (Root f) = Inr c"
    "some_blocks L get (tree_blocks L (Root f))" "LoadTreeFromStore L get 129 c = Some (Inr m)"
  shows "prunes_top L (tree_blocks L (Root f)) (Root m) (Root f) \<and> cache_node L (Root m)"
proof -
  let ?B = "tree_blocks L (Root f)"
  obtain b where b: "node_block L (Root f) = Inr b" "c = SumCid L b" using assms(4) by (auto simp: ref_node_block rbind_Inr_iff)
  obtain n where n: "loadNode L get 129 c = Some (Inr n)" "m = \<lparr> Root = ensureHeights n \<rparr>"
    using assms(6) by (auto simp: LoadTreeFromStore_def fbind_def split: option.splits sum.splits)
  have "b \<in> ?B" using b(1) by (auto simp: tree_blocks_iff)
  then have "get c = Inr b \<or> get c = Inl ErrMissingBlock" using assms(5) b(2) by (simp add: some_blocks_def)
  moreover have "get c \<noteq> Inl err" for err using n(1) by (auto simp: numeral_eq_Suc)
  ultimately have g: "get (SumCid L b) = Inr b" using b(2) by metis
  have k: "short_keys (node_walk (Root f))" using assms(3) by (simp add: Walk_def)
  obtain h where h: "wf_node h (Root f)" using assms(2) by (auto simp: canonical_def tree_ok_def)
  show ?thesis
  proof (cases "entries (Root f) = []")
    case True
    then have "h = 0" using assms(2) h by (auto simp: canonical_def wf_node_iff)
    from load_some(1) [OF assms(1) h k subset_refl assms(5) b(1) g, of 129] this n(1) b(2)
    have l: "loaded L ?B n (Root f)" by auto
    then have e: "entries n = []" "nheight n = 0 \<or> nheight n = -1" "ensureHeights n = n" "\<not> nstub n"
      using True h \<open>h = 0\<close> by (cases n; cases "entries n"; auto simp: loaded_iff wf_node_iff)+
    have "ref_node L n = ref_node L (Root f)" using True e(1,4) h by (cases n; cases "Root f") (auto simp: node_NodeData_def)
    then have "cache_node L n" using l e(1) by (auto simp: cache_node_iff loaded_iff)
    then show ?thesis using e h True \<open>h = 0\<close> n(2) by (auto simp: prunes_top_def prunes_iff wf_node_iff)
  next
    case False
    have f: "nat h < 129" using wf_height_bound [OF h False assms(2)] by simp
    have "has_value (Root f)" using assms(2) False by (simp add: canonical_def)
    then have "top_height (entries (Root f)) = h"
      using top_height_cases [of h "entries (Root f)"] wf_either [of h "entries (Root f)"] h by (auto simp: wf_node_iff has_value_def)
    then obtain n' where "loadNode L get 129 (SumCid L b) = Some (Inr n')" "loaded L ?B n' (Root f)" "nheight n' = h"
      using load_some(1) [OF assms(1) h k subset_refl assms(5) b(1) g f] by auto
    then show ?thesis using ensure_loaded(1) [of L ?B n "Root f"] h n b(2) by (simp add: prunes_top_def)
  qed
qed

text \<open>Nodes with the same identifier have the same contents, if no two of their blocks have the same identifier.\<close>

lemma ref_authentic:
  assumes "cbor_laws L" "wf_node h n" "wf_node h' n'" "short_keys (node_walk n)" "short_keys (node_walk n')"
    "inj_on (SumCid L) (tree_blocks L n \<union> tree_blocks L n')" "ref_node L n = Inr c" "ref_node L n' = Inr c"
  shows "node_walk n = node_walk n'"
proof -
  let ?B = "tree_blocks L n \<union> tree_blocks L n'"
  obtain b b' where b: "node_block L n = Inr b" "c = SumCid L b" "node_block L n' = Inr b'" "c = SumCid L b'"
    using assms(7,8) by (auto simp: ref_node_block rbind_Inr_iff)
  have "b \<in> ?B" "b' \<in> ?B" using b by (auto simp: tree_blocks_iff)
  then have bb: "b' = b" using inj_onD [OF assms(6)] b by metis
  have wf: "wf_entries h (entries n)" "wf_entries h' (entries n')" using assms(2,3) by (simp_all add: wf_node_iff)
  have k: "short_keys (entries_walk (entries n))" "short_keys (entries_walk (entries n'))" using assms(4,5) by (simp_all add: node_walk_entries)
  show ?thesis
  proof (cases "entries n = [] \<or> entries n' = []")
    case True
    obtain rs nd where r: "ref_entries L (entries n) = Inr rs" "NodeDataFromCBOR L b = Inr nd"
      "nd_Node nd (Some c) = Inr (Node (map strip rs) (top_height (entries n)) False (Some c) False)"
      using decode_block [OF assms(1,2,4) b(1)] by blast
    obtain rs' nd' where r': "ref_entries L (entries n') = Inr rs'" "NodeDataFromCBOR L b = Inr nd'"
      "nd_Node nd' (Some c) = Inr (Node (map strip rs') (top_height (entries n')) False (Some c) False)"
      using decode_block [OF assms(1,3,5) b(3)] bb by blast
    have "map strip rs = map strip rs'" using r r' by simp
    then have "entries n = [] \<and> entries n' = []"
      using True ref_linked [OF wf(1) k(1) r(1)] ref_linked [OF wf(2) k(2) r'(1)] by auto
    then show ?thesis by (simp add: node_walk_entries)
  next
    case False
    define get :: "cid \<Rightarrow> (mst_error, bytes) result" where "get x = Inr (inv_into ?B (SumCid L) x)" for x
    have g: "has_blocks L get ?B" using assms(6) by (simp add: has_blocks_def get_def)
    define fuel where "fuel = Suc (max (nat h) (nat h'))"
    then have fu: "nat h < fuel" "nat h' < fuel" by simp_all
    obtain m where m: "loadNode L get fuel (SumCid L b) = Some (Inr m)" "shape m = shape n"
      using load_correct(1) [OF assms(1,2) _ assms(4) _ b(1) fu(1), of get] False g by auto
    obtain m' where m': "loadNode L get fuel (SumCid L b) = Some (Inr m')" "shape m' = shape n'"
      using load_correct(1) [OF assms(1,3) _ assms(5) _ b(3) fu(2), of get] False g bb by auto
    have "m' = m" using m(1) m'(1) by simp
    then show ?thesis using same_shape(2) [OF m(2)] same_shape(2) [OF m'(2)] by simp
  qed
qed

text \<open>The root identifier of a partial tree stands for the contents of the complete one.\<close>

lemma root_authentic:
  assumes "cbor_laws L" "prunes_top L B (Root p) (Root f)" "cache_node L (Root p)" "tree_ok f" "short_keys (Walk f)"
    "RootCID L p = Inr (c, p')" "tree_ok q" "short_keys (Walk q)" "ref_node L (Root q) = Inr c"
    "inj_on (SumCid L) (B \<union> tree_blocks L (Root f) \<union> tree_blocks L (Root q))"
  shows "contents f = contents q"
proof -
  obtain h k where w: "wf_node h (Root f)" "wf_node k (Root q)" using assms(4,7) by (auto simp: tree_ok_def)
  have "\<exists>n h. ref_node L n = Inr c \<and> wf_node h n \<and> node_walk n = node_walk (Root f) \<and> tree_blocks L n \<subseteq> B \<union> tree_blocks L (Root f)"
  proof (cases "nstub (Root p)")
    case True
    then obtain n where n: "ncid (Root p) = Some c" "original L B n c" "trim_top n = Inr (Root f)"
      using assms(2,6) by (auto simp: prunes_top_def prunes_iff RootCID_def)
    then obtain h where "wf_node h n" by (auto simp: original_def)
    then show ?thesis using trim_top_correct [of h n] n by (auto simp: original_def)
  next
    case False
    then have r: "ref_node L (Root p) = Inr c" using RootCID_correct [OF assms(3)] assms(6) by auto
    from assms(2) False have "ref_node L (Root p) = ref_node L (Root f)"
    proof (cases rule: empty_cases)
      case 1
      then show ?thesis by (rule prunes_ref(1))
    next
      case 2
      then show ?thesis by (simp add: node_NodeData_def)
    qed
    then show ?thesis using r w(1) by auto
  qed
  then obtain n h where n: "ref_node L n = Inr c" "wf_node h n" "node_walk n = node_walk (Root f)"
    "tree_blocks L n \<subseteq> B \<union> tree_blocks L (Root f)" by blast
  have "inj_on (SumCid L) (tree_blocks L n \<union> tree_blocks L (Root q))" by (rule inj_on_subset [OF assms(10)]) (use n(4) in auto)
  then have "node_walk n = node_walk (Root q)"
    using ref_authentic [OF assms(1) n(2) w(2) _ _ _ n(1) assms(9)] assms(5,8) n(3) by (simp add: Walk_def)
  then show ?thesis using n(3) by (simp add: contents_def Walk_def)
qed

end
