(* ===== verification/Syntax.thy ===== *)
theory Syntax
  imports MstKey
begin

text \<open>
  Identifiers of the protocol (\<^verbatim>\<open>atproto/syntax\<close>): timestamp identifiers with their clock (\<^verbatim>\<open>tid.go\<close>), collection names
  (\<^verbatim>\<open>nsid.go\<close>), record keys (\<^verbatim>\<open>recordkey.go\<close>), account identifiers (\<^verbatim>\<open>did.go\<close>), repository paths (\<^verbatim>\<open>path.go\<close>) and times
  (\<^verbatim>\<open>datetime.go\<close>). Strings are
  their bytes; the regular expressions, which only name ASCII characters, are written as functions on them.
\<close>

subsection \<open>Characters\<close>

definition isLower :: "byte \<Rightarrow> bool" where "isLower c \<longleftrightarrow> 97 \<le> c \<and> c \<le> 122"
definition isUpper :: "byte \<Rightarrow> bool" where "isUpper c \<longleftrightarrow> 65 \<le> c \<and> c \<le> 90"
definition isDigit :: "byte \<Rightarrow> bool" where "isDigit c \<longleftrightarrow> 48 \<le> c \<and> c \<le> 57"
definition isAlpha :: "byte \<Rightarrow> bool" where "isAlpha c \<longleftrightarrow> isLower c \<or> isUpper c"
definition isASCIIAlphaNum :: "byte \<Rightarrow> bool" where "isASCIIAlphaNum c \<longleftrightarrow> isLower c \<or> isUpper c \<or> isDigit c"

datatype syntax_error = ErrEmpty | ErrLength | ErrRegex | ErrParts

subsection \<open>Timestamp identifiers\<close>

definition Base32SortAlphabet :: bytes where
  "Base32SortAlphabet = [50, 51, 52, 53, 54, 55, 97, 98, 99, 100, 101, 102, 103, 104, 105, 106, 107, 108, 109, 110, 111, 112,
     113, 114, 115, 116, 117, 118, 119, 120, 121, 122]"

text \<open>The regular expression: the first of thirteen characters is one of the first sixteen of the alphabet.\<close>

definition tidRegex :: "bytes \<Rightarrow> bool" where
  "tidRegex raw \<longleftrightarrow> (case raw of [] \<Rightarrow> False | c # cs \<Rightarrow>
     c \<in> set (take 16 Base32SortAlphabet) \<and> length cs = 12 \<and> list_all (\<lambda>c. c \<in> set Base32SortAlphabet) cs)"

definition ParseTID :: "bytes \<Rightarrow> (syntax_error, bytes) result" where
  "ParseTID raw =
     (if raw = [] then Inl ErrEmpty
      else if length raw \<noteq> 13 then Inl ErrLength
      else if \<not> tidRegex raw then Inl ErrRegex
      else Inr raw)"

fun tid_loop :: "nat \<Rightarrow> u64 \<Rightarrow> bytes \<Rightarrow> bytes" where
  "tid_loop 0 v buf = buf"
| "tid_loop (Suc i) v buf = tid_loop i (drop_bit 5 v) (Base32SortAlphabet ! unat (v AND 0x1F) # buf)"

definition NewTIDFromInteger :: "u64 \<Rightarrow> bytes" where
  "NewTIDFromInteger v = tid_loop 13 (0x7FFFFFFFFFFFFFFF AND v) []"

definition NewTID :: "i64 \<Rightarrow> u64 \<Rightarrow> bytes" where
  "NewTID unixMicros clockId =
     NewTIDFromInteger (push_bit 10 (unixMicros AND 0x1FFFFFFFFFFFFF) OR (clockId AND 0x3FF))"

fun IndexByte :: "bytes \<Rightarrow> byte \<Rightarrow> nat option" where
  "IndexByte [] c = None"
| "IndexByte (x # xs) c = (if x = c then Some 0 else map_option Suc (IndexByte xs c))"

fun integer_loop :: "bytes \<Rightarrow> u64 \<Rightarrow> u64" where
  "integer_loop [] v = v"
| "integer_loop (x # s) v =
     (case IndexByte Base32SortAlphabet x of
        None \<Rightarrow> 0
      | Some c \<Rightarrow> integer_loop s (push_bit 5 v OR word_of_nat c AND 0x1F))"

definition Integer :: "bytes \<Rightarrow> u64" where
  "Integer t = (if length t \<noteq> 13 then 0 else integer_loop t 0)"

definition tid_ClockID :: "bytes \<Rightarrow> u64" where
  "tid_ClockID t = Integer t AND 0x3FF"

record TIDClock =
  ClockID :: u64
  lastUnixMicro :: i64

definition NewTIDClock :: "u64 \<Rightarrow> TIDClock" where
  "NewTIDClock clockId = \<lparr> ClockID = clockId, lastUnixMicro = 0 \<rparr>"

definition ClockFromTID :: "bytes \<Rightarrow> TIDClock" where
  "ClockFromTID t = \<lparr> ClockID = tid_ClockID t, lastUnixMicro = drop_bit 10 (Integer t) AND 0x1FFFFFFFFFFFFFFF \<rparr>"

text \<open>\<^verbatim>\<open>Next\<close>, with the microseconds that the system clock shows.\<close>

definition clock_Next :: "i64 \<Rightarrow> TIDClock \<Rightarrow> bytes \<times> TIDClock" where
  "clock_Next now c =
     (let now = (if sint now \<le> sint (lastUnixMicro c) then lastUnixMicro c + 1 else now)
      in (NewTID now (ClockID c), c\<lparr>lastUnixMicro := now\<rparr>))"

fun clock_run :: "i64 list \<Rightarrow> TIDClock \<Rightarrow> bytes list" where
  "clock_run [] c = []"
| "clock_run (now # ts) c = (case clock_Next now c of (t, c) \<Rightarrow> t # clock_run ts c)"

subsection \<open>Names and paths\<close>

text \<open>\<^verbatim>\<open>strings.Split\<close> and \<^verbatim>\<open>strings.SplitN\<close> for a separator of one character.\<close>

fun split_at :: "byte \<Rightarrow> bytes \<Rightarrow> bytes list" where
  "split_at sep [] = [[]]"
| "split_at sep (c # cs) =
     (if c = sep then [] # split_at sep cs
      else case split_at sep cs of [] \<Rightarrow> [[c]] | p # ps \<Rightarrow> (c # p) # ps)"

fun splitN :: "nat \<Rightarrow> byte \<Rightarrow> bytes \<Rightarrow> bytes list" where
  "splitN 0 sep cs = []"
| "splitN (Suc 0) sep cs = [cs]"
| "splitN (Suc (Suc n)) sep cs =
     (case dropWhile (\<lambda>c. c \<noteq> sep) cs of
        [] \<Rightarrow> [cs]
      | _ # rest \<Rightarrow> takeWhile (\<lambda>c. c \<noteq> sep) cs # splitN (Suc n) sep rest)"

text \<open>A label of a name: at most 63 letters, digits and inner hyphens.\<close>

definition nsid_label :: "bytes \<Rightarrow> bool" where
  "nsid_label l \<longleftrightarrow> l \<noteq> [] \<and> length l \<le> 63 \<and> isASCIIAlphaNum (hd l) \<and> isASCIIAlphaNum (last l) \<and>
     list_all (\<lambda>c. isASCIIAlphaNum c \<or> c = 45) l"

definition nsid_name :: "bytes \<Rightarrow> bool" where
  "nsid_name l \<longleftrightarrow> l \<noteq> [] \<and> length l \<le> 63 \<and> isAlpha (hd l) \<and> list_all isASCIIAlphaNum l"

definition nsidRegex :: "bytes \<Rightarrow> bool" where
  "nsidRegex raw \<longleftrightarrow>
     (let ls = split_at 46 raw in
      length ls \<ge> 3 \<and> nsid_label (hd ls) \<and> isAlpha (hd (hd ls)) \<and> list_all nsid_label (butlast (tl ls)) \<and> nsid_name (last ls))"

definition ParseNSID :: "bytes \<Rightarrow> (syntax_error, bytes) result" where
  "ParseNSID raw =
     (if raw = [] then Inl ErrEmpty
      else if length raw > 317 then Inl ErrLength
      else if \<not> nsidRegex raw then Inl ErrRegex
      else Inr raw)"

definition recordKeyRegex :: "bytes \<Rightarrow> bool" where
  "recordKeyRegex raw \<longleftrightarrow> 1 \<le> length raw \<and> length raw \<le> 512 \<and>
     list_all (\<lambda>c. isASCIIAlphaNum c \<or> c \<in> {95, 126, 46, 58, 45}) raw"

definition ParseRecordKey :: "bytes \<Rightarrow> (syntax_error, bytes) result" where
  "ParseRecordKey raw =
     (if raw = [] then Inl ErrEmpty
      else if length raw > 512 then Inl ErrLength
      else if raw = [] \<or> raw = [46] \<or> raw = [46, 46] then Inl ErrEmpty
      else if \<not> recordKeyRegex raw then Inl ErrRegex
      else Inr raw)"

definition ParseRepoPath :: "bytes \<Rightarrow> (syntax_error, bytes \<times> bytes) result" where
  "ParseRepoPath raw =
     (let parts = splitN 3 47 raw in
      if length parts \<noteq> 2 then Inl ErrParts
      else rbind (ParseNSID (parts ! 0)) (\<lambda>nsid. rbind (ParseRecordKey (parts ! 1)) (\<lambda>rkey. Inr (nsid, rkey))))"

subsection \<open>Account identifiers\<close>

text \<open>The regular expression: \<^verbatim>\<open>did:\<close>, a method of lower-case letters, a colon, and an identifier that does not end with a colon
  or a percent sign.\<close>

definition didRegex :: "bytes \<Rightarrow> bool" where
  "didRegex raw \<longleftrightarrow>
     (let rest = drop 4 raw; method = takeWhile isLower rest; ident = drop (Suc (length method)) rest in
      take 4 raw = [100, 105, 100, 58] \<and> method \<noteq> [] \<and> drop (length method) rest \<noteq> [] \<and>
      hd (drop (length method) rest) = 58 \<and> ident \<noteq> [] \<and>
      list_all (\<lambda>c. isASCIIAlphaNum c \<or> c \<in> {46, 95, 58, 37, 45}) ident \<and>
      (isASCIIAlphaNum (last ident) \<or> last ident \<in> {46, 95, 45}))"

definition ParseDID :: "bytes \<Rightarrow> (syntax_error, bytes) result" where
  "ParseDID raw =
     (if length raw = 32 \<and> take 8 raw = [100, 105, 100, 58, 112, 108, 99, 58] \<and> list_all isASCIIAlphaNum (drop 8 raw) then Inr raw
      else if raw = [] then Inl ErrEmpty
      else if length raw > 2 * 1024 then Inl ErrLength
      else if \<not> didRegex raw then Inl ErrRegex
      else Inr raw)"

definition did_Identifier :: "bytes \<Rightarrow> bytes" where
  "did_Identifier d = (let parts = splitN 3 58 d in if length parts < 3 then [] else parts ! 2)"

subsection \<open>Times\<close>

text \<open>\<^verbatim>\<open>ParseDatetime\<close> asks for a match of its regular expression and for \<^verbatim>\<open>time.Parse\<close> with the layout of RFC 3339 to succeed; both
  refusals are \<open>ErrRegex\<close> here. The expression allows any character before the fraction, \<^verbatim>\<open>time.Parse\<close> only a period or a comma.\<close>

definition num :: "bytes \<Rightarrow> int" where
  "num ds = fold (\<lambda>d n. 10 * n + (uint d - 48)) ds 0"

definition skip_fraction :: "bytes \<Rightarrow> bytes" where
  "skip_fraction r =
     (case r of
        [] \<Rightarrow> []
      | c # r' \<Rightarrow>
          let n = length (takeWhile isDigit r') in
          if (c = 46 \<or> c = 44) \<and> 1 \<le> n \<and> n \<le> 20 then drop n r' else r)"

text \<open>The offset of a time zone in seconds.\<close>

definition zone_offset :: "bytes \<Rightarrow> int option" where
  "zone_offset r =
     (if r = [90] then Some 0
      else if length r = 6 \<and> (r ! 0 = 43 \<or> r ! 0 = 45) \<and> isDigit (r ! 1) \<and> r ! 1 \<le> 50 \<and> isDigit (r ! 2) \<and> r ! 3 = 58 \<and>
        isDigit (r ! 4) \<and> r ! 4 \<le> 53 \<and> isDigit (r ! 5) \<and> num [r ! 1, r ! 2] \<le> 24
      then Some ((if r ! 0 = 43 then 1 else -1) * (num [r ! 1, r ! 2] * 3600 + num [r ! 4, r ! 5] * 60))
      else None)"

definition daysIn :: "int \<Rightarrow> int \<Rightarrow> int" where
  "daysIn m year =
     (if m = 2 then (if year mod 4 = 0 \<and> (year mod 100 \<noteq> 0 \<or> year mod 400 = 0) then 29 else 28)
      else if m \<in> {4, 6, 9, 11} then 30 else 31)"

definition datetime_fields :: "bytes \<Rightarrow> bool" where
  "datetime_fields r \<longleftrightarrow>
     list_all (\<lambda>i. isDigit (r ! i)) [0, 1, 2, 3, 5, 6, 8, 9, 11, 12, 14, 15, 17, 18] \<and>
     r ! 4 = 45 \<and> r ! 7 = 45 \<and> r ! 10 = 84 \<and> r ! 13 = 58 \<and> r ! 16 = 58 \<and>
     1 \<le> num [r ! 5, r ! 6] \<and> num [r ! 5, r ! 6] \<le> 12 \<and>
     1 \<le> num [r ! 8, r ! 9] \<and> num [r ! 8, r ! 9] \<le> daysIn (num [r ! 5, r ! 6]) (num (take 4 r)) \<and>
     num [r ! 11, r ! 12] < 24 \<and> num [r ! 14, r ! 15] < 60 \<and> num [r ! 17, r ! 18] < 60"

text \<open>The time is before the start of year zero: only an offset in the first days of that year gives one.\<close>

definition before_astro_zero :: "bytes \<Rightarrow> int \<Rightarrow> bool" where
  "before_astro_zero r off \<longleftrightarrow> num (take 4 r) = 0 \<and> num [r ! 5, r ! 6] = 1 \<and>
     (num [r ! 8, r ! 9] - 1) * 86400 + num [r ! 11, r ! 12] * 3600 + num [r ! 14, r ! 15] * 60 + num [r ! 17, r ! 18] - off < 0"

definition ParseDatetime :: "bytes \<Rightarrow> (syntax_error, bytes) result" where
  "ParseDatetime raw =
     (if raw = [] then Inl ErrEmpty
      else if length raw > 64 then Inl ErrLength
      else if length raw < 20 \<or> \<not> datetime_fields raw then Inl ErrRegex
      else if drop (length raw - 6) raw = [45, 48, 48, 58, 48, 48] then Inl ErrRegex
      else case zone_offset (skip_fraction (drop 19 raw)) of
        None \<Rightarrow> Inl ErrRegex
      | Some off \<Rightarrow> if before_astro_zero raw off then Inl ErrRegex else Inr raw)"

subsection \<open>Digits\<close>

lemma alphabet_length [simp]: "length Base32SortAlphabet = 32"
  by (simp add: Base32SortAlphabet_def)

lemma alphabet_sorted: "sorted_wrt (<) Base32SortAlphabet"
  by (simp add: Base32SortAlphabet_def)

lemma alphabet_mono: "i < j \<Longrightarrow> j < 32 \<Longrightarrow> Base32SortAlphabet ! i < Base32SortAlphabet ! j"
  using sorted_wrt_nth_less [OF alphabet_sorted] by simp

lemma IndexByte_nth: "distinct xs \<Longrightarrow> i < length xs \<Longrightarrow> IndexByte xs (xs ! i) = Some i"
proof (induction xs arbitrary: i)
  case (Cons x xs)
  then show ?case by (cases i) auto
qed simp

lemma IndexByte_alphabet: "i < 32 \<Longrightarrow> IndexByte Base32SortAlphabet (Base32SortAlphabet ! i) = Some i"
  using alphabet_sorted by (simp add: IndexByte_nth strict_sorted_iff)

lemma and_31: "v AND 0x1F = take_bit 5 (v :: u64)"
  by (simp add: take_bit_eq_mask mask_eq_exp_minus_1)

lemma and_1023: "v AND 0x3FF = take_bit 10 (v :: u64)"
  by (simp add: take_bit_eq_mask mask_eq_exp_minus_1)

lemma and_53: "v AND 0x1FFFFFFFFFFFFF = take_bit 53 (v :: u64)"
  by (simp add: take_bit_eq_mask mask_eq_exp_minus_1)

lemma and_63: "0x7FFFFFFFFFFFFFFF AND v = take_bit 63 (v :: u64)"
  by (simp add: take_bit_eq_mask mask_eq_exp_minus_1 and.commute)

lemma digit_less: "unat (take_bit 5 (v :: u64)) < 32"
  by (simp only: unsigned_take_bit_eq) (simp add: take_bit_eq_mod)

lemma integer_tid_loop:
  "integer_loop (tid_loop n v buf) w = integer_loop buf (push_bit (5 * n) w OR take_bit (5 * n) v)"
proof (induction n arbitrary: v buf w)
  case (Suc n)
  have b: "(push_bit (5 + 5 * n) w OR push_bit 5 (take_bit (5 * n) (drop_bit 5 v))) OR take_bit 5 v =
      push_bit (5 + 5 * n) w OR take_bit (5 + 5 * n) v"
    by (rule bit_word_eqI) (auto simp: bit_simps)
  show ?case using Suc digit_less [of v] by (simp add: and_31 IndexByte_alphabet b)
qed simp

lemma tid_loop_length: "length (tid_loop n v buf) = n + length buf"
  by (induction n arbitrary: v buf) simp_all

lemma NewTID_length [simp]: "length (NewTIDFromInteger v) = 13"
  by (simp add: NewTIDFromInteger_def tid_loop_length)

lemma Integer_NewTID: "Integer (NewTIDFromInteger v) = 0x7FFFFFFFFFFFFFFF AND v"
proof -
  have "take_bit 65 (0x7FFFFFFFFFFFFFFF AND v) = 0x7FFFFFFFFFFFFFFF AND v" by (rule bit_word_eqI) (auto simp: bit_simps)
  then show ?thesis using integer_tid_loop [of 13 "0x7FFFFFFFFFFFFFFF AND v" "[]" 0]
    by (simp add: Integer_def) (simp add: NewTIDFromInteger_def)
qed

text \<open>The characters of an identifier as digits of a number, the most significant first.\<close>

definition digit :: "nat \<Rightarrow> nat \<Rightarrow> nat" where
  "digit x i = x div 32 ^ i mod 32"

lemma tid_loop_digits:
  "tid_loop n v buf = map (\<lambda>i. Base32SortAlphabet ! digit (unat v) i) (rev [0..<n]) @ buf"
proof (induction n arbitrary: v buf)
  case (Suc n)
  have "unat v < 2 ^ 64" using unsigned_less [of v] by simp
  then have "unat (drop_bit 5 v) = unat v div 32"
    by (simp only: unsigned_drop_bit_eq) (simp add: drop_bit_eq_div take_bit_nat_eq_self)
  then have "digit (unat (drop_bit 5 v)) i = digit (unat v) (Suc i)" for i
    by (simp add: digit_def div_mult2_eq [symmetric])
  moreover have "unat (take_bit 5 v) = digit (unat v) 0"
    by (simp only: unsigned_take_bit_eq) (simp add: digit_def take_bit_eq_mod)
  moreover have "rev [0..<Suc n] = map Suc (rev [0..<n]) @ [0]"
    by (simp only: rev_map [symmetric] map_Suc_upt) (simp add: upt_conv_Cons del: upt_Suc)
  ultimately show ?case using Suc by (simp add: and_31 o_def del: upt_Suc)
qed simp

lemma digits_less:
  assumes "x < y" "y < 32 ^ n"
  shows "map (digit x) (rev [0..<n]) < map (digit y) (rev [0..<n])"
  using assms
proof (induction n arbitrary: x y)
  case (Suc n)
  have top: "digit z n = z div 32 ^ n" if "z < 32 ^ Suc n" for z
    using that by (simp add: digit_def less_mult_imp_div_less mult.commute)
  have low: "map (digit (z mod 32 ^ n)) (rev [0..<n]) = map (digit z) (rev [0..<n])" for z
  proof (rule map_cong [OF refl])
    fix i assume "i \<in> set (rev [0..<n])"
    then obtain k where "n = i + Suc k" by (auto simp: less_iff_Suc_add)
    then have "32 ^ n = (32 :: nat) ^ i * (32 * 32 ^ k)" by (simp add: power_add)
    then show "digit (z mod 32 ^ n) i = digit z i" by (simp add: digit_def mod_mult2_eq)
  qed
  consider "x div 32 ^ n < y div 32 ^ n" | "x div 32 ^ n = y div 32 ^ n" "x mod 32 ^ n < y mod 32 ^ n"
  proof -
    assume a: "x div 32 ^ n < y div 32 ^ n \<Longrightarrow> thesis" "x div 32 ^ n = y div 32 ^ n \<Longrightarrow> x mod 32 ^ n < y mod 32 ^ n \<Longrightarrow> thesis"
    have "x div 32 ^ n \<le> y div 32 ^ n" using Suc.prems(1) by (simp add: div_le_mono)
    moreover have "x mod 32 ^ n < y mod 32 ^ n" if "x div 32 ^ n = y div 32 ^ n"
      using Suc.prems(1) that by (metis add_less_cancel_left div_mult_mod_eq)
    ultimately show thesis using a by linarith
  qed
  then show ?case
  proof cases
    case 1
    then show ?thesis using top [of x] top [of y] Suc.prems by simp
  next
    case 2
    have "map (digit (x mod 32 ^ n)) (rev [0..<n]) < map (digit (y mod 32 ^ n)) (rev [0..<n])"
      by (rule Suc.IH [OF 2(2)]) simp
    then show ?thesis using 2(1) top [of x] top [of y] Suc.prems low by simp
  qed
qed simp

lemma map_alphabet_less:
  "xs < ys \<Longrightarrow> list_all (\<lambda>d. d < 32) xs \<Longrightarrow> list_all (\<lambda>d. d < 32) ys \<Longrightarrow>
     map ((!) Base32SortAlphabet) xs < map ((!) Base32SortAlphabet) ys"
proof (induction xs arbitrary: ys)
  case (Cons x xs)
  then show ?case by (cases ys) (auto simp: alphabet_mono)
next
  case Nil
  then show ?case by (cases ys) simp_all
qed

lemma tid_less:
  assumes "unat v < unat v'" "unat v' < 2 ^ 63"
  shows "NewTIDFromInteger v < NewTIDFromInteger v'"
proof -
  have m: "0x7FFFFFFFFFFFFFFF AND w = w" if "unat w < 2 ^ 63" for w :: u64
  proof -
    have "take_bit 63 w = w"
      using that by (simp only: word_unat_eq_iff unsigned_take_bit_eq) (simp add: take_bit_nat_eq_self)
    then show ?thesis by (simp add: and_63)
  qed
  have "map (digit (unat v)) (rev [0..<13]) < map (digit (unat v')) (rev [0..<13])"
    using assms by (intro digits_less) simp_all
  from map_alphabet_less [OF this] show ?thesis
    using m [of v] m [of v'] assms by (simp add: NewTIDFromInteger_def tid_loop_digits digit_def list_all_iff o_def del: upt_Suc)
qed

subsection \<open>The clock\<close>

lemma uint_nonneg:
  assumes "0 \<le> sint (w :: i64)"
  shows "uint w = sint w" "uint w < 2 ^ 63"
proof -
  have b: "\<not> bit w 63" using bit_last_iff [of w] assms by simp
  have "w = take_bit 63 w"
  proof (rule bit_word_eqI)
    fix n assume "n < LENGTH(64)"
    then have "n < 63 \<or> n = 63" by auto
    then show "bit w n = bit (take_bit 63 w) n" using b by (auto simp: bit_simps)
  qed
  then have u: "uint w = take_bit 63 (uint w)" by (metis unsigned_take_bit_eq)
  then show "uint w < 2 ^ 63" by (metis take_bit_int_less_exp)
  have "sint w = signed_take_bit 63 (uint w)" by (simp add: sint_uint)
  moreover have "\<not> bit (uint w) 63" using b by (simp add: bit_uint_iff)
  ultimately show "uint w = sint w" using u signed_take_bit_eq_if_positive by metis
qed

lemma unat_nonneg: "0 \<le> sint (w :: i64) \<Longrightarrow> unat w = nat (sint w)"
  using uint_nonneg(1) by (metis unat_eq_nat_uint)

lemma sint_Suc: "0 \<le> sint (w :: i64) \<Longrightarrow> sint w < 2 ^ 63 - 1 \<Longrightarrow> sint (w + 1) = sint w + 1"
  by (simp add: sint_word_add signed_take_bit_int_eq_self)

lemma tid_value:
  "unat (push_bit 10 (um AND 0x1FFFFFFFFFFFFF) OR (clk AND 0x3FF) :: u64) = unat um mod 2 ^ 53 * 1024 + unat clk mod 1024"
proof -
  have lt: "take_bit 53 (unat um) < 2 ^ 53" by (rule take_bit_nat_less_exp)
  have "push_bit 10 (take_bit 53 (unat um)) OR take_bit 10 (unat clk) = push_bit 10 (take_bit 53 (unat um)) + take_bit 10 (unat clk)"
    by (rule disjunctive_add [symmetric]) (auto simp: bit_simps)
  moreover have "take_bit 64 (push_bit 10 (take_bit 53 (unat um))) = push_bit 10 (take_bit 53 (unat um))"
    using lt by (simp add: take_bit_nat_eq_self_iff push_bit_eq_mult)
  ultimately show ?thesis unfolding and_53 and_1023
    by (simp only: unsigned_or_eq unsigned_push_bit_eq unsigned_take_bit_eq) (simp add: take_bit_eq_mod push_bit_eq_mult)
qed

lemma NewTID_less:
  assumes "0 \<le> sint a" "sint a < sint b" "sint b < 2 ^ 53"
  shows "NewTID a clk < NewTID b clk"
proof -
  have "unat a mod 2 ^ 53 = unat a" "unat b mod 2 ^ 53 = unat b" "unat a < unat b" "unat b < 2 ^ 53"
    using assms by (auto simp: unat_nonneg nat_less_iff)
  then show ?thesis unfolding NewTID_def by (intro tid_less) (simp_all only: tid_value, auto)
qed

lemma clock_run_sorted:
  assumes "0 \<le> sint (lastUnixMicro c)" "sint (lastUnixMicro c) < B" "\<forall>t \<in> set ts. sint t < B" "B + int (length ts) \<le> 2 ^ 53"
  shows "sorted_wrt (<) (NewTID (lastUnixMicro c) (ClockID c) # clock_run ts c)"
  using assms
proof (induction ts arbitrary: c B)
  case (Cons t ts)
  define now where "now = (if sint t \<le> sint (lastUnixMicro c) then lastUnixMicro c + 1 else t)"
  have n: "sint (lastUnixMicro c) < sint now" "sint now < B + 1" "0 \<le> sint now"
    using Cons.prems sint_Suc [of "lastUnixMicro c"] unfolding now_def by (auto split: if_splits)
  let ?c = "c\<lparr>lastUnixMicro := now\<rparr>"
  have "sorted_wrt (<) (NewTID (lastUnixMicro ?c) (ClockID ?c) # clock_run ts ?c)"
    by (rule Cons.IH [of ?c "B + 1"]) (use Cons.prems n in auto)
  moreover have "NewTID (lastUnixMicro c) (ClockID c) < NewTID now (ClockID c)"
    by (rule NewTID_less) (use Cons.prems n in auto)
  ultimately show ?case by (auto simp: clock_Next_def now_def Let_def intro: less_trans)
qed simp

subsection \<open>Reading an identifier\<close>

lemma alphabet_index:
  assumes "x \<in> set Base32SortAlphabet"
  obtains i where "i < 32" "IndexByte Base32SortAlphabet x = Some i" "Base32SortAlphabet ! i = x"
  using assms IndexByte_alphabet by (metis alphabet_length in_set_conv_nth)

lemma small_take_bit:
  assumes "i < 2 ^ n" "n \<le> 64"
  shows "take_bit n (word_of_nat i :: u64) = word_of_nat i"
proof -
  have "(2 :: nat) ^ n \<le> 2 ^ 64" using assms(2) by (intro power_increasing) simp_all
  then have "unat (word_of_nat i :: u64) = i" using assms(1) by (simp add: unat_of_nat)
  then show ?thesis using assms(1)
    by (simp only: word_unat_eq_iff unsigned_take_bit_eq) (simp add: take_bit_nat_eq_self)
qed

lemma integer_loop_snoc:
  assumes "list_all (\<lambda>c. c \<in> set Base32SortAlphabet) xs" "IndexByte Base32SortAlphabet x = Some i"
  shows "integer_loop (xs @ [x]) v = push_bit 5 (integer_loop xs v) OR word_of_nat i AND 0x1F"
  using assms
proof (induction xs arbitrary: v)
  case (Cons y ys)
  then have "y \<in> set Base32SortAlphabet" by simp
  then obtain j where "IndexByte Base32SortAlphabet y = Some j" by (rule alphabet_index)
  then show ?case using Cons by simp
qed simp

lemma integer_loop_bits:
  assumes "x \<in> set (take 16 Base32SortAlphabet)" "list_all (\<lambda>c. c \<in> set Base32SortAlphabet) ys" "length ys \<le> 12"
  shows "take_bit (4 + 5 * length ys) (integer_loop (x # ys) 0) = integer_loop (x # ys) 0 \<and>
    tid_loop (Suc (length ys)) (integer_loop (x # ys) 0) buf = x # ys @ buf"
  using assms
proof (induction ys arbitrary: buf rule: rev_induct)
  case Nil
  then obtain i where i: "i < 16" "x = Base32SortAlphabet ! i" by (auto simp: in_set_conv_nth)
  have "take_bit 4 (word_of_nat i :: u64) = word_of_nat i" "take_bit 5 (word_of_nat i :: u64) = word_of_nat i"
    using i small_take_bit [of i] by simp_all
  then show ?case using i IndexByte_alphabet [of i] by (simp add: and_31 unat_of_nat)
next
  case (snoc y ys)
  then have "y \<in> set Base32SortAlphabet" by simp
  then obtain i where i: "i < 32" "IndexByte Base32SortAlphabet y = Some i" "Base32SortAlphabet ! i = y" by (rule alphabet_index)
  have x: "x \<in> set Base32SortAlphabet" using snoc.prems(1) by (meson in_set_takeD)
  define v where "v = integer_loop (x # ys) 0"
  define w :: u64 where "w = word_of_nat i"
  have v: "take_bit (4 + 5 * length ys) v = v" and IH: "\<And>buf. tid_loop (Suc (length ys)) v buf = x # ys @ buf"
    using snoc by (simp_all add: v_def)
  have t: "take_bit 5 w = w" "unat w = i" using i small_take_bit [of i 5] by (simp_all add: w_def unat_of_nat)
  have e: "integer_loop (x # ys @ [y]) 0 = push_bit 5 v OR w"
    using integer_loop_snoc [of "x # ys" y i 0] x i snoc.prems t(1) unfolding v_def w_def by (simp add: and_31)
  have hi: "bit v n \<Longrightarrow> n < 4 + 5 * length ys" for n using v by (metis bit_take_bit_iff)
  have lo: "bit w n \<Longrightarrow> n < 5" for n using t(1) by (metis bit_take_bit_iff)
  have "take_bit (4 + 5 * length (ys @ [y])) (push_bit 5 v OR w) = push_bit 5 v OR w"
    by (rule bit_word_eqI) (auto simp: bit_simps dest: hi lo)
  moreover have "drop_bit 5 (push_bit 5 v OR w) = v"
    by (rule bit_word_eqI) (use snoc.prems in \<open>auto simp: bit_simps dest: hi lo\<close>)
  moreover have "take_bit 5 (push_bit 5 v OR w) = w"
    by (rule bit_word_eqI) (auto simp: bit_simps dest: lo)
  ultimately show ?case using e IH i(3) t(2) by (simp add: and_31 del: integer_loop.simps(2))
qed

lemma tid_fixed:
  assumes "tidRegex t" "\<not> bit (Integer t) 63"
  shows "NewTIDFromInteger (Integer t) = t"
proof -
  from assms(1) obtain x ys where t: "t = x # ys" "x \<in> set (take 16 Base32SortAlphabet)" "length ys = 12"
      "list_all (\<lambda>c. c \<in> set Base32SortAlphabet) ys"
    by (auto simp: tidRegex_def split: list.splits)
  have "take_bit 63 (Integer t) = Integer t"
  proof (rule bit_word_eqI)
    fix n assume "n < LENGTH(64)"
    then have "n < 63 \<or> n = 63" by auto
    then show "bit (take_bit 63 (Integer t)) n = bit (Integer t) n" using assms(2) by (auto simp: bit_simps)
  qed
  then have "0x7FFFFFFFFFFFFFFF AND Integer t = Integer t" by (simp add: and_63)
  moreover have "Integer t = integer_loop (x # ys) 0" using t by (simp add: Integer_def del: integer_loop.simps)
  moreover have "tid_loop 13 (integer_loop (x # ys) 0) [] = x # ys"
    using integer_loop_bits [of x ys "[]"] t by (simp del: tid_loop.simps integer_loop.simps)
  ultimately show ?thesis using t(1) by (simp add: NewTIDFromInteger_def del: tid_loop.simps integer_loop.simps)
qed

lemma tid_accepted: "ParseTID (NewTIDFromInteger v) = Inr (NewTIDFromInteger v)"
proof -
  let ?w = "unat (0x7FFFFFFFFFFFFFFF AND v)"
  have "?w < 2 ^ 63" by (simp only: and_63 unsigned_take_bit_eq) (rule take_bit_nat_less_exp)
  then have "?w div 32 ^ 12 < 8" by (intro less_mult_imp_div_less) simp
  then have "Base32SortAlphabet ! digit ?w 12 \<in> set (take 16 Base32SortAlphabet)"
    by (auto simp: digit_def in_set_conv_nth intro!: exI [of _ "?w div 32 ^ 12"])
  moreover have "Base32SortAlphabet ! digit ?w i \<in> set Base32SortAlphabet" for i by (simp add: digit_def)
  moreover have "NewTIDFromInteger v =
      Base32SortAlphabet ! digit ?w 12 # map (\<lambda>i. Base32SortAlphabet ! digit ?w i) (rev [0..<12])"
    using upt_Suc [of 0 12] unfolding NewTIDFromInteger_def tid_loop_digits by (simp del: upt_Suc)
  ultimately have "tidRegex (NewTIDFromInteger v)" by (simp add: tidRegex_def list_all_iff del: upt_Suc)
  then show ?thesis using NewTID_length [of v] by (auto simp: ParseTID_def simp del: NewTID_length)
qed

lemma tid_clock_id: "tid_ClockID (NewTID um clk) = clk AND 0x3FF"
  unfolding tid_ClockID_def NewTID_def Integer_NewTID and_1023 and_53 and_63
  by (rule bit_word_eqI) (auto simp: bit_simps)

text \<open>C30: An identifier made from an integer is accepted by the parser and gives back the low 63 bits of the integer, with the
  clock part where it was put. Conversely an accepted identifier whose integer leaves the top bit clear is the one made from that integer.\<close>

theorem tid_roundtrip:
  "ParseTID (NewTIDFromInteger v) = Inr (NewTIDFromInteger v) \<and>
   Integer (NewTIDFromInteger v) = take_bit 63 v \<and>
   tid_ClockID (NewTID um clk) = take_bit 10 clk \<and>
   (ParseTID t = Inr t' \<and> \<not> bit (Integer t) 63 \<longrightarrow> t' = t \<and> NewTIDFromInteger (Integer t) = t)"
proof -
  have "t' = t \<and> tidRegex t" if "ParseTID t = Inr t'" using that by (auto simp: ParseTID_def split: if_splits)
  then show ?thesis using tid_fixed [of t] tid_accepted [of v] by (auto simp: Integer_NewTID tid_clock_id and_63 and_1023)
qed

theorem tid_roundtrip_witness:
  "NewTIDFromInteger (Integer [51, 106, 117, 105, 55, 107, 100, 53, 52, 122, 104, 50, 121]) = [51, 106, 117, 105, 55, 107, 100, 53, 52, 122, 104, 50, 121]"
proof -
  let ?t = "[51, 106, 117, 105, 55, 107, 100, 53, 52, 122, 104, 50, 121] :: bytes"
  have "ParseTID ?t = Inr ?t" by code_simp
  moreover have "\<not> bit (Integer ?t) 63" by code_simp
  ultimately show ?thesis using tid_roundtrip [of 0 0 0 ?t ?t] by blast
qed

lemma clock_from_tid:
  assumes "ParseTID t = Inr t" "unat (Integer t) < B * 1024" "B \<le> 2 ^ 53"
  shows "NewTID (lastUnixMicro (ClockFromTID t)) (ClockID (ClockFromTID t)) = t"
    "0 \<le> sint (lastUnixMicro (ClockFromTID t))" "sint (lastUnixMicro (ClockFromTID t)) < int B"
proof -
  let ?i = "Integer t"
  have lt: "unat ?i < 2 ^ 63" using assms by simp
  then have i63: "take_bit 63 ?i = ?i"
    by (simp only: word_unat_eq_iff unsigned_take_bit_eq) (simp add: take_bit_nat_eq_self)
  then have bits: "\<not> bit ?i 63" by (metis bit_take_bit_iff less_irrefl)
  have "drop_bit 10 ?i AND 0x1FFFFFFFFFFFFFFF = take_bit 61 (drop_bit 10 ?i)"
    by (simp add: take_bit_eq_mask mask_eq_exp_minus_1)
  moreover have "take_bit 61 (drop_bit 10 ?i) = drop_bit 10 ?i"
    by (rule bit_word_eqI) (auto simp: bit_simps dest: bit_imp_le_length)
  ultimately have last: "lastUnixMicro (ClockFromTID t) = drop_bit 10 ?i" by (simp add: ClockFromTID_def)
  have "push_bit 10 (take_bit 53 (drop_bit 10 ?i)) OR take_bit 10 (take_bit 10 ?i) = take_bit 63 ?i"
    by (rule bit_word_eqI) (auto simp: bit_simps)
  moreover have "tidRegex t" using assms(1) by (auto simp: ParseTID_def split: if_splits)
  ultimately show "NewTID (lastUnixMicro (ClockFromTID t)) (ClockID (ClockFromTID t)) = t"
    using tid_fixed [of t] bits i63 unfolding last NewTID_def and_53 and_1023
    by (simp add: ClockFromTID_def tid_ClockID_def and_1023)
  have u: "unat (drop_bit 10 ?i) = unat ?i div 1024"
    using lt by (simp only: unsigned_drop_bit_eq) (simp add: drop_bit_eq_div take_bit_nat_eq_self)
  have "sint (drop_bit 10 ?i) = int (unat (drop_bit 10 ?i))"
  proof -
    have "\<not> bit (drop_bit 10 ?i) 63" by (auto simp: bit_simps dest: bit_imp_le_length)
    then have "0 \<le> sint (drop_bit 10 ?i)" using bit_last_iff [of "drop_bit 10 ?i"] by simp
    then show ?thesis using unat_nonneg by simp
  qed
  moreover have "unat ?i div 1024 < B" using assms(2) by (intro less_mult_imp_div_less)
  ultimately show "0 \<le> sint (lastUnixMicro (ClockFromTID t))" "sint (lastUnixMicro (ClockFromTID t)) < int B"
    unfolding last u by simp_all
qed

lemma clock_run_accepted: "list_all (\<lambda>t. ParseTID t = Inr t) (clock_run ts c)"
  by (induction ts arbitrary: c) (simp_all add: clock_Next_def Let_def NewTID_def tid_accepted)

text \<open>C11: As long as the time in microseconds stays below \<^verbatim>\<open>2^53\<close>, the identifiers of a clock are accepted by the parser and
  strictly increase as strings, whatever the system clock shows, also when it stands still or runs backwards. A clock
  resumed from an accepted identifier continues above it.\<close>

theorem clock_monotonic:
  assumes "ParseTID t = Inr t" "unat (Integer t) < B * 1024" "\<forall>now \<in> set ts. sint now < int B" "B + length ts \<le> 2 ^ 53"
  shows "sorted_wrt (<) (t # clock_run ts (ClockFromTID t)) \<and> sorted_wrt (<) (clock_run ts (NewTIDClock clk)) \<and>
    list_all (\<lambda>t. ParseTID t = Inr t) (clock_run ts (ClockFromTID t)) \<and> length (clock_run ts (ClockFromTID t)) = length ts"
proof -
  have len: "length (clock_run ts c) = length ts" for c by (induction ts arbitrary: c) (simp_all add: clock_Next_def Let_def)
  have B: "0 < B" using assms(2) by (cases B) auto
  have r: "int B + int (length ts) \<le> 2 ^ 53" using assms(4) by (simp flip: of_nat_add)
  show ?thesis
    using clock_run_sorted [of "ClockFromTID t" "int B" ts] clock_run_sorted [of "NewTIDClock clk" "int B" ts] len r B assms
      clock_from_tid [OF assms(1,2)] clock_run_accepted
    by (simp add: NewTIDClock_def)
qed

theorem clock_monotonic_witness:
  "sorted_wrt (<) (clock_run [1700000000000000, 1600000000000000, 1600000000000000] (NewTIDClock 7))"
proof -
  let ?t = "[50, 50, 50, 50, 50, 50, 50, 50, 50, 50, 50, 50, 50] :: bytes"
  have "ParseTID ?t = Inr ?t" by code_simp
  moreover have "Integer ?t = 0" by code_simp
  ultimately show ?thesis
    using clock_monotonic [of ?t 1800000000000000 "[1700000000000000, 1600000000000000, 1600000000000000]" 7] by simp
qed

text \<open>C38: The bound is needed: from the greatest identifier of 63 bits the clock continues, at any time below \<^verbatim>\<open>2^53\<close>
  microseconds, with a smaller one.\<close>

theorem clock_wraps:
  assumes "sint now < 2 ^ 53"
  shows "let t = NewTIDFromInteger 0x7FFFFFFFFFFFFFFF in ParseTID t = Inr t \<and> fst (clock_Next now (ClockFromTID t)) < t"
proof -
  let ?t = "NewTIDFromInteger 0x7FFFFFFFFFFFFFFF"
  have i: "Integer ?t = 0x7FFFFFFFFFFFFFFF" by (simp add: Integer_NewTID)
  have "lastUnixMicro (ClockFromTID ?t) = 0x1FFFFFFFFFFFFF" "ClockID (ClockFromTID ?t) = 0x3FF"
    unfolding ClockFromTID_def tid_ClockID_def i by simp_all
  then have "fst (clock_Next now (ClockFromTID ?t)) = NewTID 0x20000000000000 0x3FF"
    using assms by (simp add: clock_Next_def Let_def)
  moreover have "NewTID 0x20000000000000 0x3FF = NewTIDFromInteger 0x3FF" by (simp add: NewTID_def)
  moreover have "NewTIDFromInteger 0x3FF < ?t" by (rule tid_less) simp_all
  ultimately show ?thesis by (simp add: tid_accepted)
qed

theorem clock_wraps_witness:
  "fst (clock_Next 1700000000000000 (ClockFromTID (NewTIDFromInteger 0x7FFFFFFFFFFFFFFF))) < NewTIDFromInteger 0x7FFFFFFFFFFFFFFF"
  using clock_wraps [of 1700000000000000] by (simp add: Let_def)

subsection \<open>Paths\<close>

lemma split_at_covers: "x \<in> set cs \<Longrightarrow> x = sep \<or> (\<exists>l \<in> set (split_at sep cs). x \<in> set l)"
  by (induction cs) (auto split: list.splits)

lemma nsid_characters:
  assumes "nsidRegex raw" "x \<in> set raw"
  shows "isASCIIAlphaNum x \<or> x = 45 \<or> x = 46"
proof -
  let ?ls = "split_at 46 raw"
  obtain l ls where ls: "?ls = l # ls" "ls \<noteq> []" using assms(1) by (cases ?ls; cases "tl ?ls") (auto simp: nsidRegex_def)
  have "set ?ls = {l} \<union> set (butlast ls) \<union> {last ls}"
    using ls append_butlast_last_id [OF ls(2)] by (metis Un_insert_left list.simps(15) set_append sup_bot_left empty_set Un_assoc)
  moreover have "nsid_label l" "list_all nsid_label (butlast ls)" "nsid_name (last ls)"
    using assms(1) ls by (simp_all add: nsidRegex_def Let_def)
  ultimately show ?thesis
    using split_at_covers [OF assms(2), of 46] by (auto simp: nsid_label_def nsid_name_def list_all_iff)
qed

lemma no_slash: "isASCIIAlphaNum x \<or> x \<in> {45, 46, 58, 95, 126} \<Longrightarrow> x \<noteq> 47"
  by (auto simp: isASCIIAlphaNum_def isLower_def isUpper_def isDigit_def)

lemma splitN_two:
  "splitN 3 sep raw = [a, b] \<longleftrightarrow> raw = a @ sep # b \<and> sep \<notin> set a \<and> sep \<notin> set b"
proof
  assume *: "splitN 3 sep raw = [a, b]"
  then obtain c where d: "dropWhile (\<lambda>c. c \<noteq> sep) raw = c # b" "a = takeWhile (\<lambda>c. c \<noteq> sep) raw" "dropWhile (\<lambda>c. c \<noteq> sep) b = []"
    by (auto simp: numeral_3_eq_3 split: list.splits)
  then have "c = sep" using hd_dropWhile [of "\<lambda>c. c \<noteq> sep" raw] by simp
  then show "raw = a @ sep # b \<and> sep \<notin> set a \<and> sep \<notin> set b"
    using d takeWhile_dropWhile_id [of "\<lambda>c. c \<noteq> sep" raw] by (auto simp: dropWhile_eq_Nil_conv dest: set_takeWhileD)
next
  assume "raw = a @ sep # b \<and> sep \<notin> set a \<and> sep \<notin> set b"
  moreover from this have "takeWhile (\<lambda>c. c \<noteq> sep) raw = a" "dropWhile (\<lambda>c. c \<noteq> sep) raw = sep # b" "dropWhile (\<lambda>c. c \<noteq> sep) b = []"
    by (subst takeWhile_append2 dropWhile_append2 | auto simp: dropWhile_eq_Nil_conv)+
  ultimately show "splitN 3 sep raw = [a, b]" by (simp add: numeral_3_eq_3 del: dropWhile_eq_Nil_conv)
qed

lemma ParseNSID_Inr: "ParseNSID raw = Inr n \<longleftrightarrow> n = raw \<and> raw \<noteq> [] \<and> length raw \<le> 317 \<and> nsidRegex raw"
  by (auto simp: ParseNSID_def)

lemma ParseRecordKey_Inr:
  "ParseRecordKey raw = Inr n \<longleftrightarrow> n = raw \<and> length raw \<le> 512 \<and> raw \<noteq> [46] \<and> raw \<noteq> [46, 46] \<and> recordKeyRegex raw"
  by (auto simp: ParseRecordKey_def recordKeyRegex_def)

text \<open>C23: A path is accepted exactly when it is a collection name and a record key that their own parsers accept, joined by one
  slash; the parser returns the two parts. Every accepted path is a valid key of the tree, of at most 830 bytes.\<close>

theorem repo_path_type:
  "ParseRepoPath raw = Inr (nsid, rkey) \<longleftrightarrow>
     ParseNSID nsid = Inr nsid \<and> ParseRecordKey rkey = Inr rkey \<and> raw = nsid @ 47 # rkey \<and> IsValidKey raw \<and> length raw \<le> 830"
proof -
  have "47 \<notin> set nsid" if "nsidRegex nsid" using that nsid_characters no_slash by fastforce
  moreover have "47 \<notin> set rkey" if "recordKeyRegex rkey"
    using that no_slash by (fastforce simp: recordKeyRegex_def list_all_iff)
  ultimately have "splitN 3 47 (nsid @ 47 # rkey) = [nsid, rkey]" if "nsidRegex nsid" "recordKeyRegex rkey"
    using that by (simp add: splitN_two)
  moreover have "raw = nsid @ 47 # rkey \<and> nsid = nsid' \<and> rkey = rkey'"
    if "splitN 3 47 raw = [nsid, rkey]" "ParseNSID nsid = Inr nsid'" "ParseRecordKey rkey = Inr rkey'" for nsid rkey nsid' rkey'
    using that splitN_two [of 47 raw nsid rkey] by (simp add: ParseNSID_Inr ParseRecordKey_Inr)
  moreover have "ParseRepoPath raw = Inr (nsid, rkey) \<longleftrightarrow>
      (\<exists>a b. splitN 3 47 raw = [a, b] \<and> ParseNSID a = Inr nsid \<and> ParseRecordKey b = Inr rkey)"
    by (auto simp: ParseRepoPath_def Let_def rbind_Inr_iff length_Suc_conv numeral_2_eq_2)
  ultimately show ?thesis
    by (auto simp: ParseNSID_Inr ParseRecordKey_Inr IsValidKey_def MAX_KEY_BYTES_def)
qed

subsection \<open>Account identifiers\<close>

lemma did_plc_regex:
  assumes "length raw = 32" "take 8 raw = [100, 105, 100, 58, 112, 108, 99, 58]" "list_all isASCIIAlphaNum (drop 8 raw)"
  shows "didRegex raw"
proof -
  define ident where "ident = drop 8 raw"
  have raw: "raw = [100, 105, 100, 58, 112, 108, 99, 58] @ ident"
    using append_take_drop_id [of 8 raw] assms(2) by (simp add: ident_def)
  have i: "ident \<noteq> []" "list_all isASCIIAlphaNum ident" using assms(1,3) by (auto simp: ident_def)
  then have "isASCIIAlphaNum (last ident)" by (simp add: list_all_iff)
  then show ?thesis using i unfolding raw didRegex_def Let_def by (simp add: isLower_def list_all_iff)
qed

text \<open>The path of the parser that accepts the common form of account identifiers without the regular expression changes
  nothing: the parser accepts and refuses, with the same errors, what the length check and the regular expression alone would.\<close>

lemma did_fast_path:
  "ParseDID raw =
     (if raw = [] then Inl ErrEmpty
      else if length raw > 2048 then Inl ErrLength
      else if didRegex raw then Inr raw
      else Inl ErrRegex)"
  using did_plc_regex [of raw] by (auto simp: ParseDID_def)

end
