(* ===== verification/RepoCommit.thy ===== *)
theory RepoCommit
  imports MstPartial Syntax
begin

text \<open>
  Commit objects (\<^verbatim>\<open>atproto/repo/commit.go\<close>), their CBOR codec (\<^verbatim>\<open>cbor_gen.go\<close>), and repositories read from an archive
  (\<^verbatim>\<open>car.go\<close>, \<^verbatim>\<open>repo.go\<close>, \<^verbatim>\<open>tiny_blockstore.go\<close>). A \<^verbatim>\<open>nil\<close> signature is \<open>None\<close>. The archive reader is a package outside the
  repository: \<open>carfile\<close> is what it reads from the bytes of a message. Keys are an interface of the code, with a function
  that signs and one that verifies.
\<close>

datatype repo_error =
    ErrSyntax syntax_error | ErrMst mst_error
  | ErrCar | ErrCarVersion | ErrNoRoot | ErrNoCommit
  | ErrVersion | ErrEmptySig | ErrUnsigned | ErrSign | ErrSignature | ErrIdentity
  | ErrRev | ErrDid | ErrNotFound | ErrRecord
  | ErrInvalidOp | ErrOpValue | ErrInvert | ErrDuplicate | ErrRepoOp | ErrPrevData

definition mapErr :: "('a \<Rightarrow> 'b) \<Rightarrow> ('a, 'c) result \<Rightarrow> ('b, 'c) result" where
  "mapErr f r = map_sum f id r"

lemma mapErr_simps [simp]: "mapErr f (Inl err) = Inl (f err)" "mapErr f (Inr x) = Inr x"
  by (simp_all add: mapErr_def)

lemma mapErr_Inr [simp]: "mapErr f r = Inr x \<longleftrightarrow> r = Inr x"
  by (cases r) (simp_all add: mapErr_def)

subsection \<open>Commits\<close>

record Commit =
  DID :: bytes
  Version :: i64
  Prev :: "cid option"
  Data :: cid
  Sig :: "bytes option"
  Rev :: bytes

definition ATPROTO_REPO_VERSION :: i64 where "ATPROTO_REPO_VERSION = 3"

definition VerifyStructure :: "Commit \<Rightarrow> (repo_error, unit) result" where
  "VerifyStructure c =
     (if Version c \<noteq> ATPROTO_REPO_VERSION then Inl ErrVersion
      else if length (case Sig c of None \<Rightarrow> [] | Some s \<Rightarrow> s) = 0 then Inl ErrEmptySig
      else rbind (mapErr ErrSyntax (ParseDID (DID c))) (\<lambda>_. rbind (mapErr ErrSyntax (ParseTID (Rev c))) (\<lambda>_. Inr ())))"

definition write_text :: "cborlib \<Rightarrow> bytes \<Rightarrow> bytes" where
  "write_text L s = WriteMajorTypeHeader L MajTextString (word_of_nat (length s)) @ s"

definition write_bytes :: "cborlib \<Rightarrow> bytes \<Rightarrow> bytes" where
  "write_bytes L s = WriteMajorTypeHeader L MajByteString (word_of_nat (length s)) @ s"

abbreviation (input) name_did :: bytes where "name_did \<equiv> [100, 105, 100]"
abbreviation (input) name_rev :: bytes where "name_rev \<equiv> [114, 101, 118]"
abbreviation (input) name_sig :: bytes where "name_sig \<equiv> [115, 105, 103]"
abbreviation (input) name_data :: bytes where "name_data \<equiv> [100, 97, 116, 97]"
abbreviation (input) name_prev :: bytes where "name_prev \<equiv> [112, 114, 101, 118]"
abbreviation (input) name_version :: bytes where "name_version \<equiv> [118, 101, 114, 115, 105, 111, 110]"

definition fieldCount :: "Commit \<Rightarrow> nat" where
  "fieldCount t = 6 - (if Sig t = None then 1 else 0) - (if Rev t = [] then 1 else 0)"

definition Commit_MarshalCBOR :: "cborlib \<Rightarrow> Commit \<Rightarrow> (mst_error, bytes) result" where
  "Commit_MarshalCBOR L t =
     (if int (length (DID t)) > 1000000 then Inl ErrEncoding
      else if Rev t \<noteq> [] \<and> int (length (Rev t)) > 1000000 then Inl ErrEncoding
      else if Sig t \<noteq> None \<and> int (length (the (Sig t))) > 2097152 then Inl ErrEncoding
      else rbind (lift_read (WriteCid L (Data t))) (\<lambda>data.
        rbind (write_link L (Prev t)) (\<lambda>prev.
          Inr (WriteMajorTypeHeader L MajMap (word_of_nat (fieldCount t)) @
            write_text L name_did @ write_text L (DID t) @
            (if Rev t \<noteq> [] then write_text L name_rev @ write_text L (Rev t) else []) @
            (case Sig t of Some s \<Rightarrow> write_text L name_sig @ write_bytes L s | None \<Rightarrow> []) @
            write_text L name_data @ data @
            write_text L name_prev @ prev @
            write_text L name_version @ write_int64 L (Version t)))))"

text \<open>The signature of an empty byte string stays as it was.\<close>

definition read_sig :: "cborlib \<Rightarrow> bytes option \<Rightarrow> bytes \<Rightarrow> (mst_error, bytes option \<times> bytes) result" where
  "read_sig L old r =
     rbind (read_key_suffix L (case old of None \<Rightarrow> [] | Some s \<Rightarrow> s) r) (\<lambda>(s, r). Inr (if s = [] then old else Some s, r))"

definition commit_field :: "cborlib \<Rightarrow> bytes \<Rightarrow> Commit \<Rightarrow> bytes \<Rightarrow> (mst_error, Commit \<times> bytes) result" where
  "commit_field L name t r =
     (if name = name_did then rbind (lift_read (ReadStringWithMax L r)) (\<lambda>(s, r). Inr (t\<lparr>DID := s\<rparr>, r))
      else if name = name_rev then rbind (lift_read (ReadStringWithMax L r)) (\<lambda>(s, r). Inr (t\<lparr>Rev := s\<rparr>, r))
      else if name = name_sig then rbind (read_sig L (Sig t) r) (\<lambda>(s, r). Inr (t\<lparr>Sig := s\<rparr>, r))
      else if name = name_data then rbind (lift_read (ReadCid L r)) (\<lambda>(c, r). Inr (t\<lparr>Data := c\<rparr>, r))
      else if name = name_prev then rbind (read_link L (Prev t) r) (\<lambda>(c, r). Inr (t\<lparr>Prev := c\<rparr>, r))
      else if name = name_version then rbind (read_int64 L r) (\<lambda>(v, r). Inr (t\<lparr>Version := v\<rparr>, r))
      else rbind (lift_read (ScanForLinks L r)) (\<lambda>r. Inr (t, r)))"

definition Commit_UnmarshalCBOR :: "cborlib \<Rightarrow> bytes \<Rightarrow> (mst_error, Commit \<times> bytes) result" where
  "Commit_UnmarshalCBOR L r =
     read_map L 7 (commit_field L) \<lparr> DID = [], Version = 0, Prev = None, Data = [], Sig = None, Rev = [] \<rparr> r"

definition UnsignedBytes :: "cborlib \<Rightarrow> Commit \<Rightarrow> (mst_error, bytes) result" where
  "UnsignedBytes L c = (if Sig c = None then Commit_MarshalCBOR L c else Commit_MarshalCBOR L (c\<lparr>Sig := None\<rparr>))"

text \<open>Signing and verifying with the functions of a key.\<close>

definition Sign :: "cborlib \<Rightarrow> (bytes \<Rightarrow> bytes option) \<Rightarrow> Commit \<Rightarrow> (repo_error, Commit) result" where
  "Sign L HashAndSign c =
     rbind (mapErr ErrMst (UnsignedBytes L c)) (\<lambda>b.
       case HashAndSign b of None \<Rightarrow> Inl ErrSign | Some sig \<Rightarrow> Inr (c\<lparr>Sig := Some sig\<rparr>))"

definition VerifySignature :: "cborlib \<Rightarrow> (bytes \<Rightarrow> bytes \<Rightarrow> bool) \<Rightarrow> Commit \<Rightarrow> (repo_error, unit) result" where
  "VerifySignature L HashAndVerify c =
     (case Sig c of
        None \<Rightarrow> Inl ErrUnsigned
      | Some sig \<Rightarrow> rbind (mapErr ErrMst (UnsignedBytes L c)) (\<lambda>b. if HashAndVerify b sig then Inr () else Inl ErrSignature))"

subsection \<open>Archives and repositories\<close>

text \<open>What the archive reader finds: the header, the blocks in the order \<^verbatim>\<open>Next\<close> gives them, and whether they end with the
  end of the file or with an error.\<close>

record carfile =
  car_Version :: nat
  car_Roots :: "cid list"
  car_Blocks :: "(cid \<times> bytes) list"
  car_EOF :: bool

type_synonym TinyBlockstore = "cid \<rightharpoonup> bytes"

definition NewTinyBlockstore :: TinyBlockstore where "NewTinyBlockstore = Map.empty"

definition tb_Put :: "cid \<times> bytes \<Rightarrow> TinyBlockstore \<Rightarrow> TinyBlockstore" where
  "tb_Put blk tb = tb(fst blk \<mapsto> snd blk)"

definition tb_Get :: "TinyBlockstore \<Rightarrow> cid \<Rightarrow> (mst_error, bytes) result" where
  "tb_Get tb c = (case tb c of None \<Rightarrow> Inl ErrMissingBlock | Some b \<Rightarrow> Inr b)"

record Repo =
  repo_DID :: bytes
  Clock :: TIDClock
  RecordStore :: TinyBlockstore
  MST :: Tree

definition decode_commit :: "cborlib \<Rightarrow> bytes \<Rightarrow> (repo_error, Commit) result" where
  "decode_commit L b =
     rbind (mapErr ErrMst (Commit_UnmarshalCBOR L b)) (\<lambda>(commit, _). rbind (VerifyStructure commit) (\<lambda>_. Inr commit))"

definition LoadRepoFromCAR :: "cborlib \<Rightarrow> nat \<Rightarrow> carfile option \<Rightarrow> (repo_error, Commit \<times> Repo) result option" where
  "LoadRepoFromCAR L fuel cr =
     (case cr of
        None \<Rightarrow> Some (Inl ErrCar)
      | Some cr \<Rightarrow>
          if car_Version cr \<noteq> 1 then Some (Inl ErrCarVersion)
          else if length (car_Roots cr) < 1 then Some (Inl ErrNoRoot)
          else if \<not> car_EOF cr then Some (Inl ErrCar)
          else
            let bs = fold tb_Put (car_Blocks cr) NewTinyBlockstore in
            fbind (Some (rbind (mapErr ErrMst (tb_Get bs (hd (car_Roots cr)))) (decode_commit L))) (\<lambda>commit.
              fbind (map_option (mapErr ErrMst) (LoadTreeFromStore L (tb_Get bs) fuel (Data commit))) (\<lambda>tree.
                Some (Inr (commit,
                  \<lparr> repo_DID = DID commit, Clock = ClockFromTID (Rev commit), RecordStore = bs, MST = tree \<rparr>)))))"

definition LoadCommitFromCAR :: "cborlib \<Rightarrow> carfile option \<Rightarrow> (repo_error, Commit \<times> cid) result" where
  "LoadCommitFromCAR L cr =
     (case cr of
        None \<Rightarrow> Inl ErrCar
      | Some cr \<Rightarrow>
          if car_Version cr \<noteq> 1 then Inl ErrCarVersion
          else if length (car_Roots cr) < 1 then Inl ErrNoRoot
          else
            let commitCID = hd (car_Roots cr) in
            case map_of (car_Blocks cr) commitCID of
              None \<Rightarrow> Inl (if car_EOF cr then ErrNoCommit else ErrCar)
            | Some b \<Rightarrow> rbind (decode_commit L b) (\<lambda>commit. Inr (commit, commitCID)))"

definition GetRecordCID :: "Repo \<Rightarrow> bytes \<Rightarrow> bytes \<Rightarrow> (repo_error, cid) result" where
  "GetRecordCID repo collection rkey =
     rbind (mapErr ErrMst (Get (MST repo) (collection @ [47] @ rkey))) (\<lambda>c.
       case c of None \<Rightarrow> Inl ErrNotFound | Some c \<Rightarrow> Inr c)"

definition GetRecordBytes :: "Repo \<Rightarrow> bytes \<Rightarrow> bytes \<Rightarrow> (repo_error, bytes \<times> cid) result" where
  "GetRecordBytes repo collection rkey =
     rbind (GetRecordCID repo collection rkey) (\<lambda>c.
       rbind (mapErr ErrMst (tb_Get (RecordStore repo) c)) (\<lambda>b. Inr (b, c)))"

text \<open>\<^verbatim>\<open>Commit\<close> of a repository at a time of the system clock.\<close>

definition repo_Commit :: "cborlib \<Rightarrow> i64 \<Rightarrow> Repo \<Rightarrow> (repo_error, Commit \<times> Repo) result" where
  "repo_Commit L now repo =
     rbind (mapErr ErrMst (RootCID L (MST repo))) (\<lambda>(root, tree).
       case clock_Next now (Clock repo) of (tid, clock) \<Rightarrow>
         Inr (\<lparr> DID = repo_DID repo, Version = ATPROTO_REPO_VERSION, Prev = None, Data = root, Sig = None, Rev = tid \<rparr>,
              repo\<lparr>Clock := clock, MST := tree\<rparr>))"

text \<open>\<^verbatim>\<open>VerifyCommitSignatureFromCar\<close>, with the lookup of an account's public key.\<close>

definition VerifyCommitSignatureFromCar ::
    "cborlib \<Rightarrow> (bytes \<Rightarrow> (bytes \<Rightarrow> bytes \<Rightarrow> bool) option) \<Rightarrow> carfile option \<Rightarrow> (repo_error, Commit) result" where
  "VerifyCommitSignatureFromCar L LookupKey cr =
     rbind (LoadCommitFromCAR L cr) (\<lambda>(commit, _).
       rbind (VerifyStructure commit) (\<lambda>_.
         rbind (mapErr ErrSyntax (ParseDID (DID commit))) (\<lambda>did.
           case LookupKey did of
             None \<Rightarrow> Inl ErrIdentity
           | Some pubkey \<Rightarrow> rbind (VerifySignature L pubkey commit) (\<lambda>_. Inr commit))))"

subsection \<open>Round trip and signatures\<close>

definition is_ascii :: "bytes \<Rightarrow> bool" where
  "is_ascii s \<longleftrightarrow> list_all (\<lambda>x. x < 128) s"

lemma read_text:
  assumes "cbor_laws L" "length s \<le> 1000000" "is_ascii s"
  shows "ReadStringWithMax L (write_text L s @ r) = Some (s, r)"
  using assms by (simp add: cbor_laws_def write_text_def is_ascii_def)

lemma read_name:
  assumes "cbor_laws L" "length s \<le> 7"
  shows "ReadFullStringIntoBuf L 7 (write_text L s @ r) = Some (Some s, r)"
  using cbor_text [OF assms(1), of 7 s r] assms(2) by (simp add: write_text_def)

lemma read_sig_written:
  assumes "cbor_laws L" "length s \<le> 2097152" "s \<noteq> []"
  shows "read_sig L None (write_bytes L s @ r) = Inr (Some s, r)"
  using cbor_key_suffix [OF assms(1,2), of r] assms(3) by (simp add: read_sig_def write_bytes_def)

lemma read_commit_map:
  assumes "cbor_laws L" "n \<le> 6"
  shows "read_map L k field t (WriteMajorTypeHeader L MajMap (word_of_nat n) @ r) = read_fields L k field n t r"
proof -
  have u: "unat (word_of_nat n :: u64) = n" using assms(2) by (intro unat_of_nat_less) simp
  then have "(word_of_nat n :: u64) \<le> 6" using assms(2) by (simp add: word_le_nat_alt)
  then show ?thesis
    using cbor_header [OF assms(1), of 5] cbor_max [OF assms(1)] u by (simp add: read_map_def del: read_fields.simps)
qed

lemma commit_roundtrip:
  assumes "cbor_laws L" "Commit_MarshalCBOR L c = Inr b" "is_ascii (DID c)" "is_ascii (Rev c)" "Sig c \<noteq> Some []"
  shows "Commit_UnmarshalCBOR L (b @ r) = Inr (c, r)"
proof -
  obtain data prev where w: "WriteCid L (Data c) = Some data" "write_link L (Prev c) = Inr prev" "length (DID c) \<le> 1000000"
      "length (Rev c) \<le> 1000000" "Sig c \<noteq> None \<Longrightarrow> length (the (Sig c)) \<le> 2097152"
    and b: "b = WriteMajorTypeHeader L MajMap (word_of_nat (fieldCount c)) @ write_text L name_did @ write_text L (DID c) @
      (if Rev c \<noteq> [] then write_text L name_rev @ write_text L (Rev c) else []) @
      (case Sig c of Some s \<Rightarrow> write_text L name_sig @ write_bytes L s | None \<Rightarrow> []) @
      write_text L name_data @ data @ write_text L name_prev @ prev @ write_text L name_version @ write_int64 L (Version c)"
    using assms(2) by (auto simp: Commit_MarshalCBOR_def rbind_Inr_iff split: if_split_asm)
  have sig: "read_sig L None (write_bytes L s @ r) = Inr (Some s, r)" if "Sig c = Some s" for s r
    using read_sig_written [OF assms(1), of s] w(5) assms(5) that by auto
  note simps = read_name [OF assms(1)] read_text [OF assms(1) w(3) assms(3)] read_text [OF assms(1) w(4) assms(4)]
    cbor_cid [OF assms(1) w(1)] cbor_link [OF assms(1) w(2)] cbor_int64 [OF assms(1)]
  have "fieldCount c \<le> 6" by (simp add: fieldCount_def)
  note m = read_commit_map [OF assms(1) this]
  have n: "fieldCount c = Suc ((if Rev c = [] then 0 else 1) + (if Sig c = None then 0 else 1) + 3)"
    by (simp add: fieldCount_def)
  show ?thesis
    unfolding Commit_UnmarshalCBOR_def b append_assoc m unfolding n
    by (cases "Rev c = []"; cases "Sig c"; simp add: simps sig commit_field_def numeral_3_eq_3; cases c; simp)
qed

lemma unsigned_fields:
  assumes "cbor_laws L" "UnsignedBytes L c = Inr b" "UnsignedBytes L d = Inr b" "is_ascii (DID c)" "is_ascii (Rev c)"
    "is_ascii (DID d)" "is_ascii (Rev d)"
  shows "c\<lparr>Sig := None\<rparr> = d\<lparr>Sig := None\<rparr>"
proof -
  have u: "Commit_MarshalCBOR L (x\<lparr>Sig := None\<rparr>) = Inr b" if "UnsignedBytes L x = Inr b" for x
    using that by (cases x) (auto simp: UnsignedBytes_def split: if_splits)
  have "Commit_UnmarshalCBOR L (b @ []) = Inr (c\<lparr>Sig := None\<rparr>, [])" "Commit_UnmarshalCBOR L (b @ []) = Inr (d\<lparr>Sig := None\<rparr>, [])"
    by (rule commit_roundtrip [OF assms(1) u]; use assms in simp)+
  then show ?thesis by simp
qed

subsection \<open>Commits of a repository\<close>

lemma alnum_ascii: "isASCIIAlphaNum c \<Longrightarrow> c < 128"
proof -
  assume "isASCIIAlphaNum c"
  then have "c \<le> 122" unfolding isASCIIAlphaNum_def isLower_def isUpper_def isDigit_def by (auto simp: word_le_nat_alt)
  then show "c < 128" by (rule le_less_trans) simp
qed

lemma did_ascii:
  assumes "ParseDID d = Inr d'"
  shows "is_ascii d"
proof -
  have "didRegex d" using assms did_plc_regex by (auto simp: ParseDID_def split: if_splits)
  moreover define m where "m = takeWhile isLower (drop 4 d)"
  moreover have "drop (length m) (drop 4 d) = dropWhile isLower (drop 4 d)" unfolding m_def by (rule dropWhile_eq_drop [symmetric])
  moreover from this have "drop (Suc (length m)) (drop 4 d) = tl (dropWhile isLower (drop 4 d))" by (metis drop_Suc tl_drop)
  ultimately obtain i where d: "take 4 d = [100, 105, 100, 58]" "dropWhile isLower (drop 4 d) = 58 # i"
    "list_all (\<lambda>c. isASCIIAlphaNum c \<or> c \<in> {46, 95, 58, 37, 45}) i"
    unfolding didRegex_def Let_def by (cases "dropWhile isLower (drop 4 d)") auto
  have "d = [100, 105, 100, 58] @ m @ 58 # i"
    using append_take_drop_id [of 4 d] takeWhile_dropWhile_id [of isLower "drop 4 d"] unfolding d m_def by simp
  moreover have "list_all isLower m" unfolding m_def by (auto simp: list_all_iff dest: set_takeWhileD)
  then have "list_all (\<lambda>x. x < 128) m" using alnum_ascii by (auto simp: list_all_iff isASCIIAlphaNum_def)
  moreover have "list_all (\<lambda>x. x < 128) i" using d(3) alnum_ascii by (auto simp: list_all_iff)
  ultimately show ?thesis by (simp add: is_ascii_def)
qed

lemma tid_ascii:
  assumes "ParseTID t = Inr t'"
  shows "is_ascii t"
proof -
  have "tidRegex t" using assms by (auto simp: ParseTID_def split: if_splits)
  moreover have "\<forall>x \<in> set Base32SortAlphabet. x < 128" by (simp add: Base32SortAlphabet_def)
  ultimately show ?thesis
    by (auto simp: tidRegex_def is_ascii_def list_all_iff split: list.splits dest: in_set_takeD)
qed

lemma UnsignedBytes_Sig: "UnsignedBytes L (c\<lparr>Sig := s\<rparr>) = UnsignedBytes L c"
  by (cases c) (simp add: UnsignedBytes_def)

lemma repo_Commit_fields:
  assumes "repo_Commit L now repo = Inr (c, repo')"
  shows "DID c = repo_DID repo" "Version c = ATPROTO_REPO_VERSION" "ParseTID (Rev c) = Inr (Rev c)" "Sig c = None"
    "\<exists>t. RootCID L (MST repo) = Inr (Data c, t)"
  using assms tid_accepted by (auto simp: repo_Commit_def rbind_Inr_iff clock_Next_def Let_def NewTID_def)

text \<open>C13: A commit that a repository makes and signs is read back from its block as it was, passes the structural check, and its
  signature is verified by the public key; its data is the root identifier of the tree. A commit whose signed bytes are the
  same has the same fields, so that the signature stands for them.\<close>

theorem signed_commit_verifies:
  assumes "cbor_laws L" "ParseDID (repo_DID repo) = Inr did" "repo_Commit L now repo = Inr (c, repo')" "Sign L HashAndSign c = Inr c'"
    "\<forall>m s. HashAndSign m = Some s \<longrightarrow> s \<noteq> [] \<and> HashAndVerify m s" "Commit_MarshalCBOR L c' = Inr b"
  shows "decode_commit L b = Inr c' \<and> VerifySignature L HashAndVerify c' = Inr () \<and> (\<exists>t. RootCID L (MST repo) = Inr (Data c', t)) \<and>
    (\<forall>d. UnsignedBytes L d = UnsignedBytes L c' \<and> is_ascii (DID d) \<and> is_ascii (Rev d) \<longrightarrow> d\<lparr>Sig := None\<rparr> = c)"
proof -
  note f = repo_Commit_fields [OF assms(3)]
  obtain m sig where s: "UnsignedBytes L c = Inr m" "HashAndSign m = Some sig" "c' = c\<lparr>Sig := Some sig\<rparr>"
    using assms(4) by (auto simp: Sign_def rbind_Inr_iff split: option.splits)
  have a: "is_ascii (DID c')" "is_ascii (Rev c')" using did_ascii [OF assms(2)] tid_ascii [OF f(3)] s(3) f(1) by simp_all
  have u: "UnsignedBytes L c' = Inr m" using s(1,3) UnsignedBytes_Sig by simp
  have n: "sig \<noteq> []" "HashAndVerify m sig" using assms(5) s(2) by auto
  have "ParseDID (DID c') = Inr did" "ParseTID (Rev c') = Inr (Rev c')" "Version c' = ATPROTO_REPO_VERSION" "Sig c' = Some sig"
    using s(3) f assms(2) by simp_all
  then have "VerifyStructure c' = Inr ()" using n(1) by (simp add: VerifyStructure_def)
  then have "decode_commit L b = Inr c'"
    using commit_roundtrip [OF assms(1,6) a, of "[]"] s(3) n(1) by (simp add: decode_commit_def)
  moreover have "VerifySignature L HashAndVerify c' = Inr ()" using s(3) u n(2) by (simp add: VerifySignature_def)
  moreover have "d\<lparr>Sig := None\<rparr> = c" if "UnsignedBytes L d = UnsignedBytes L c'" "is_ascii (DID d)" "is_ascii (Rev d)" for d
    using unsigned_fields [OF assms(1) that(1) [unfolded u] u that(2,3) a] s(3) f(4) by (cases c) simp
  ultimately show ?thesis using f(5) s(3) by auto
qed

definition sample_repo :: Repo where
  "sample_repo = \<lparr> repo_DID = [100, 105, 100, 58, 120, 58, 121], Clock = NewTIDClock 7, RecordStore = Map.empty, MST = NewEmptyTree \<rparr>"

definition sample_sign :: "bytes \<Rightarrow> bytes option" where "sample_sign m = Some [word_of_nat (length m)]"

lemma sample_root: "(case RootCID sample_lib NewEmptyTree of Inl _ \<Rightarrow> False | Inr (c, _) \<Rightarrow> length c = 7)"
  by code_simp

lemma marshal_accepts:
  assumes "length (DID t) \<le> 1000000" "length (Rev t) \<le> 1000000" "Sig t \<noteq> None \<Longrightarrow> length (the (Sig t)) \<le> 2097152"
    "WriteCid L (Data t) = Some d" "Prev t = None"
  shows "\<exists>b. Commit_MarshalCBOR L t = Inr b"
  using assms by (auto simp: Commit_MarshalCBOR_def write_link_def)

lemma sample_commit:
  obtains c r where "repo_Commit sample_lib 1700000000000000 sample_repo = Inr (c, r)" "length (DID c) \<le> 1000000"
    "length (Rev c) \<le> 1000000" "\<exists>d. WriteCid sample_lib (Data c) = Some d" "Prev c = None" "Sig c = None"
proof -
  obtain x t where x: "RootCID sample_lib NewEmptyTree = Inr (x, t)" "length x = 7"
    using sample_root by (cases "RootCID sample_lib NewEmptyTree") auto
  have "WriteCid sample_lib x \<noteq> None" using x(2) by (auto simp: sample_lib_def)
  then show thesis using that x by (auto simp: repo_Commit_def sample_repo_def clock_Next_def Let_def NewTID_def)
qed

theorem signed_commit_verifies_witness:
  "\<exists>c r c' b. repo_Commit sample_lib 1700000000000000 sample_repo = Inr (c, r) \<and> Sign sample_lib sample_sign c = Inr c' \<and>
     VerifySignature sample_lib (\<lambda>m s. s = [word_of_nat (length m)]) c' = Inr () \<and> decode_commit sample_lib b = Inr c'"
proof -
  obtain c r where c: "repo_Commit sample_lib 1700000000000000 sample_repo = Inr (c, r)" "length (DID c) \<le> 1000000"
    "length (Rev c) \<le> 1000000" "\<exists>d. WriteCid sample_lib (Data c) = Some d" "Prev c = None" "Sig c = None"
    by (rule sample_commit)
  obtain m where m: "Commit_MarshalCBOR sample_lib c = Inr m" using marshal_accepts [of c sample_lib] c by auto
  then have s: "Sign sample_lib sample_sign c = Inr (c\<lparr>Sig := Some [word_of_nat (length m)]\<rparr>)"
    using c(6) by (simp add: Sign_def UnsignedBytes_def sample_sign_def)
  obtain b where b: "Commit_MarshalCBOR sample_lib (c\<lparr>Sig := Some [word_of_nat (length m)]\<rparr>) = Inr b"
    using marshal_accepts [of "c\<lparr>Sig := Some [word_of_nat (length m)]\<rparr>" sample_lib] c by auto
  have "ParseDID (repo_DID sample_repo) = Inr (repo_DID sample_repo)" by (simp add: sample_repo_def) code_simp
  from signed_commit_verifies [OF sample_lib_laws this c(1) s _ b, of "\<lambda>m s. s = [word_of_nat (length m)]"]
  show ?thesis using c(1) s by (auto simp: sample_sign_def)
qed

end
