(* ===== verification/RepoOps.thy ===== *)
theory RepoOps
  imports RepoCommit
begin

text \<open>
  Operations on a repository and the check of a commit message (\<^verbatim>\<open>atproto/repo/operation.go\<close>, \<^verbatim>\<open>sync.go\<close>): the operations of the
  message are inverted on the tree that its blocks give, and the root identifier of the result must be that of the previous
  state.
\<close>

subsection \<open>Operations\<close>

record Operation =
  OpPath :: bytes
  OpValue :: "cid option"
  OpPrev :: "cid option"

definition IsCreate :: "Operation \<Rightarrow> bool" where
  "IsCreate op \<longleftrightarrow> OpValue op \<noteq> None \<and> OpPrev op = None"

definition IsUpdate :: "Operation \<Rightarrow> bool" where
  "IsUpdate op \<longleftrightarrow> OpValue op \<noteq> None \<and> OpPrev op \<noteq> None \<and> the (OpValue op) \<noteq> the (OpPrev op)"

definition IsDelete :: "Operation \<Rightarrow> bool" where
  "IsDelete op \<longleftrightarrow> OpValue op = None \<and> OpPrev op \<noteq> None"

definition ApplyOp :: "Tree \<Rightarrow> bytes \<Rightarrow> cid option \<Rightarrow> (mst_error, Operation \<times> Tree) result" where
  "ApplyOp t path val =
     (case val of
        Some v \<Rightarrow> rbind (Insert t path v) (\<lambda>(t, prev). Inr (\<lparr> OpPath = path, OpValue = val, OpPrev = prev \<rparr>, t))
      | None \<Rightarrow> rbind (Remove t path) (\<lambda>(t, prev). Inr (\<lparr> OpPath = path, OpValue = val, OpPrev = prev \<rparr>, t)))"

definition CheckOp :: "Tree \<Rightarrow> Operation \<Rightarrow> (repo_error, unit) result" where
  "CheckOp t op =
     rbind (mapErr ErrMst (Get t (OpPath op))) (\<lambda>val.
       if IsCreate op \<or> IsUpdate op then (if val = None \<or> the val \<noteq> the (OpValue op) then Inl ErrOpValue else Inr ())
       else if IsDelete op then (if val \<noteq> None then Inl ErrOpValue else Inr ())
       else Inl ErrInvalidOp)"

definition InvertOp :: "Tree \<Rightarrow> Operation \<Rightarrow> (repo_error, Tree) result" where
  "InvertOp t op =
     (if IsCreate op then
        rbind (mapErr ErrMst (Remove t (OpPath op))) (\<lambda>(t, prev).
          if prev = None \<or> the prev \<noteq> the (OpValue op) then Inl ErrInvert else Inr t)
      else if IsUpdate op then
        rbind (mapErr ErrMst (Insert t (OpPath op) (the (OpPrev op)))) (\<lambda>(t, prev).
          if prev = None \<or> the prev \<noteq> the (OpValue op) then Inl ErrInvert else Inr t)
      else if IsDelete op then
        rbind (mapErr ErrMst (Insert t (OpPath op) (the (OpPrev op)))) (\<lambda>(t, prev).
          if prev \<noteq> None then Inl ErrInvert else Inr t)
      else Inl ErrInvalidOp)"

fun invert_ops :: "Operation list \<Rightarrow> Tree \<Rightarrow> (repo_error, Tree) result" where
  "invert_ops [] t = Inr t"
| "invert_ops (op # ops) t = rbind (InvertOp t op) (invert_ops ops)"

definition Less :: "Operation \<Rightarrow> Operation \<Rightarrow> bool" where
  "Less a b \<longleftrightarrow> (if IsDelete a \<and> \<not> IsDelete b then True else OpPath a < OpPath b)"

text \<open>The insertion sort that \<^verbatim>\<open>sort.Sort\<close> uses for at most twelve elements: an element moves left past those it is less than.
  The sorted part is kept in reverse.\<close>

fun move_left :: "Operation \<Rightarrow> Operation list \<Rightarrow> Operation list" where
  "move_left x [] = [x]"
| "move_left x (y # ys) = (if Less x y then y # move_left x ys else x # y # ys)"

definition insertionSort :: "Operation list \<Rightarrow> Operation list" where
  "insertionSort xs = rev (fold move_left xs [])"

text \<open>For longer lists the result of \<^verbatim>\<open>sort.Sort\<close> is a parameter; nothing but the elements of the result is used of it.\<close>

definition sort_ops :: "(Operation list \<Rightarrow> Operation list) \<Rightarrow> Operation list \<Rightarrow> Operation list" where
  "sort_ops pdqsort xs = (if length xs \<le> 12 then insertionSort xs else pdqsort xs)"

fun has_duplicate :: "Operation list \<Rightarrow> bytes set \<Rightarrow> bool" where
  "has_duplicate [] seen = False"
| "has_duplicate (op # ops) seen = (OpPath op \<in> seen \<or> has_duplicate ops (insert (OpPath op) seen))"

definition NormalizeOps :: "(Operation list \<Rightarrow> Operation list) \<Rightarrow> Operation list \<Rightarrow> (repo_error, Operation list) result" where
  "NormalizeOps pdqsort xs = (if has_duplicate xs {} then Inl ErrDuplicate else Inr (sort_ops pdqsort xs))"

subsection \<open>Commit messages\<close>

record RepoOp =
  Action :: bytes
  RopCid :: "cid option"
  RopPath :: bytes
  RopPrev :: "cid option"

record CommitMsg =
  msgRepo :: bytes
  msgRev :: bytes
  msgTime :: bytes
  msgBlocks :: bytes
  msgOps :: "RepoOp list"
  PrevData :: "cid option"

abbreviation (input) act_create :: bytes where "act_create \<equiv> [99, 114, 101, 97, 116, 101]"
abbreviation (input) act_update :: bytes where "act_update \<equiv> [117, 112, 100, 97, 116, 101]"
abbreviation (input) act_delete :: bytes where "act_delete \<equiv> [100, 101, 108, 101, 116, 101]"

fun parseCommitOps :: "RepoOp list \<Rightarrow> (repo_error, Operation list) result" where
  "parseCommitOps [] = Inr []"
| "parseCommitOps (rop # ops) =
     (if Action rop = act_create then
        (if RopCid rop = None \<or> RopPrev rop \<noteq> None then Inl ErrRepoOp
         else rbind (parseCommitOps ops) (\<lambda>out. Inr (\<lparr> OpPath = RopPath rop, OpValue = RopCid rop, OpPrev = None \<rparr> # out)))
      else if Action rop = act_delete then
        (if RopCid rop \<noteq> None \<or> RopPrev rop = None then Inl ErrRepoOp
         else rbind (parseCommitOps ops) (\<lambda>out. Inr (\<lparr> OpPath = RopPath rop, OpValue = None, OpPrev = RopPrev rop \<rparr> # out)))
      else if Action rop = act_update then
        (if RopCid rop = None \<or> RopPrev rop = None then Inl ErrRepoOp
         else rbind (parseCommitOps ops) (\<lambda>out. Inr (\<lparr> OpPath = RopPath rop, OpValue = RopCid rop, OpPrev = RopPrev rop \<rparr> # out)))
      else Inl ErrRepoOp)"

text \<open>The loop that reads the records of the operations.\<close>

fun check_records :: "Repo \<Rightarrow> RepoOp list \<Rightarrow> (repo_error, unit) result" where
  "check_records repo [] = Inr ()"
| "check_records repo (op # ops) =
     (if (Action op = act_create \<or> Action op = act_update) \<and> RopCid op \<noteq> None then
        rbind (mapErr ErrSyntax (ParseRepoPath (RopPath op))) (\<lambda>(nsid, rkey).
          rbind (GetRecordBytes repo nsid rkey) (\<lambda>(_, val).
            if the (RopCid op) \<noteq> val then Inl ErrRecord else check_records repo ops))
      else check_records repo ops)"

definition legacy :: "RepoOp list \<Rightarrow> bool" where
  "legacy ops \<longleftrightarrow> list_ex (\<lambda>op. (Action op = act_delete \<or> Action op = act_update) \<and> RopPrev op = None) ops"

definition check_inversion :: "cborlib \<Rightarrow> (Operation list \<Rightarrow> Operation list) \<Rightarrow> Repo \<Rightarrow> RepoOp list \<Rightarrow> cid option \<Rightarrow>
    (repo_error, unit) result" where
  "check_inversion L pdqsort repo rops prevData =
     rbind (parseCommitOps rops) (\<lambda>ops.
       rbind (NormalizeOps pdqsort ops) (\<lambda>ops.
         rbind (invert_ops ops (tree_Copy (MST repo))) (\<lambda>invTree.
           rbind (mapErr ErrMst (RootCID L invTree)) (\<lambda>(computed, _).
             case prevData of
               Some c \<Rightarrow> if computed \<noteq> c then Inl ErrPrevData else Inr ()
             | None \<Rightarrow> Inr ()))))"

definition VerifyCommitMessage ::
    "cborlib \<Rightarrow> (bytes \<Rightarrow> carfile option) \<Rightarrow> (Operation list \<Rightarrow> Operation list) \<Rightarrow> nat \<Rightarrow> CommitMsg \<Rightarrow> (repo_error, Repo) result option" where
  "VerifyCommitMessage L NewCarReader pdqsort fuel msg =
     fbind (Some (mapErr ErrSyntax (ParseDID (msgRepo msg)))) (\<lambda>did.
       fbind (Some (mapErr ErrSyntax (ParseTID (msgRev msg)))) (\<lambda>tid.
         fbind (Some (mapErr ErrSyntax (ParseDatetime (msgTime msg)))) (\<lambda>_.
           fbind (LoadRepoFromCAR L fuel (NewCarReader (msgBlocks msg))) (\<lambda>(commit, repo). Some (
             if Rev commit \<noteq> tid then Inl ErrRev
             else if DID commit \<noteq> did then Inl ErrDid
             else rbind (check_records repo (msgOps msg)) (\<lambda>_.
               if legacy (msgOps msg) then Inr repo
               else rbind (check_inversion L pdqsort repo (msgOps msg) (PrevData msg)) (\<lambda>_. Inr repo)))))))"

subsection \<open>What an operation list says\<close>

text \<open>Between two states of a repository: every operation names the value of its path before and after, and other paths keep
  theirs.\<close>

definition diff_holds :: "Operation list \<Rightarrow> (bytes \<rightharpoonup> cid) \<Rightarrow> (bytes \<rightharpoonup> cid) \<Rightarrow> bool" where
  "diff_holds ops m m' \<longleftrightarrow>
     (\<forall>op \<in> set ops. m (OpPath op) = OpPrev op \<and> m' (OpPath op) = OpValue op) \<and> (\<forall>k. k \<notin> OpPath ` set ops \<longrightarrow> m k = m' k)"

lemma InvertOp_cases:
  assumes "InvertOp t op = Inr t'"
  obtains (remove) v where "Remove t (OpPath op) = Inr (t', Some v)" "OpValue op = Some v" "OpPrev op = None"
  | (insert) v where "Insert t (OpPath op) v = Inr (t', OpValue op)" "OpPrev op = Some v"
  using assms
  by (auto simp: InvertOp_def IsCreate_def IsUpdate_def IsDelete_def rbind_Inr_iff split: if_splits)

lemma tree_Insert:
  assumes "Insert t key v = Inr (t', prev)" "tree_ok t"
  shows "prev = contents t key" "tree_ok t'" "contents t' = (contents t)(key \<mapsto> v)"
proof -
  have "IsValidKey key" using Insert_result(1) [OF assms] .
  from mst.put_law [OF assms(2) this, of v] assms(1)
  show "prev = contents t key" "tree_ok t'" "contents t' = (contents t)(key \<mapsto> v)" by auto
qed

lemma tree_Remove:
  assumes "Remove t key = Inr (t', prev)" "tree_ok t"
  shows "prev = contents t key" "tree_ok t'" "contents t' = (contents t)(key := None)"
proof -
  have "IsValidKey key" using assms(1) by (auto simp: Remove_def split: if_splits)
  from mst.remove_law [OF assms(2) this] assms(1)
  show "prev = contents t key" "tree_ok t'" "contents t' = (contents t)(key := None)" by auto
qed

lemma InvertOp_tree:
  assumes "InvertOp t op = Inr t'" "tree_ok t"
  shows "tree_ok t' \<and> contents t (OpPath op) = OpValue op \<and> contents t' = (contents t)(OpPath op := OpPrev op)"
  using assms(1)
proof (cases rule: InvertOp_cases)
  case (remove v)
  then show ?thesis using tree_Remove [OF remove(1) assms(2)] by simp
next
  case (insert v)
  then show ?thesis using tree_Insert [OF insert(1) assms(2)] by simp
qed

lemma invert_ops_diff:
  assumes "invert_ops ops t = Inr t'" "tree_ok t" "distinct (map OpPath ops)"
  shows "tree_ok t' \<and> diff_holds ops (contents t') (contents t)"
  using assms
proof (induction ops arbitrary: t)
  case (Cons op ops)
  obtain t1 where t1: "InvertOp t op = Inr t1" "invert_ops ops t1 = Inr t'" using Cons.prems(1) by (auto simp: rbind_Inr_iff)
  have i: "tree_ok t1" "contents t (OpPath op) = OpValue op" "contents t1 = (contents t)(OpPath op := OpPrev op)"
    using InvertOp_tree [OF t1(1) Cons.prems(2)] by auto
  have n: "OpPath op \<notin> OpPath ` set ops" using Cons.prems(3) by auto
  have "tree_ok t'" and d: "diff_holds ops (contents t') (contents t1)" using Cons.IH [OF t1(2) i(1)] Cons.prems(3) by auto
  moreover have "contents t' (OpPath op) = OpPrev op" using d n i(3) by (simp add: diff_holds_def)
  moreover have "contents t1 (OpPath x) = contents t (OpPath x)" if "x \<in> set ops" for x using n that by (metis fun_upd_other i(3) imageI)
  ultimately show ?case using i by (auto simp: diff_holds_def)
qed (simp add: diff_holds_def)

lemma InvertOp_keys:
  assumes "InvertOp t op = Inr t'" "tree_ok t" "short_keys (Walk t)"
  shows "short_keys (Walk t')"
  using assms(1)
proof (cases rule: InvertOp_cases)
  case (remove v)
  show ?thesis using Remove_result(2) [OF remove(1) assms(2)] assms(3) by (auto simp: short_keys_def del_def)
next
  case (insert v)
  note r = Insert_result [OF insert(1) assms(2)]
  have "length (OpPath op) \<le> MAX_KEY_BYTES" using r(1) by (simp add: IsValidKey_def)
  then show ?thesis using r(3) assms(3) by (auto simp: short_keys_def ins_def lower_def upper_def)
qed

lemma invert_ops_keys: "invert_ops ops t = Inr t' \<Longrightarrow> tree_ok t \<Longrightarrow> short_keys (Walk t) \<Longrightarrow> short_keys (Walk t')"
  by (induction ops arbitrary: t) (auto simp: rbind_Inr_iff dest: InvertOp_keys InvertOp_tree)

subsection \<open>Inversion on a partial tree\<close>

lemma InvertOp_cache:
  assumes "InvertOp p op = Inr p'" "cache_node L (Root p)"
  shows "cache_node L (Root p')"
  using assms(1)
proof (cases rule: InvertOp_cases)
  case (remove v)
  then show ?thesis using remove_cache(1) assms(2) by (auto simp: Remove_def rbind_Inr_iff split: if_splits)
next
  case (insert v)
  then show ?thesis using insert_cache(1) assms(2) by (auto simp: Insert_def rbind_Inr_iff split: if_splits)
qed

lemma invert_ops_cache: "invert_ops ops p = Inr p' \<Longrightarrow> cache_node L (Root p) \<Longrightarrow> cache_node L (Root p')"
  by (induction ops arbitrary: p) (auto simp: rbind_Inr_iff dest: InvertOp_cache)

lemma InvertOp_sim:
  assumes "InvertOp p op = Inr p'" "prunes_top L B (Root p) (Root f)" "tree_ok f"
  shows "\<exists>f'. InvertOp f op = Inr f' \<and> prunes_top L B (Root p') (Root f')"
proof -
  have r: "\<exists>f'. Remove f k = Inr (f', v) \<and> prunes_top L B (Root q) (Root f')" if "Remove p k = Inr (q, v)" for k q v
    by (rule Remove_sim [OF that assms(2,3)])
  have i: "\<exists>f'. Insert f k w = Inr (f', v) \<and> prunes_top L B (Root q) (Root f')" if "Insert p k w = Inr (q, v)" for k w q v
    by (rule Insert_sim [OF that assms(2,3)])
  show ?thesis using assms(1) unfolding InvertOp_def by (auto simp: rbind_Inr_iff split: if_splits dest!: r i)
qed

lemma invert_ops_sim:
  "invert_ops ops p = Inr p' \<Longrightarrow> prunes_top L B (Root p) (Root f) \<Longrightarrow> tree_ok f \<Longrightarrow>
     \<exists>f'. invert_ops ops f = Inr f' \<and> prunes_top L B (Root p') (Root f')"
proof (induction ops arbitrary: p f)
  case (Cons op ops)
  obtain p1 where p1: "InvertOp p op = Inr p1" "invert_ops ops p1 = Inr p'" using Cons.prems(1) by (auto simp: rbind_Inr_iff)
  obtain f1 where f1: "InvertOp f op = Inr f1" "prunes_top L B (Root p1) (Root f1)" using InvertOp_sim [OF p1(1) Cons.prems(2,3)] by blast
  then show ?case using Cons.IH [OF p1(2) f1(2)] InvertOp_tree [OF f1(1) Cons.prems(3)] by auto
qed auto

subsection \<open>Sorting\<close>

lemma move_left_mset: "mset (move_left x ys) = add_mset x (mset ys)"
  by (induction ys) auto

lemma insertionSort_mset: "mset (insertionSort xs) = mset xs"
proof -
  have "mset (fold move_left xs ys) = mset xs + mset ys" for ys by (induction xs arbitrary: ys) (auto simp: move_left_mset)
  then show ?thesis by (simp add: insertionSort_def)
qed

lemma has_duplicate_distinct: "has_duplicate ops seen \<longleftrightarrow> \<not> distinct (map OpPath ops) \<or> OpPath ` set ops \<inter> seen \<noteq> {}"
  by (induction ops arbitrary: seen) auto

lemma NormalizeOps_Inr:
  assumes "NormalizeOps pdqsort xs = Inr ys" "\<And>xs. mset (pdqsort xs) = mset xs"
  shows "mset ys = mset xs" "distinct (map OpPath ys)" "set ys = set xs"
proof -
  show m: "mset ys = mset xs"
    using assms insertionSort_mset by (auto simp: NormalizeOps_def sort_ops_def split: if_splits)
  then show "set ys = set xs" by (rule mset_eq_setD)
  have "distinct (map OpPath xs)" using assms(1) by (auto simp: NormalizeOps_def has_duplicate_distinct split: if_splits)
  then show "distinct (map OpPath ys)" using mset_eq_imp_distinct_iff [of "map OpPath xs" "map OpPath ys"] m by simp
qed

subsection \<open>An accepted message\<close>

text \<open>A complete canonical tree with its root identifier; and the tree that undoing operations gives.\<close>

definition state_of :: "cborlib \<Rightarrow> Tree \<Rightarrow> cid \<Rightarrow> bool" where
  "state_of L t c \<longleftrightarrow> canonical t \<and> short_keys (Walk t) \<and> ref_node L (Root t) = Inr c"

definition undone :: "Operation list \<Rightarrow> Tree \<Rightarrow> Tree" where
  "undone ops t = (case invert_ops ops t of Inr t' \<Rightarrow> t' | Inl _ \<Rightarrow> t)"

lemma tb_blocks: "fold tb_Put xs tb c = Some b \<Longrightarrow> (c, b) \<in> set xs \<or> tb c = Some b"
  by (induction xs arbitrary: tb) (force simp: tb_Put_def split: if_splits)+

lemma car_some_blocks:
  assumes "\<forall>(c, b) \<in> set xs. c = SumCid L b" "inj_on (SumCid L) (snd ` set xs \<union> B)"
  shows "some_blocks L (tb_Get (fold tb_Put xs NewTinyBlockstore)) B"
  unfolding some_blocks_def
proof
  fix b assume b: "b \<in> B"
  show "tb_Get (fold tb_Put xs NewTinyBlockstore) (SumCid L b) = Inr b \<or>
      tb_Get (fold tb_Put xs NewTinyBlockstore) (SumCid L b) = Inl ErrMissingBlock"
  proof (cases "fold tb_Put xs NewTinyBlockstore (SumCid L b)")
    case (Some b')
    then have m: "(SumCid L b, b') \<in> set xs" using tb_blocks [OF Some] by (simp add: NewTinyBlockstore_def)
    then have "SumCid L b = SumCid L b'" "b' \<in> snd ` set xs" using assms(1) by force+
    then have "b = b'" using inj_onD [OF assms(2)] b by blast
    then show ?thesis using Some by (simp add: tb_Get_def)
  qed (simp add: tb_Get_def)
qed

lemma LoadRepo_tree:
  assumes "LoadRepoFromCAR L fuel (Some cr) = Some (Inr (commit, repo))"
  shows "LoadTreeFromStore L (tb_Get (fold tb_Put (car_Blocks cr) NewTinyBlockstore)) fuel (Data commit) = Some (Inr (MST repo))"
  using assms by (auto simp: LoadRepoFromCAR_def fbind_def Let_def split: if_splits option.splits sum.splits)

lemma Verify_inversion:
  assumes "VerifyCommitMessage L NewCarReader pdqsort fuel msg = Some (Inr repo)" "NewCarReader (msgBlocks msg) = Some cr" "\<not> legacy (msgOps msg)"
  shows "\<exists>commit. LoadRepoFromCAR L fuel (Some cr) = Some (Inr (commit, repo)) \<and>
    check_inversion L pdqsort repo (msgOps msg) (PrevData msg) = Inr ()"
  using assms by (auto simp: VerifyCommitMessage_def fbind_def rbind_Inr_iff split: if_splits option.splits sum.splits)

lemma tree_Copy_id: "tree_Copy t = t"
  by (cases t) (simp add: tree_Copy_def deepCopy_id)

lemma inversion_sound:
  assumes "cbor_laws L" "state_of L new c" "state_of L old prev"
    "prunes_top L (tree_blocks L (Root new)) (Root (MST repo)) (Root new)" "cache_node L (Root (MST repo))"
    "check_inversion L pdqsort repo rops (Some prev) = Inr ()" "parseCommitOps rops = Inr ops" "\<And>xs. mset (pdqsort xs) = mset xs"
    "inj_on (SumCid L) (tree_blocks L (Root new) \<union> tree_blocks L (Root old) \<union> tree_blocks L (Root (undone (sort_ops pdqsort ops) new)))"
  shows "diff_holds ops (contents old) (contents new)"
proof -
  have ok: "tree_ok new" "tree_ok old" using assms(2,3) by (simp_all add: state_of_def canonical_def)
  obtain t t' where t: "NormalizeOps pdqsort ops = Inr (sort_ops pdqsort ops)" "invert_ops (sort_ops pdqsort ops) (MST repo) = Inr t"
    "RootCID L t = Inr (prev, t')"
    using assms(6,7) by (auto simp: check_inversion_def rbind_Inr_iff tree_Copy_id NormalizeOps_def split: if_splits)
  note ops = NormalizeOps_Inr [OF t(1) assms(8)]
  obtain f where f: "invert_ops (sort_ops pdqsort ops) new = Inr f" "prunes_top L (tree_blocks L (Root new)) (Root t) (Root f)"
    using invert_ops_sim [OF t(2) assms(4) ok(1)] by blast
  have ca: "cache_node L (Root t)" by (rule invert_ops_cache [OF t(2) assms(5)])
  have d: "tree_ok f" "diff_holds (sort_ops pdqsort ops) (contents f) (contents new)" using invert_ops_diff [OF f(1) ok(1) ops(2)] by auto
  have k: "short_keys (Walk f)" by (rule invert_ops_keys [OF f(1) ok(1)]) (use assms(2) in \<open>simp add: state_of_def\<close>)
  have u: "undone (sort_ops pdqsort ops) new = f" using f(1) by (simp add: undone_def)
  have "contents f = contents old"
    by (rule root_authentic [OF assms(1) f(2) ca d(1) k t(3) ok(2)], use assms(3) in \<open>simp_all add: state_of_def\<close>,
        rule inj_on_subset [OF assms(9)], use u in auto)
  then show ?thesis using d(2) ops(3) by (simp add: diff_holds_def)
qed


subsection \<open>Sample paths\<close>

text \<open>\<^verbatim>\<open>a.b.c/j\<close>, \<^verbatim>\<open>a.b.c/k\<close> and \<^verbatim>\<open>a.b.c/m\<close>.\<close>

definition path_j :: bytes where "path_j = [97, 46, 98, 46, 99, 47, 106]"
definition path_k :: bytes where "path_k = [97, 46, 98, 46, 99, 47, 107]"
definition path_m :: bytes where "path_m = [97, 46, 98, 46, 99, 47, 109]"

lemma height_j: "HeightForKey path_j = 0"
  by code_simp

lemma height_k: "HeightForKey path_k = 1"
  by code_simp

lemma height_m: "HeightForKey path_m = 0"
  by code_simp

text \<open>A code equation with the heights of these paths, so that evaluating the samples does not compute them again.\<close>

lemma HeightForKey_code [code]:
  "HeightForKey key = (if key = path_j \<or> key = path_m then 0 else if key = path_k then 1 else height_loop (Sum256 key) 0)"
  using height_j height_k height_m by (auto simp: HeightForKey_def)

subsection \<open>A valid message\<close>

lemma InvertOp_complete:
  assumes "canonical t" "IsValidKey (OpPath op)" "contents t (OpPath op) = OpValue op" "OpPrev op \<noteq> OpValue op"
    "contents t k \<noteq> None" "OpPath op = k \<longrightarrow> OpPrev op \<noteq> None"
  shows "\<exists>t'. InvertOp t op = Inr t' \<and> canonical t' \<and> contents t' = (contents t)(OpPath op := OpPrev op)"
proof (cases "OpPrev op")
  case None
  obtain t' where t': "Remove t (OpPath op) = Inr (t', OpValue op)" "Walk t' = del (OpPath op) (Walk t)" "Walk t' \<noteq> [] \<longrightarrow> canonical t'"
    using Remove_canonical [OF assms(1,2)] assms(3) by auto
  have c: "contents t' = (contents t)(OpPath op := None)" using t'(2) by (simp add: contents_def map_of_del)
  have "contents t' k \<noteq> None" using c None assms(5,6) by auto
  then have "canonical t'" using t'(3) by (auto simp: contents_def)
  then show ?thesis using None t'(1) c assms(4) by (auto simp: InvertOp_def IsCreate_def)
next
  case (Some v)
  obtain t' where t': "Insert t (OpPath op) v = Inr (t', OpValue op)" "canonical t'" "Walk t' = ins (OpPath op) v (Walk t)"
    using Insert_canonical [OF assms(1,2), of v] assms(3) by auto
  have "contents t' = (contents t)(OpPath op \<mapsto> v)" using t'(3) by (simp add: contents_def map_of_ins)
  then show ?thesis
    using Some t'(1,2) assms(4) by (cases "OpValue op") (auto simp: InvertOp_def IsCreate_def IsUpdate_def IsDelete_def)
qed

lemma invert_ops_complete:
  assumes "canonical t" "contents t k \<noteq> None" "distinct (map OpPath ops)"
    "\<forall>op \<in> set ops. IsValidKey (OpPath op) \<and> contents t (OpPath op) = OpValue op \<and> OpPrev op \<noteq> OpValue op \<and> (OpPath op = k \<longrightarrow> OpPrev op \<noteq> None)"
  shows "\<exists>t'. invert_ops ops t = Inr t' \<and> canonical t'"
  using assms
proof (induction ops arbitrary: t)
  case (Cons op ops)
  then obtain t1 where t1: "InvertOp t op = Inr t1" "canonical t1" "contents t1 = (contents t)(OpPath op := OpPrev op)"
    using InvertOp_complete [of t op k] by auto
  have "contents t1 k \<noteq> None" using t1(3) Cons.prems(2,4) by auto
  moreover have "contents t1 (OpPath x) = OpValue x" if "x \<in> set ops" for x
  proof -
    have "OpPath x \<noteq> OpPath op" using Cons.prems(3) that by (metis distinct.simps(2) image_eqI list.simps(9) set_map)
    then show ?thesis using t1(3) Cons.prems(4) that by simp
  qed
  ultimately show ?case using Cons.IH [OF t1(2)] Cons.prems t1(1) by auto
qed simp

lemma diff_holds_old: "diff_holds ops m m' \<Longrightarrow> diff_holds ops n m' \<Longrightarrow> m = n"
proof (rule ext)
  fix k assume d: "diff_holds ops m m'" "diff_holds ops n m'"
  show "m k = n k" using d by (cases "k \<in> OpPath ` set ops") (auto simp: diff_holds_def)
qed


text \<open>A state with two records and the one after the creation of a third. The message about it has the new root and the new leaf, not the
  leaf of the first record.\<close>

abbreviation leaf :: "bytes \<Rightarrow> cid \<Rightarrow> node" where
  "leaf key val \<equiv> Node [valueEntry key val] 0 True None False"

definition state_old :: Tree where
  "state_old = \<lparr> Root = Node [childEntry (leaf path_j [1]), valueEntry path_k [2]] 1 True None False \<rparr>"

definition state_new :: Tree where
  "state_new = \<lparr> Root = Node [childEntry (leaf path_j [1]), valueEntry path_k [2], childEntry (leaf path_m [3])] 1 True None False \<rparr>"

definition block_of :: "node \<Rightarrow> bytes" where
  "block_of n = (case node_block sample_lib n of Inr b \<Rightarrow> b | Inl _ \<Rightarrow> [])"

definition message_commit :: Commit where
  "message_commit = \<lparr> DID = [100, 105, 100, 58, 120, 58, 121], Version = 3, Prev = None, Data = block_of (Root state_new), Sig = Some [1],
     Rev = [50, 50, 50, 50, 50, 50, 50, 50, 50, 50, 50, 50, 50] \<rparr>"

definition message_blocks :: "bytes list" where
  "message_blocks =
     [case Commit_MarshalCBOR sample_lib message_commit of Inr b \<Rightarrow> b | Inl _ \<Rightarrow> [], block_of (Root state_new), block_of (leaf path_m [3]), [3]]"

definition message_car :: carfile where
  "message_car = \<lparr> car_Version = 1, car_Roots = [hd message_blocks], car_Blocks = map (\<lambda>b. (b, b)) message_blocks, car_EOF = True \<rparr>"

definition message :: CommitMsg where
  "message = \<lparr> msgRepo = DID message_commit, msgRev = Rev message_commit,
     msgTime = [50, 48, 50, 53, 45, 48, 49, 45, 48, 50, 84, 48, 51, 58, 48, 52, 58, 48, 53, 46, 54, 90], msgBlocks = [],
     msgOps = [\<lparr> Action = act_create, RopCid = Some [3], RopPath = path_m, RopPrev = None \<rparr>], PrevData = Some (block_of (Root state_old)) \<rparr>"

lemma message_accepted: "(case VerifyCommitMessage sample_lib (\<lambda>_. Some message_car) id 129 message of Some (Inr _) \<Rightarrow> True | _ \<Rightarrow> False)"
  by code_simp

lemma message_loaded:
  "(case LoadRepoFromCAR sample_lib 129 (Some message_car) of Some (Inr (c, _)) \<Rightarrow> Data c = block_of (Root state_new) | _ \<Rightarrow> False)"
  by code_simp

lemma path_order: "path_j < path_k" "path_k < path_m" "path_j < path_m" "path_j \<noteq> []" "path_k \<noteq> []" "path_m \<noteq> []"
  by (simp_all add: path_j_def path_k_def path_m_def)

lemma path_short: "length path_j \<le> MAX_KEY_BYTES" "length path_k \<le> MAX_KEY_BYTES" "length path_m \<le> MAX_KEY_BYTES"
  by (simp_all add: path_j_def path_k_def path_m_def MAX_KEY_BYTES_def)

lemma sample_states:
  "state_of sample_lib state_old (block_of (Root state_old))" "state_of sample_lib state_new (block_of (Root state_new))"
proof -
  have r: "ref_node sample_lib (Root state_old) = Inr (block_of (Root state_old))" "ref_node sample_lib (Root state_new) = Inr (block_of (Root state_new))"
    by code_simp+
  have w: "Walk state_old = [(path_j, [1]), (path_k, [2])]" "Walk state_new = [(path_j, [1]), (path_k, [2]), (path_m, [3])]"
    using path_order by (simp_all add: Walk_def state_old_def state_new_def)
  have "wf_node 1 (Root state_old)" "wf_node 1 (Root state_new)"
    using path_order height_j height_k height_m by (simp_all add: state_old_def state_new_def)
  then have "tree_ok state_old" "tree_ok state_new" using w path_order by (auto simp: tree_ok_def)
  moreover have "has_value (Root state_old)" "entries (Root state_old) \<noteq> []" "has_value (Root state_new)" "entries (Root state_new) \<noteq> []"
    using path_order by (simp_all add: has_value_def state_old_def state_new_def)
  ultimately have "canonical state_old" "canonical state_new" by (simp_all add: canonical_def)
  then show "state_of sample_lib state_old (block_of (Root state_old))" "state_of sample_lib state_new (block_of (Root state_new))"
    using r w path_short by (simp_all add: state_of_def short_keys_def)
qed


lemma state_new_built: "built sample_lib state_new"
proof (rule built.insert [OF built.insert [OF built.insert [OF built.empty]]])
  show "Insert NewEmptyTree path_j [1] = Inr (\<lparr> Root = leaf path_j [1] \<rparr>, None)" by code_simp
  show "Insert \<lparr> Root = leaf path_j [1] \<rparr> path_k [2] = Inr (state_old, None)" by code_simp
  show "Insert state_old path_m [3] = Inr (state_new, None)" by code_simp
qed


text \<open>A commit that replaces the only record by another one.\<close>

definition only_m :: Tree where "only_m = \<lparr> Root = leaf path_m [3] \<rparr>"
definition only_k :: Tree where "only_k = \<lparr> Root = Node [valueEntry path_k [2]] 1 True None False \<rparr>"

definition replacement :: "RepoOp list" where
  "replacement =
     [\<lparr> Action = act_delete, RopCid = None, RopPath = path_m, RopPrev = Some [3] \<rparr>,
      \<lparr> Action = act_create, RopCid = Some [2], RopPath = path_k, RopPrev = None \<rparr>]"

definition replacement_ops :: "Operation list" where
  "replacement_ops = [\<lparr> OpPath = path_m, OpValue = None, OpPrev = Some [3] \<rparr>, \<lparr> OpPath = path_k, OpValue = Some [2], OpPrev = None \<rparr>]"

lemma only_states: "state_of sample_lib only_m (block_of (Root only_m))" "state_of sample_lib only_k (block_of (Root only_k))"
proof -
  have r: "ref_node sample_lib (Root only_m) = Inr (block_of (Root only_m))" "ref_node sample_lib (Root only_k) = Inr (block_of (Root only_k))"
    by code_simp+
  have w: "Walk only_m = [(path_m, [3])]" "Walk only_k = [(path_k, [2])]" using path_order by (simp_all add: Walk_def only_m_def only_k_def)
  have "wf_node 0 (Root only_m)" "wf_node 1 (Root only_k)" using path_order height_k height_m by (simp_all add: only_m_def only_k_def)
  then have "canonical only_m" "canonical only_k"
    using w path_order by (auto simp: canonical_def tree_ok_def has_value_def) (simp_all add: only_m_def only_k_def)
  then show "state_of sample_lib only_m (block_of (Root only_m))" "state_of sample_lib only_k (block_of (Root only_k))"
    using r w path_short by (simp_all add: state_of_def short_keys_def)
qed


end
