(* ===== verification/Spec2Isabelle.thy ===== *)
theory Spec2Isabelle
  imports SegmentWriter DiskPlayback MstLoad RepoOps
begin

text \<open>
  A verification of the hypercerts relay and its archive. The relay receives signed commits of account repositories from
  their hosts, checks them, numbers the events and keeps them in an append-only log from which subscribers are served.
  The archive (jetstream) consumes the stream and stores its events as rows of segment files. The development models the
  parts that decide what is stored and what is believed: the segment files, the output log, the Merkle search tree of a
  repository, the identifiers, and the check of a commit against its tree. Paths are relative to \<^verbatim>\<open>src/\<close>.

  \<^bold>\<open>Conventions.\<close> A fallible function of the code gives \<open>Inl\<close> of an error or \<open>Inr\<close> of its results. A method that changes its
  receiver takes it as an argument and returns it. Byte slices are lists of \<open>8 word\<close>, integers keep their width where it
  matters (sequence numbers of rows, offsets, identifiers, codec fields) and are \<open>int\<close> or \<open>nat\<close> where the code stays far
  from the bounds. A call that can fail for reasons outside the program, such as a write or an fsync, has its outcome as an
  argument, so that a property over all arguments is one over all failures.

  \<^bold>\<open>Prelude.\<close> Byte and integer types, results, little-endian columns (locale \<open>fixed_codec\<close>, interpreted for 16, 32 and 64
  bits), reachable states of a step relation and their invariants (locale \<open>inductive_invariant\<close>, interpreted for the segment
  writer and for the output log).

  \<^bold>\<open>Segment files.\<close> \<open>SegmentBlock\<close> has \<^verbatim>\<open>jetstream/segment/event.go\<close> and \<^verbatim>\<open>block.go\<close>: a row, its validation, and the columnar
  codec of a block. Decoding inverts encoding, and a buffer is accepted exactly when it is the encoding of valid rows.
  \<open>SegmentWriter\<close> has \<^verbatim>\<open>writer.go\<close> and the scan of active files of \<^verbatim>\<open>scan.go\<close>: \<open>segwriter\<close> holds the file as bytes together with
  the fields of the Go struct, and \<open>wstep\<close> is any call of the writer with any I/O outcome. On all reachable states a scan
  gives a prefix of the accepted events that contains all acknowledged ones, disk and pending snapshot cover the accepted
  events, the block index describes the blocks, range queries are complete, and a reopened file loses nothing complete. The
  zstd codec is a pair of parameters with the law \<open>zstd_ok\<close>: a frame is decompressed to what was compressed,
  and a frame of a valid block has a length that fits an \<^verbatim>\<open>int\<close>.

  \<^bold>\<open>Output log.\<close> \<open>DiskLog\<close> and \<open>DiskPlayback\<close> have \<^verbatim>\<open>cmd/relay/stream/persist/diskpersist/diskpersist.go\<close>: \<open>dpstate\<close> is the files
  as bytes, the rows of the reference table and the fields of the persister; \<open>dstep\<close> is a call to persist with any I/O
  outcome, the registration of the broadcaster, or a crash that keeps an arbitrary part of the unsynced tail, with the
  restart after it. The numbers of a playback are consecutive, no acknowledged event is lost, the broadcaster sees
  acknowledged events only, playback from a cursor gives what follows it, takedown hides one account and no other, and
  garbage collection keeps what is needed. The CBOR codec of events and the account resolver are parameters with the law
  \<open>cbor_ok\<close>. Playback has at most ten rounds over the files, which is the bound of the code.

  \<^bold>\<open>Merkle search tree.\<close> \<open>MstKey\<close> has \<^verbatim>\<open>atproto/repo/mst/util.go\<close> with SHA-256 written out, since the height of a key is
  computed from it. \<open>Mst\<close> has \<^verbatim>\<open>node.go\<close>, \<^verbatim>\<open>node_insert.go\<close>, \<^verbatim>\<open>node_remove.go\<close>, \<^verbatim>\<open>verify.go\<close> and \<^verbatim>\<open>tree.go\<close>. \<open>MstMap\<close> and \<open>MstTree\<close>
  show that the operations refine those of a finite map (locale \<open>kv_tree\<close>, interpreted on \<open>Get\<close>, \<open>Insert\<close> and \<open>Remove\<close>), and
  that canonical trees with the same contents are the same. \<open>MstEncoding\<close> has \<^verbatim>\<open>encoding.go\<close> and \<^verbatim>\<open>cbor_gen.go\<close>, \<open>MstStore\<close> root
  identifiers and block stores: the identifier computed from dirty flags and cached identifiers is the one computed over
  all nodes, a stored tree is loaded again, and the identifier stands for the contents. \<open>MstLoad\<close> shows when a load of
  arbitrary blocks ends. The load takes fuel for its depth; key heights are at most 128, so that 129 levels are enough for
  every canonical tree. The cbor-gen runtime and the identifier package are the record \<open>cborlib\<close> with the laws \<open>cbor_laws\<close>;
  that different blocks have different identifiers is a hypothesis on the finitely many blocks at hand.

  \<^bold>\<open>Commits.\<close> \<open>Syntax\<close> has \<^verbatim>\<open>tid.go\<close>, \<^verbatim>\<open>nsid.go\<close>, \<^verbatim>\<open>recordkey.go\<close>, \<^verbatim>\<open>did.go\<close>, \<^verbatim>\<open>path.go\<close> and \<^verbatim>\<open>datetime.go\<close> of \<^verbatim>\<open>atproto/syntax\<close>:
  timestamp identifiers increase with the clock, and an accepted path is a collection name and a record key. \<open>RepoCommit\<close>
  has \<^verbatim>\<open>commit.go\<close>, \<^verbatim>\<open>cbor_gen.go\<close>, \<^verbatim>\<open>car.go\<close>, \<^verbatim>\<open>repo.go\<close> and \<^verbatim>\<open>tiny_blockstore.go\<close> of \<^verbatim>\<open>atproto/repo\<close>: a signed commit is read back
  and verified. \<open>RepoOps\<close> has \<^verbatim>\<open>operation.go\<close> and \<^verbatim>\<open>sync.go\<close>: the operations of an accepted commit message are the difference
  between the trees of the two root identifiers, although the message has only some blocks of the new tree. That rests on
  \<open>MstPartial\<close>: operations on a partial tree simulate those on the complete tree. The archive reader, the keys and the lookup
  of an account's key are parameters. The sort of the operations is the insertion sort of the standard library up to twelve
  elements, and for longer lists a parameter that permutes its input.

  \<^bold>\<open>Behaviour that differs from what the code intends.\<close> Some properties state it: blocks whose body exceeds the limit of the
  decoder are acknowledged but cannot be read; playback from a cursor on a file boundary, or inside the first file after a
  rotation, omits events; a tree that becomes empty keeps its height; the structural check misses keys out of order across
  levels; the clock of timestamp identifiers wraps at 53 bits; a commit that replaces the only record is refused.

  \<^bold>\<open>Not modelled.\<close> Sealed segments and their rewriting, the ingestion and subscription services of the archive, hosts,
  accounts and quotas of the relay, the fan-out to subscribers, and the clients: concurrent processes over networks and
  databases whose semantics is not in the repository. Generated bindings, metrics, command line tools and tests have no
  state of their own to verify. Handles, URIs and language tags are not used by the modelled parts.
\<close>

end
